(* ===== verification/Quorums_Prelude.thy ===== *)
theory Quorums_Prelude
  imports Main "HOL-Library.Word" "HOL-Library.Monad_Syntax" "HOL-Library.Multiset"
begin

text \<open>
  Shared ground of the development: the widths of the machine integers the crate uses, Rust's
  overflow-checked increment, decimal formatting, \<^verbatim>\<open>HashMap\<close> operations on association lists,
  and the generic list and option lemmas the component theories build on.

  Conventions used throughout.
  \<^item> A \<^verbatim>\<open>Result\<close> is a sum: \<open>Inl\<close> is \<^verbatim>\<open>Err\<close>, \<open>Inr\<close> is \<^verbatim>\<open>Ok\<close>.
  \<^item> Where the code can panic (an index out of bounds, an arithmetic overflow under the overflow
    checks of the dev and test profiles, an \<^verbatim>\<open>unwrap\<close> of \<^verbatim>\<open>None\<close>), the model has an outer option:
    \<open>None\<close> is the panic, so every panic of the source is a branch of the model.
  \<^item> A \<^verbatim>\<open>HashMap\<close> whose iteration order the code observes is an association list with distinct
    keys; the order of the list stands for the unspecified iteration order.
\<close>

named_theorems collector_laws \<open>unfolding rules of the select loops\<close>
named_theorems hashmap_simps \<open>lookup after a HashMap operation\<close>

type_synonym u8 = "8 word"
type_synonym u32 = "32 word"
type_synonym u64 = "64 word"

section \<open>Machine integers\<close>

text \<open>\<^verbatim>\<open>x + 1\<close> on an unsigned type with overflow checks: \<open>None\<close> is the panic.\<close>

definition checked_inc :: "'a::len word \<Rightarrow> 'a word option" where
  "checked_inc x = (if x = - 1 then None else Some (x + 1))"

lemma checked_inc_Some_iff [simp]: "checked_inc x = Some y \<longleftrightarrow> x \<noteq> - 1 \<and> y = x + 1"
  by (auto simp: checked_inc_def)

lemma checked_inc_None_iff [simp]: "checked_inc x = None \<longleftrightarrow> x = - 1"
  by (auto simp: checked_inc_def)

lemma unat_inc:
  fixes x :: "'a::len word"
  assumes "x \<noteq> - 1"
  shows "unat (x + 1) = Suc (unat x)"
proof -
  have "1 + x \<noteq> 0"
    using assms by (simp add: add_eq_0_iff)
  then show ?thesis
    by (simp add: unatSuc add.commute)
qed

lemma word_less_inc:
  fixes x y :: "'a::len word"
  assumes "x \<noteq> - 1"
  shows "y < x + 1 \<longleftrightarrow> y \<le> x"
  by (simp add: word_less_nat_alt word_le_nat_alt unat_inc [OF assms] less_Suc_eq_le)

section \<open>Lists of options\<close>

lemma those_Some_iff: "those xs = Some ys \<longleftrightarrow> xs = map Some ys"
proof (induction xs arbitrary: ys)
  case (Cons x xs)
  show ?case
    by (cases x; cases ys) (auto simp: Cons)
qed (cases; auto)

section \<open>Decimal formatting\<close>

fun show_nat :: "nat \<Rightarrow> string" where
  "show_nat n = (if n < 10 then [char_of (48 + n)]
     else show_nat (n div 10) @ [char_of (48 + n mod 10)])"

declare show_nat.simps [simp del]

lemma show_nat_Nil [simp]: "show_nat n \<noteq> []" "[] \<noteq> show_nat n"
  by (simp_all add: show_nat.simps [of n])

lemma digit_inj: "m < 10 \<Longrightarrow> n < 10 \<Longrightarrow> char_of (48 + m) = (char_of (48 + n) :: char) \<Longrightarrow> m = n" for m n :: nat
proof -
  assume "m < 10" "n < 10" and eq: "char_of (48 + m) = (char_of (48 + n) :: char)"
  from arg_cong [OF eq, of "of_char :: char \<Rightarrow> nat"] have "(48 + m) mod 256 = (48 + n) mod 256" by simp
  with \<open>m < 10\<close> \<open>n < 10\<close> show "m = n" by simp
qed

lemma show_nat_inj: "show_nat m = show_nat n \<Longrightarrow> m = n"
proof (induction m arbitrary: n rule: show_nat.induct)
  case (1 m)
  show ?case
  proof (cases "m < 10 \<longleftrightarrow> n < 10")
    case same: True
    show ?thesis
    proof (cases "m < 10")
      case True
      with same 1(2) show ?thesis by (auto simp: show_nat.simps [of m] show_nat.simps [of n] dest: digit_inj)
    next
      case False
      with same 1(2) have "show_nat (m div 10) = show_nat (n div 10)" "char_of (48 + m mod 10) = (char_of (48 + n mod 10) :: char)"
        by (simp_all add: show_nat.simps [of m] show_nat.simps [of n])
      then have "m div 10 = n div 10" "m mod 10 = n mod 10" using 1(1) [OF False] digit_inj [of "m mod 10" "n mod 10"] by simp_all
      then show ?thesis by (metis div_mult_mod_eq)
    qed
  next
    case False
    with 1(2) show ?thesis by (auto simp: show_nat.simps [of m] show_nat.simps [of n] split: if_splits)
  qed
qed

definition show_u32 :: "u32 \<Rightarrow> string" where
  "show_u32 x = show_nat (unat x)"

section \<open>HashMap operations on association lists\<close>

text \<open>
  \<^verbatim>\<open>HashMap::insert\<close> replaces the value of a present key and adds an absent one; \<^verbatim>\<open>remove\<close>
  deletes the entry. Distinctness of the keys is the representation invariant.
\<close>

fun hm_insert :: "'k \<Rightarrow> 'v \<Rightarrow> ('k \<times> 'v) list \<Rightarrow> ('k \<times> 'v) list" where
  "hm_insert k v [] = [(k, v)]"
| "hm_insert k v ((k', v') # m) = (if k = k' then (k, v) # m else (k', v') # hm_insert k v m)"

definition hm_remove :: "'k \<Rightarrow> ('k \<times> 'v) list \<Rightarrow> ('k \<times> 'v) list" where
  "hm_remove k m = filter (\<lambda>(k', _). k' \<noteq> k) m"

definition hm_wf :: "('k \<times> 'v) list \<Rightarrow> bool" where
  "hm_wf m \<longleftrightarrow> distinct (map fst m)"

lemma lookup_hm_insert [hashmap_simps]: "map_of (hm_insert k v m) = (map_of m)(k \<mapsto> v)"
  by (induction m) auto

lemma lookup_hm_remove [hashmap_simps]: "map_of (hm_remove k m) = (map_of m)(k := None)"
  by (induction m) (auto simp: hm_remove_def)

lemma keys_hm_insert [hashmap_simps]: "set (map fst (hm_insert k v m)) = insert k (set (map fst m))"
  by (induction k v m rule: hm_insert.induct) (auto simp del: set_map simp: insert_commute)

lemma keys_hm_remove [hashmap_simps]: "set (map fst (hm_remove k m)) = set (map fst m) - {k}"
  by (auto simp: hm_remove_def image_iff)

lemma hm_wf_Nil [simp]: "hm_wf []"
  by (simp add: hm_wf_def)

lemma hm_wf_insert [simp]: "hm_wf m \<Longrightarrow> hm_wf (hm_insert k v m)"
proof (induction m)
  case (Cons p m)
  then show ?case
    using keys_hm_insert [of k v m] by (cases p) (auto simp: hm_wf_def)
qed (simp add: hm_wf_def)

lemma hm_wf_remove [simp]: "hm_wf m \<Longrightarrow> hm_wf (hm_remove k m)"
  unfolding hm_wf_def hm_remove_def by (rule distinct_map_filter)

lemma hm_insert_fresh: "k \<notin> set (map fst m) \<Longrightarrow> hm_insert k v m = m @ [(k, v)]"
  by (induction m) auto

lemma hm_remove_absent: "k \<notin> set (map fst m) \<Longrightarrow> hm_remove k m = m"
  unfolding hm_remove_def by (rule filter_True) (auto simp: image_iff)

lemma in_hm_remove [simp]: "p \<in> set (hm_remove k m) \<longleftrightarrow> p \<in> set m \<and> fst p \<noteq> k"
  by (auto simp: hm_remove_def)

lemma distinct_map_hm_remove: "distinct (map f m) \<Longrightarrow> distinct (map f (hm_remove k m))"
  unfolding hm_remove_def by (rule distinct_map_filter)

lemma hm_wf_lookup: "hm_wf m \<Longrightarrow> map_of m k = Some v \<longleftrightarrow> (k, v) \<in> set m"
  by (simp add: hm_wf_def)

lemma hm_remove_Cons: "hm_remove k ((k', v) # m) = (if k' = k then hm_remove k m else (k', v) # hm_remove k m)"
  by (simp add: hm_remove_def)

lemma mset_hm_insert: "hm_wf m \<Longrightarrow> mset (hm_insert k v m) = add_mset (k, v) (mset (hm_remove k m))"
proof (induction m)
  case (Cons p m)
  then show ?case
    using hm_remove_absent [of k m] by (cases p) (auto simp: hm_wf_def hm_remove_Cons)
qed (simp add: hm_remove_def)

lemma mset_hm_split:
  assumes "hm_wf m" and "map_of m k = Some v"
  shows "mset m = add_mset (k, v) (mset (hm_remove k m))"
  using assms
proof (induction m)
  case (Cons p m)
  then show ?case
    using hm_remove_absent [of k m] by (cases p) (auto simp: hm_wf_def hm_remove_Cons split: if_splits)
qed simp

lemma hm_remove_None: "map_of m k = None \<Longrightarrow> hm_remove k m = m"
  by (rule hm_remove_absent) (simp add: map_of_eq_None_iff)

text \<open>\<^verbatim>\<open>iter().collect()\<close> into a \<^verbatim>\<open>HashMap\<close>: the last entry of a repeated key wins.\<close>

definition collect_last :: "('k \<times> 'v) list \<Rightarrow> 'k \<Rightarrow> 'v option" where
  "collect_last es = foldl (\<lambda>m (k, v). m(k \<mapsto> v)) Map.empty es"

lemma collect_last_eq_map_of_rev: "collect_last es = map_of (rev es)"
proof -
  have "foldl (\<lambda>m (k, v). m(k \<mapsto> v)) m0 es = m0 ++ map_of (rev es)" for m0 :: "'a \<Rightarrow> 'b option"
    by (induction es arbitrary: m0) (auto simp: map_add_def fun_eq_iff split: option.splits)
  then show ?thesis
    by (simp add: collect_last_def)
qed

lemma collect_last_snoc: "collect_last (es @ [(k, v)]) = (collect_last es)(k \<mapsto> v)"
  by (simp add: collect_last_def)

section \<open>Lists\<close>

lemma map_filter_eq_map:
  "(\<And>x. x \<in> set xs \<Longrightarrow> f x = Some (g x)) \<Longrightarrow> List.map_filter f xs = map g xs"
  by (induction xs) (simp_all add: List.map_filter_simps)

lemma set_map_filter: "set (List.map_filter f xs) = {y. \<exists>x \<in> set xs. f x = Some y}"
  by (induction xs) (auto simp: List.map_filter_simps split: option.splits)

lemma mset_map_filter: "mset (List.map_filter f xs) = image_mset (the \<circ> f) {#x \<in># mset xs. f x \<noteq> None#}"
  by (induction xs) (auto simp: List.map_filter_simps split: option.splits)

lemma mset_eq_mset_set_iff: "finite A \<Longrightarrow> mset xs = mset_set A \<longleftrightarrow> distinct xs \<and> set xs = A"
  by (metis finite_set_mset_mset_set mset_set_set set_mset_mset distinct_count_atmost_1 count_mset_set
      mset_eq_imp_distinct_iff)

lemma distinct_submset:
  assumes "mset xs \<subseteq># mset ys" and "distinct ys"
  shows "distinct xs"
  using assms
proof (induction xs arbitrary: ys)
  case (Cons x xs)
  from Cons.prems have sub: "mset xs \<subseteq># mset (remove1 x ys)" by (simp add: insert_subset_eq_iff)
  have "distinct (remove1 x ys)" using Cons.prems(2) by simp
  with sub have "distinct xs" by (rule Cons.IH)
  moreover have "set xs \<subseteq> set (remove1 x ys)" using set_mset_mono [OF sub] by (simp only: set_mset_mset)
  then have "x \<notin> set xs" using Cons.prems(2) by auto
  ultimately show ?case by simp
qed simp

lemma filter_eq_single: "distinct zs \<Longrightarrow> k \<in> set zs \<Longrightarrow> filter (\<lambda>x. x = k) zs = [k]"
  by (induction zs) (auto simp: filter_empty_conv)

lemma sort_key_perm_eq:
  assumes "distinct (map f xs)" and "mset xs = mset ys"
  shows "sort_key f xs = sort_key f ys"
proof (rule properties_for_sort_key)
  show "mset (sort_key f ys) = mset xs" using assms(2) by simp
  have "set xs = set ys" using assms(2) by (rule mset_eq_setD)
  then have inj: "inj_on f (set ys)" and d: "distinct ys"
    using assms by (auto simp: distinct_map dest: mset_eq_imp_distinct_iff)
  show "filter (\<lambda>x. f k = f x) (sort_key f ys) = filter (\<lambda>x. f k = f x) xs" if "k \<in> set (sort_key f ys)" for k
  proof -
    have k: "k \<in> set ys" using that by simp
    have "filter (\<lambda>x. f k = f x) zs = [k]" if "set zs = set ys" "distinct zs" for zs
    proof -
      have "filter (\<lambda>x. f k = f x) zs = filter (\<lambda>x. x = k) zs"
        by (rule filter_cong) (use inj k that in \<open>auto dest: inj_onD\<close>)
      also have "\<dots> = [k]"
        using that k by (simp add: filter_eq_single)
      finally show ?thesis .
    qed
    then show ?thesis
      using d assms(1) \<open>set xs = set ys\<close> by (simp add: distinct_map)
  qed
qed simp

end
