(* ===== verification/Errors.thy ===== *)
theory Errors
  imports Quorums_Prelude
begin

text \<open>
  \<^verbatim>\<open>src/error.rs\<close>: the error values of the runtime, their conversions and their \<^verbatim>\<open>Display\<close> text.
  \<^verbatim>\<open>tonic::Status\<close> is a foreign type; the crate only builds one from a code and a message and reads
  the two back, so it is the pair of both. Its own \<^verbatim>\<open>Display\<close> is a parameter.
\<close>

datatype tonic_status = TonicStatus (code: nat) (msg_text: string)

text \<open>The two constructors the crate calls: gRPC numbers \<^verbatim>\<open>Internal\<close> 13 and \<^verbatim>\<open>Unavailable\<close> 14.\<close>

definition status_internal :: "string \<Rightarrow> tonic_status" where
  "status_internal m = TonicStatus 13 m"

definition status_unavailable :: "string \<Rightarrow> tonic_status" where
  "status_unavailable m = TonicStatus 14 m"

record node_error =
  ne_node_id :: u32
  ne_cause :: tonic_status

datatype quorum_call_cause = Incomplete | SendFailure

record quorum_call_error =
  qce_cause :: quorum_call_cause
  qce_node_errors :: "node_error list"

datatype error =
    QuorumCall quorum_call_error
  | NodeClosed
  | StreamDown
  | Codec string
  | Cancelled
  | Transport tonic_status

definition fmt_node_error :: "(tonic_status \<Rightarrow> string) \<Rightarrow> node_error \<Rightarrow> string" where
  "fmt_node_error show_status e =
     ''node '' @ show_u32 (ne_node_id e) @ '': '' @ show_status (ne_cause e)"

definition fmt_quorum_call_error :: "quorum_call_error \<Rightarrow> string" where
  "fmt_quorum_call_error e =
     (let cause = (case qce_cause e of Incomplete \<Rightarrow> ''incomplete'' | SendFailure \<Rightarrow> ''send failure'')
      in ''quorum call error: '' @ cause @ '' ('' @ show_nat (length (qce_node_errors e)) @ '' node errors)'')"

fun fmt_error :: "(tonic_status \<Rightarrow> string) \<Rightarrow> error \<Rightarrow> string" where
  "fmt_error show_status (QuorumCall e) = fmt_quorum_call_error e"
| "fmt_error show_status NodeClosed = ''node closed''"
| "fmt_error show_status StreamDown = ''stream down''"
| "fmt_error show_status (Codec e) = ''codec error: '' @ e"
| "fmt_error show_status Cancelled = ''cancelled''"
| "fmt_error show_status (Transport s) = ''transport error: '' @ show_status s"

text \<open>
  The conversions \<^verbatim>\<open>?\<close> inserts; the text of a \<^verbatim>\<open>prost::DecodeError\<close> is a string here.
\<close>

definition error_from_decode :: "string \<Rightarrow> error" where
  "error_from_decode e = Codec e"

definition error_from_status :: "tonic_status \<Rightarrow> error" where
  "error_from_status s = Transport s"

definition error_from_quorum_call :: "quorum_call_error \<Rightarrow> error" where
  "error_from_quorum_call e = QuorumCall e"

text \<open>The error every terminal method ends with when its channel closes too early.\<close>

abbreviation incomplete :: "node_error list \<Rightarrow> error" where
  "incomplete es \<equiv> QuorumCall \<lparr>qce_cause = Incomplete, qce_node_errors = es\<rparr>"

end
