(* ===== verification/Interceptors.thy ===== *)
theory Interceptors
  imports Errors
begin

text \<open>
  \<^verbatim>\<open>src/interceptor.rs\<close>: call descriptions and the two interceptor chains. An interceptor is an
  async closure; it may read and write whatever state it captured, so it is a function of the call
  description and that state, \<open>'s\<close>, returning its verdict and the new state.
\<close>

record call_info =
  ci_method :: string
  ci_node_ids :: "u32 list"
  ci_metadata :: "(string \<times> string) list"

record server_call_info =
  sci_method :: string
  sci_peer_addr :: "string option"

type_synonym ('i, 'e, 's) verdict_fn = "'i \<Rightarrow> 's \<Rightarrow> ('e + unit) \<times> 's"
type_synonym 's interceptor = "(call_info, error, 's) verdict_fn"
type_synonym 's server_interceptor = "(server_call_info, tonic_status, 's) verdict_fn"

fun run :: "'s interceptor list \<Rightarrow> call_info \<Rightarrow> 's \<Rightarrow> (error + unit) \<times> 's" where
  "run [] info s = (Inr (), s)"
| "run (i # chain) info s =
     (case i info s of (Inl e, s') \<Rightarrow> (Inl e, s') | (Inr _, s') \<Rightarrow> run chain info s')"

fun run_server :: "'s server_interceptor list \<Rightarrow> server_call_info \<Rightarrow> 's \<Rightarrow> (tonic_status + unit) \<times> 's" where
  "run_server [] info s = (Inr (), s)"
| "run_server (i # chain) info s =
     (case i info s of (Inl e, s') \<Rightarrow> (Inl e, s') | (Inr _, s') \<Rightarrow> run_server chain info s')"

section \<open>The contract of a chain\<close>

text \<open>
  Both chains promise the same: interceptors run in registration order, each sees the same call
  description, and the first rejection ends the chain.
\<close>

locale interceptor_chain =
  fixes run_chain :: "('i, 'e, 's) verdict_fn list \<Rightarrow> 'i \<Rightarrow> 's \<Rightarrow> ('e + unit) \<times> 's"
  assumes chain_Nil: "run_chain [] info s = (Inr (), s)"
    and chain_reject: "i info s = (Inl e, s') \<Longrightarrow> run_chain (i # chain) info s = (Inl e, s')"
    and chain_pass: "i info s = (Inr (), s') \<Longrightarrow> run_chain (i # chain) info s = run_chain chain info s'"
begin

lemma chain_append:
  "run_chain (pre @ post) info s =
     (case run_chain pre info s of (Inl e, s') \<Rightarrow> (Inl e, s') | (Inr _, s') \<Rightarrow> run_chain post info s')"
proof (induction pre arbitrary: s)
  case Nil
  then show ?case by (simp add: chain_Nil)
next
  case (Cons i pre)
  obtain v s' where i: "i info s = (v, s')" by fastforce
  then show ?case
    by (cases v) (simp_all add: chain_reject chain_pass Cons.IH)
qed

lemma chain_first_error:
  "run_chain chain info s = (Inl e, s') \<longleftrightarrow>
     (\<exists>pre i post s1. chain = pre @ i # post \<and> run_chain pre info s = (Inr (), s1)
        \<and> i info s1 = (Inl e, s'))"
proof (induction chain arbitrary: s)
  case Nil
  then show ?case by (simp add: chain_Nil)
next
  case (Cons i chain)
  obtain v s2 where i: "i info s = (v, s2)" by fastforce
  show ?case (is "?L \<longleftrightarrow> ?R")
  proof (cases v)
    case (Inl e')
    show ?thesis
    proof
      assume ?L
      then show ?R
        using i Inl by (intro exI [of _ "[]"]) (auto simp: chain_reject chain_Nil)
    next
      assume ?R
      then show ?L
        using i Inl by (auto simp: Cons_eq_append_conv chain_Nil chain_reject)
    qed
  next
    case (Inr u)
    with i have pass: "run_chain (i # c) info s = run_chain c info s2" for c
      by (simp add: chain_pass)
    show ?thesis
    proof
      assume ?L
      with pass Cons.IH obtain pre j post s1 where
        "chain = pre @ j # post" "run_chain pre info s2 = (Inr (), s1)" "j info s1 = (Inl e, s')"
        by auto
      then show ?R
        by (intro exI [of _ "i # pre"]) (auto simp: pass)
    next
      assume ?R
      then show ?L
        using Inr i by (auto simp: Cons_eq_append_conv chain_Nil pass Cons.IH) blast
    qed
  qed
qed

end

interpretation client_chain: interceptor_chain run
  by unfold_locales auto

interpretation server_chain: interceptor_chain run_server
  by unfold_locales auto

end
