(* ===== verification/Node_Config.thy ===== *)
theory Node_Config
  imports Interceptors
begin

text \<open>
  \<^verbatim>\<open>src/node.rs\<close> and \<^verbatim>\<open>src/config.rs\<close>: node handles, per-call contexts, and configurations with
  their view constructors. A \<^verbatim>\<open>Node\<close> is an \<^verbatim>\<open>Arc\<close> to one \<^verbatim>\<open>NodeInner\<close>; \<open>nchan\<close> names that shared
  object (its channel, router and background task), so two handles are clones of each other when
  they agree on it. \<^verbatim>\<open>CancellationToken\<close> is a foreign type, \<open>'tok\<close>, and \<^verbatim>\<open>child_token\<close> a parameter.
\<close>

datatype node_status = Connecting | Connected | Reconnecting | Unreachable | Closed

record node =
  nid :: u32
  naddr :: string
  nchan :: nat

record configuration =
  cfg_nodes :: "node list"

definition new_configuration :: "node list \<Rightarrow> configuration" where
  "new_configuration ns = \<lparr>cfg_nodes = ns\<rparr>"

definition config_size :: "configuration \<Rightarrow> nat" where
  "config_size c = length (cfg_nodes c)"

definition node_ids :: "configuration \<Rightarrow> u32 list" where
  "node_ids c = map nid (cfg_nodes c)"

definition without_nodes :: "configuration \<Rightarrow> u32 list \<Rightarrow> configuration" where
  "without_nodes c ids =
     (let excluded = set ids in \<lparr>cfg_nodes = filter (\<lambda>n. nid n \<notin> excluded) (cfg_nodes c)\<rparr>)"

definition sub_config :: "configuration \<Rightarrow> u32 list \<Rightarrow> configuration" where
  "sub_config c ids =
     (let by_id = collect_last (map (\<lambda>n. (nid n, n)) (cfg_nodes c))
      in \<lparr>cfg_nodes = List.map_filter by_id ids\<rparr>)"

fun push_unseen :: "u32 set \<Rightarrow> node list \<Rightarrow> node list \<Rightarrow> node list" where
  "push_unseen seen ns [] = ns"
| "push_unseen seen ns (n # extra) =
     (if nid n \<notin> seen then push_unseen (insert (nid n) seen) (ns @ [n]) extra
      else push_unseen seen ns extra)"

definition with_additional_nodes :: "configuration \<Rightarrow> node list \<Rightarrow> configuration" where
  "with_additional_nodes c extra =
     \<lparr>cfg_nodes = push_unseen (set (map nid (cfg_nodes c))) (cfg_nodes c) extra\<rparr>"

definition merge_config :: "configuration \<Rightarrow> configuration \<Rightarrow> configuration" where
  "merge_config c other = with_additional_nodes c (cfg_nodes other)"

definition intersect :: "configuration \<Rightarrow> configuration \<Rightarrow> configuration" where
  "intersect c other =
     (let other_ids = set (map nid (cfg_nodes other))
      in \<lparr>cfg_nodes = filter (\<lambda>n. nid n \<in> other_ids) (cfg_nodes c)\<rparr>)"

definition except :: "configuration \<Rightarrow> configuration \<Rightarrow> configuration" where
  "except c other =
     (let other_ids = set (map nid (cfg_nodes other))
      in \<lparr>cfg_nodes = filter (\<lambda>n. nid n \<notin> other_ids) (cfg_nodes c)\<rparr>)"

section \<open>Per-call contexts\<close>

record ('tok, 'i) config_context =
  cc_config :: configuration
  cc_cancel :: 'tok
  cc_interceptors :: "'i list"
  cc_metadata :: "(string \<times> string) list"

record ('tok, 'i) node_context =
  nc_node :: node
  nc_cancel :: 'tok
  nc_interceptors :: "'i list"
  nc_metadata :: "(string \<times> string) list"

text \<open>The Debug text of a node.\<close>

definition fmt_node :: "node \<Rightarrow> string" where
  "fmt_node n = ''Node(id='' @ show_nat (unat (nid n)) @ '', addr='' @ naddr n @ '')''"

text \<open>\<^verbatim>\<open>context()\<close> is given the token \<^verbatim>\<open>CancellationToken::new()\<close> returns.\<close>

definition config_context :: "'tok \<Rightarrow> configuration \<Rightarrow> ('tok, 'i) config_context" where
  "config_context tok c = \<lparr>cc_config = c, cc_cancel = tok, cc_interceptors = [], cc_metadata = []\<rparr>"

definition node_context :: "'tok \<Rightarrow> node \<Rightarrow> ('tok, 'i) node_context" where
  "node_context tok n = \<lparr>nc_node = n, nc_cancel = tok, nc_interceptors = [], nc_metadata = []\<rparr>"

definition cc_with_cancel :: "'tok \<Rightarrow> ('tok, 'i) config_context \<Rightarrow> ('tok, 'i) config_context" where
  "cc_with_cancel tok ctx = ctx\<lparr>cc_cancel := tok\<rparr>"

definition nc_with_cancel :: "'tok \<Rightarrow> ('tok, 'i) node_context \<Rightarrow> ('tok, 'i) node_context" where
  "nc_with_cancel tok ctx = ctx\<lparr>nc_cancel := tok\<rparr>"

text \<open>
  \<^verbatim>\<open>with_timeout\<close> also spawns a timer task; the second component is that task: the token to cancel
  and after how long.
\<close>

definition cc_with_timeout ::
  "('tok \<Rightarrow> 'tok) \<Rightarrow> 'dur \<Rightarrow> ('tok, 'i) config_context \<Rightarrow> ('tok, 'i) config_context \<times> ('dur \<times> 'tok)" where
  "cc_with_timeout child_token duration ctx =
     (let child = child_token (cc_cancel ctx)
      in (\<lparr>cc_config = cc_config ctx, cc_cancel = child, cc_interceptors = cc_interceptors ctx,
           cc_metadata = cc_metadata ctx\<rparr>, (duration, child)))"

definition nc_with_timeout ::
  "('tok \<Rightarrow> 'tok) \<Rightarrow> 'dur \<Rightarrow> ('tok, 'i) node_context \<Rightarrow> ('tok, 'i) node_context \<times> ('dur \<times> 'tok)" where
  "nc_with_timeout child_token duration ctx =
     (let child = child_token (nc_cancel ctx)
      in (\<lparr>nc_node = nc_node ctx, nc_cancel = child, nc_interceptors = nc_interceptors ctx,
           nc_metadata = nc_metadata ctx\<rparr>, (duration, child)))"

definition cc_with_interceptor :: "'i \<Rightarrow> ('tok, 'i) config_context \<Rightarrow> ('tok, 'i) config_context" where
  "cc_with_interceptor i ctx = ctx\<lparr>cc_interceptors := cc_interceptors ctx @ [i]\<rparr>"

definition nc_with_interceptor :: "'i \<Rightarrow> ('tok, 'i) node_context \<Rightarrow> ('tok, 'i) node_context" where
  "nc_with_interceptor i ctx = ctx\<lparr>nc_interceptors := nc_interceptors ctx @ [i]\<rparr>"

definition cc_with_metadata :: "string \<Rightarrow> string \<Rightarrow> ('tok, 'i) config_context \<Rightarrow> ('tok, 'i) config_context" where
  "cc_with_metadata k v ctx = ctx\<lparr>cc_metadata := cc_metadata ctx @ [(k, v)]\<rparr>"

definition nc_with_metadata :: "string \<Rightarrow> string \<Rightarrow> ('tok, 'i) node_context \<Rightarrow> ('tok, 'i) node_context" where
  "nc_with_metadata k v ctx = ctx\<lparr>nc_metadata := nc_metadata ctx @ [(k, v)]\<rparr>"

section \<open>Configurations as finite maps\<close>

text \<open>
  What a configuration promises its clients: a finite map from node IDs to handles, listed without
  repetition. On a repeated ID the first handle is the one of the map, so the map alone says nothing
  about repetitions: a configuration stands for its map only together with \<open>distinct_ids\<close>.
\<close>

definition config_map :: "configuration \<Rightarrow> u32 \<Rightarrow> node option" where
  "config_map c = map_of (map (\<lambda>n. (nid n, n)) (cfg_nodes c))"

definition distinct_ids :: "configuration \<Rightarrow> bool" where
  "distinct_ids c \<longleftrightarrow> distinct (node_ids c)"

lemma map_of_by_id_filter:
  "map_of (map (\<lambda>n. (nid n, n)) (filter (\<lambda>n. P (nid n)) ns)) =
     map_of (map (\<lambda>n. (nid n, n)) ns) |` {i. P i}"
  by (induction ns) (auto simp: restrict_map_def fun_eq_iff)

lemma map_of_by_id_None [simp]:
  "map_of (map (\<lambda>n. (nid n, n)) ns) i = None \<longleftrightarrow> i \<notin> nid ` set ns"
  by (auto simp: map_of_eq_None_iff image_iff)

lemma dom_config_map: "dom (config_map c) = set (node_ids c)"
  by (auto simp: config_map_def node_ids_def dom_map_of_conv_image_fst image_image)

lemma config_map_SomeD: "config_map c i = Some n \<Longrightarrow> n \<in> set (cfg_nodes c) \<and> nid n = i"
  by (auto simp: config_map_def dest: map_of_SomeD)

subsection \<open>Views that filter\<close>

locale filter_view =
  fixes view :: "configuration \<Rightarrow> configuration"
    and keep :: "u32 \<Rightarrow> bool"
  assumes view_filter: "cfg_nodes (view c) = filter (\<lambda>n. keep (nid n)) (cfg_nodes c)"
begin

lemma view_map: "config_map (view c) = config_map c |` {i. keep i}"
  by (simp add: config_map_def view_filter map_of_by_id_filter)

lemma view_ids: "node_ids (view c) = filter keep (node_ids c)"
  by (simp add: node_ids_def view_filter filter_map comp_def)

lemma view_distinct: "distinct_ids c \<Longrightarrow> distinct_ids (view c)"
  by (simp add: distinct_ids_def view_ids)

lemma view_handles: "set (cfg_nodes (view c)) \<subseteq> set (cfg_nodes c)"
  by (auto simp: view_filter)

end

interpretation without_view: filter_view "\<lambda>c. without_nodes c ids" "\<lambda>i. i \<notin> set ids" for ids
  by unfold_locales (simp add: without_nodes_def)

interpretation intersect_view: filter_view "\<lambda>c. intersect c other" "\<lambda>i. i \<in> set (node_ids other)" for other
  by unfold_locales (simp add: intersect_def node_ids_def)

interpretation except_view: filter_view "\<lambda>c. except c other" "\<lambda>i. i \<notin> set (node_ids other)" for other
  by unfold_locales (simp add: except_def node_ids_def)

subsection \<open>Extension and selection\<close>

lemma push_unseen_spec:
  assumes "seen = nid ` set ns"
  shows "\<exists>new. push_unseen seen ns extra = ns @ new \<and> set new \<subseteq> set extra
     \<and> distinct (map nid new) \<and> nid ` set new = nid ` set extra - seen
     \<and> map_of (map (\<lambda>n. (nid n, n)) new) = map_of (map (\<lambda>n. (nid n, n)) extra) |` (- seen)"
  using assms
proof (induction extra arbitrary: seen ns)
  case Nil
  then show ?case by simp
next
  case (Cons n extra)
  show ?case
  proof (cases "nid n \<in> seen")
    case True
    with Cons.IH [OF Cons.prems] show ?thesis
      by (auto simp: restrict_map_def fun_eq_iff)
  next
    case False
    have "insert (nid n) seen = nid ` set (ns @ [n])"
      using Cons.prems by simp
    from Cons.IH [OF this] obtain new where new:
      "push_unseen (insert (nid n) seen) (ns @ [n]) extra = (ns @ [n]) @ new" "set new \<subseteq> set extra"
      "distinct (map nid new)" "nid ` set new = nid ` set extra - insert (nid n) seen"
      "map_of (map (\<lambda>n. (nid n, n)) new) =
         map_of (map (\<lambda>n. (nid n, n)) extra) |` (- insert (nid n) seen)"
      by blast
    then show ?thesis
      using False by (intro exI [of _ "n # new"]) (auto simp: restrict_map_def fun_eq_iff)
  qed
qed

lemma with_additional_nodes_spec:
  obtains new where "cfg_nodes (with_additional_nodes c extra) = cfg_nodes c @ new"
    and "set new \<subseteq> set extra" and "distinct (map nid new)"
    and "nid ` set new = nid ` set extra - set (node_ids c)"
    and "map_of (map (\<lambda>n. (nid n, n)) new) = map_of (map (\<lambda>n. (nid n, n)) extra) |` (- set (node_ids c))"
  using push_unseen_spec [of "set (node_ids c)" "cfg_nodes c" extra]
  by (auto simp: with_additional_nodes_def node_ids_def)

lemma with_additional_nodes_map:
  "config_map (with_additional_nodes c extra) = map_of (map (\<lambda>n. (nid n, n)) extra) ++ config_map c"
proof -
  obtain new where new: "cfg_nodes (with_additional_nodes c extra) = cfg_nodes c @ new"
    and m: "map_of (map (\<lambda>n. (nid n, n)) new) = map_of (map (\<lambda>n. (nid n, n)) extra) |` (- set (node_ids c))"
    by (rule with_additional_nodes_spec)
  have "config_map (with_additional_nodes c extra) =
      map_of (map (\<lambda>n. (nid n, n)) new) ++ config_map c"
    by (simp add: config_map_def new)
  also have "\<dots> = map_of (map (\<lambda>n. (nid n, n)) extra) ++ config_map c"
    unfolding m by (rule ext)
      (auto simp: map_add_def restrict_map_def dom_config_map [symmetric] split: option.splits)
  finally show ?thesis .
qed

lemma with_additional_nodes_distinct:
  "distinct_ids c \<Longrightarrow> distinct_ids (with_additional_nodes c extra)"
  by (rule with_additional_nodes_spec [of c extra])
    (auto simp: distinct_ids_def node_ids_def)

lemma merge_config_map: "config_map (merge_config c other) = config_map other ++ config_map c"
  by (simp add: merge_config_def with_additional_nodes_map) (simp add: config_map_def)

lemma by_id_last_eq_config_map:
  assumes "distinct_ids c"
  shows "collect_last (map (\<lambda>n. (nid n, n)) (cfg_nodes c)) = config_map c"
proof -
  have "distinct (map fst (map (\<lambda>n. (nid n, n)) (cfg_nodes c)))"
    using assms by (simp add: distinct_ids_def node_ids_def comp_def)
  then have "map_of (rev (map (\<lambda>n. (nid n, n)) (cfg_nodes c))) = map_of (map (\<lambda>n. (nid n, n)) (cfg_nodes c))"
    by (subst map_of_inject_set) (simp_all add: rev_map [symmetric])
  then show ?thesis
    by (simp add: collect_last_eq_map_of_rev config_map_def)
qed

lemma sub_config_nodes:
  assumes "distinct_ids c"
  shows "cfg_nodes (sub_config c ids) = List.map_filter (config_map c) ids"
  by (simp add: sub_config_def by_id_last_eq_config_map [OF assms])

lemma map_of_by_id_map_filter:
  assumes "\<And>i n. m i = Some n \<Longrightarrow> nid n = i"
  shows "map_of (map (\<lambda>n. (nid n, n)) (List.map_filter m ids)) = m |` set ids"
  by (induction ids)
    (auto simp: List.map_filter_simps restrict_map_def fun_eq_iff assms
        simp del: map_of_by_id_None split: option.splits)

lemma sub_config_map:
  assumes "distinct_ids c"
  shows "config_map (sub_config c ids) = config_map c |` set ids"
  unfolding config_map_def [of "sub_config c ids"] sub_config_nodes [OF assms]
  by (rule map_of_by_id_map_filter) (simp add: config_map_SomeD)

lemma sub_config_ids:
  assumes "distinct_ids c"
  shows "node_ids (sub_config c ids) = filter (\<lambda>i. i \<in> set (node_ids c)) ids"
proof -
  have "map nid (List.map_filter (config_map c) ids) = filter (\<lambda>i. i \<in> dom (config_map c)) ids"
    by (induction ids) (auto simp: List.map_filter_simps dest: config_map_SomeD split: option.splits)
  then show ?thesis
    by (simp add: node_ids_def [of "sub_config c ids"] sub_config_nodes [OF assms] dom_config_map)
qed

text \<open>With distinct IDs on the other side, exactly the nodes with a new ID are appended, in order.\<close>

lemma push_unseen_filter:
  assumes "distinct (map nid extra)"
  shows "push_unseen seen ns extra = ns @ filter (\<lambda>n. nid n \<notin> seen) extra"
  using assms
proof (induction extra arbitrary: seen ns)
  case (Cons n extra)
  have "filter (\<lambda>m. nid m \<notin> insert (nid n) seen) extra = filter (\<lambda>m. nid m \<notin> seen) extra"
    using Cons.prems by (intro filter_cong) (auto simp: image_iff)
  with Cons show ?case by auto
qed simp

lemma config_size_ids: "config_size c = length (node_ids c)"
  by (simp add: config_size_def node_ids_def)

section \<open>Properties\<close>



end
