(* ===== verification/Node_Manager.thy ===== *)
theory Node_Manager
  imports Node_Config
begin

text \<open>
  \<^verbatim>\<open>src/manager.rs\<close>: the connection pool. The pool is a \<^verbatim>\<open>HashMap\<close> from IDs to handles. What the
  operations do outside the struct (allocate a \<^verbatim>\<open>NodeInner\<close>, spawn watcher tasks) is recorded in a
  \<open>runtime\<close>: the number of node objects created so far and the watcher tasks spawned, each the
  node ID it reports, the node object it watches and its callback. \<^verbatim>\<open>SocketAddr\<close> parsing and
  printing is the argument \<open>sock\<close>: \<open>Some\<close> of the printed form when the text parses. No theorem
  assumes anything of it.
\<close>

record 'cb manager =
  mgr_nodes :: "(u32 \<times> node) list"
  next_id :: u32
  status_callbacks :: "'cb list"

record 'cb runtime =
  rt_watchers :: "(u32 \<times> nat \<times> 'cb) list"
  rt_chans :: nat

type_synonym 'cb mstate = "'cb manager \<times> 'cb runtime"

definition manager_new :: "'cb manager" where
  "manager_new = \<lparr>mgr_nodes = [], next_id = 1, status_callbacks = []\<rparr>"

definition runtime_new :: "'cb runtime" where
  "runtime_new = \<lparr>rt_watchers = [], rt_chans = 0\<rparr>"

definition node_new :: "u32 \<Rightarrow> string \<Rightarrow> 'cb runtime \<Rightarrow> node \<times> 'cb runtime" where
  "node_new ident addr rt =
     (\<lparr>nid = ident, naddr = addr, nchan = rt_chans rt\<rparr>, rt\<lparr>rt_chans := Suc (rt_chans rt)\<rparr>)"

definition spawn_watcher :: "u32 \<Rightarrow> nat \<Rightarrow> 'cb \<Rightarrow> 'cb runtime \<Rightarrow> 'cb runtime" where
  "spawn_watcher ident chan cb rt = rt\<lparr>rt_watchers := rt_watchers rt @ [(ident, chan, cb)]\<rparr>"

text \<open>
  The body of a watcher task over the outcomes of \<^verbatim>\<open>rx.changed()\<close>: \<open>Some s\<close> when the watch holds the
  new status \<open>s\<close>, \<open>None\<close> when the channel has closed. The result is the list of callback calls.
\<close>

fun watcher_task :: "u32 \<Rightarrow> node_status option list \<Rightarrow> (u32 \<times> node_status) list" where
  "watcher_task ident [] = []"
| "watcher_task ident (None # evs) = []"
| "watcher_task ident (Some st # evs) = (ident, st) # watcher_task ident evs"

definition normalize_addr :: "(string \<Rightarrow> string option) \<Rightarrow> string \<Rightarrow> string + string" where
  "normalize_addr sock addr =
     (case sock addr of Some a \<Rightarrow> Inr a | None \<Rightarrow> Inl (''invalid address: '' @ addr))"

definition add_node ::
  "(string \<Rightarrow> string option) \<Rightarrow> u32 \<Rightarrow> string \<Rightarrow> 'cb mstate \<Rightarrow> (string + unit) option \<times> 'cb mstate" where
  "add_node sock ident addr s = (case s of (m, rt) \<Rightarrow>
     if ident = 0 then (Some (Inl ''node ID 0 is reserved''), s)
     else case normalize_addr sock addr of
       Inl e \<Rightarrow> (Some (Inl e), s)
     | Inr norm \<Rightarrow>
        if map_of (mgr_nodes m) ident \<noteq> None
        then (Some (Inl (''node ID '' @ show_u32 ident @ '' already in use'')), s)
        else if \<exists>n \<in> snd ` set (mgr_nodes m). naddr n = norm
        then (Some (Inl (''address '' @ norm @ '' already in use'')), s)
        else (let (node, rt1) = node_new ident norm rt;
                  rt2 = fold (\<lambda>cb. spawn_watcher ident (nchan node) cb) (status_callbacks m) rt1;
                  m1 = m\<lparr>mgr_nodes := hm_insert ident node (mgr_nodes m)\<rparr>
              in if next_id m \<le> ident
                 then (case checked_inc ident of
                         None \<Rightarrow> (None, (m1, rt2))
                       | Some j \<Rightarrow> (Some (Inr ()), (m1\<lparr>next_id := j\<rparr>, rt2)))
                 else (Some (Inr ()), (m1, rt2))))"

text \<open>The loop \<^verbatim>\<open>add_node_list\<close> and \<^verbatim>\<open>with_new_nodes\<close> share; \<open>ns\<close> is the vector built so far.\<close>

fun add_addrs ::
  "(string \<Rightarrow> string option) \<Rightarrow> string list \<Rightarrow> node list \<Rightarrow> 'cb mstate \<Rightarrow> (string + node list) option \<times> 'cb mstate" where
  "add_addrs sock [] ns s = (Some (Inr ns), s)"
| "add_addrs sock (addr # addrs) ns s =
     (let ident = next_id (fst s)
      in case add_node sock ident addr s of
           (None, s') \<Rightarrow> (None, s')
         | (Some (Inl e), s') \<Rightarrow> (Some (Inl e), s')
         | (Some (Inr _), s') \<Rightarrow>
             (case map_of (mgr_nodes (fst s')) ident of
                None \<Rightarrow> (None, s')
              | Some n \<Rightarrow> add_addrs sock addrs (ns @ [n]) s'))"

definition add_node_list ::
  "(string \<Rightarrow> string option) \<Rightarrow> string list \<Rightarrow> 'cb mstate \<Rightarrow> (string + configuration) option \<times> 'cb mstate" where
  "add_node_list sock addrs s =
     (case add_addrs sock addrs [] s of
        (None, s') \<Rightarrow> (None, s')
      | (Some (Inl e), s') \<Rightarrow> (Some (Inl e), s')
      | (Some (Inr ns), s') \<Rightarrow> (Some (Inr (new_configuration ns)), s'))"

definition with_new_nodes ::
  "(string \<Rightarrow> string option) \<Rightarrow> configuration \<Rightarrow> string list \<Rightarrow> 'cb mstate \<Rightarrow> (string + configuration) option \<times> 'cb mstate" where
  "with_new_nodes sock base addrs s =
     (case add_addrs sock addrs [] s of
        (None, s') \<Rightarrow> (None, s')
      | (Some (Inl e), s') \<Rightarrow> (Some (Inl e), s')
      | (Some (Inr ns), s') \<Rightarrow> (Some (Inr (with_additional_nodes base ns)), s'))"

fun lookup_nodes :: "'cb manager \<Rightarrow> u32 list \<Rightarrow> node list \<Rightarrow> string + node list" where
  "lookup_nodes m [] ns = Inr ns"
| "lookup_nodes m (ident # ids) ns =
     (case map_of (mgr_nodes m) ident of
        None \<Rightarrow> Inl (''node ID '' @ show_u32 ident @ '' not found'')
      | Some n \<Rightarrow> lookup_nodes m ids (ns @ [n]))"

definition configuration_of :: "'cb manager \<Rightarrow> u32 list \<Rightarrow> string + configuration" where
  "configuration_of m ids =
     (case lookup_nodes m ids [] of Inl e \<Rightarrow> Inl e | Inr ns \<Rightarrow> Inr (new_configuration ns))"

definition all_nodes :: "'cb manager \<Rightarrow> configuration" where
  "all_nodes m = new_configuration (sort_key nid (map snd (mgr_nodes m)))"

definition remove_node :: "u32 \<Rightarrow> 'cb mstate \<Rightarrow> bool \<times> 'cb mstate" where
  "remove_node ident s = (case s of (m, rt) \<Rightarrow>
     (map_of (mgr_nodes m) ident \<noteq> None, (m\<lparr>mgr_nodes := hm_remove ident (mgr_nodes m)\<rparr>, rt)))"

definition on_status_change :: "'cb \<Rightarrow> 'cb mstate \<Rightarrow> 'cb mstate" where
  "on_status_change cb s = (case s of (m, rt) \<Rightarrow>
     (m\<lparr>status_callbacks := status_callbacks m @ [cb]\<rparr>,
      fold (\<lambda>(ident, n). spawn_watcher ident (nchan n) cb) (mgr_nodes m) rt))"

definition node_of :: "'cb manager \<Rightarrow> u32 \<Rightarrow> node option" where
  "node_of m ident = map_of (mgr_nodes m) ident"

section \<open>The invariant of the pool\<close>

definition watches :: "'cb runtime \<Rightarrow> nat \<Rightarrow> (u32 \<times> 'cb) list" where
  "watches rt chan = map (\<lambda>(i, c, cb). (i, cb)) (filter (\<lambda>(i, c, cb). c = chan) (rt_watchers rt))"

definition mgr_inv :: "'cb mstate \<Rightarrow> bool" where
  "mgr_inv s = (case s of (m, rt) \<Rightarrow>
     hm_wf (mgr_nodes m)
     \<and> distinct (map (naddr \<circ> snd) (mgr_nodes m))
     \<and> distinct (map (nchan \<circ> snd) (mgr_nodes m))
     \<and> next_id m \<noteq> 0
     \<and> (\<forall>(k, n) \<in> set (mgr_nodes m). nid n = k \<and> k \<noteq> 0 \<and> k < next_id m \<and> nchan n < rt_chans rt
          \<and> watches rt (nchan n) = map (Pair k) (status_callbacks m))
     \<and> (\<forall>(i, c, cb) \<in> set (rt_watchers rt). c < rt_chans rt))"

lemma fold_spawn_watcher:
  "fold (\<lambda>cb. spawn_watcher ident chan cb) cbs rt =
     rt\<lparr>rt_watchers := rt_watchers rt @ map (\<lambda>cb. (ident, chan, cb)) cbs\<rparr>"
  by (induction cbs arbitrary: rt) (simp_all add: spawn_watcher_def)

lemma fold_spawn_watcher_pool:
  "fold (\<lambda>(ident, n). spawn_watcher ident (nchan n) cb) ps rt =
     rt\<lparr>rt_watchers := rt_watchers rt @ map (\<lambda>(ident, n). (ident, nchan n, cb)) ps\<rparr>"
  by (induction ps arbitrary: rt) (auto simp: spawn_watcher_def)

lemma watches_append:
  "watches (rt\<lparr>rt_watchers := rt_watchers rt @ ws\<rparr>) chan = watches rt chan @ watches \<lparr>rt_watchers = ws, rt_chans = 0\<rparr> chan"
  by (simp add: watches_def)

lemma watches_chans [simp]: "watches (rt\<lparr>rt_chans := n\<rparr>) chan = watches rt chan"
  by (simp add: watches_def)

lemma watches_fresh: "(\<And>i c cb. (i, c, cb) \<in> set (rt_watchers rt) \<Longrightarrow> c \<noteq> chan) \<Longrightarrow> watches rt chan = []"
  by (auto simp: watches_def filter_empty_conv)

text \<open>The state a successful \<^verbatim>\<open>add_node\<close> leaves, before the update of \<^verbatim>\<open>next_id\<close>.\<close>

definition added :: "u32 \<Rightarrow> string \<Rightarrow> 'cb mstate \<Rightarrow> node" where
  "added ident norm s = \<lparr>nid = ident, naddr = norm, nchan = rt_chans (snd s)\<rparr>"

definition after_add :: "u32 \<Rightarrow> string \<Rightarrow> 'cb mstate \<Rightarrow> 'cb mstate" where
  "after_add ident norm s =
     ((fst s)\<lparr>mgr_nodes := mgr_nodes (fst s) @ [(ident, added ident norm s)]\<rparr>,
      (snd s)\<lparr>rt_chans := Suc (rt_chans (snd s)),
         rt_watchers := rt_watchers (snd s)
           @ map (\<lambda>cb. (ident, rt_chans (snd s), cb)) (status_callbacks (fst s))\<rparr>)"

definition admissible :: "(string \<Rightarrow> string option) \<Rightarrow> u32 \<Rightarrow> string \<Rightarrow> string \<Rightarrow> 'cb mstate \<Rightarrow> bool" where
  "admissible sock ident addr norm s \<longleftrightarrow> ident \<noteq> 0 \<and> sock addr = Some norm
     \<and> ident \<notin> fst ` set (mgr_nodes (fst s)) \<and> norm \<notin> naddr ` snd ` set (mgr_nodes (fst s))"

definition addable :: "(string \<Rightarrow> string option) \<Rightarrow> u32 \<Rightarrow> string \<Rightarrow> 'cb mstate \<Rightarrow> bool" where
  "addable sock ident addr s \<longleftrightarrow> ident \<noteq> 0 \<and> node_of (fst s) ident = None
     \<and> (case sock addr of None \<Rightarrow> False
        | Some norm \<Rightarrow> norm \<notin> naddr ` snd ` set (mgr_nodes (fst s)))"

lemma addable_iff: "addable sock ident addr s \<longleftrightarrow> (\<exists>norm. admissible sock ident addr norm s)"
  by (auto simp: addable_def admissible_def node_of_def map_of_eq_None_iff split: option.splits)

lemma add_node_admissible:
  assumes "admissible sock ident addr norm s"
  shows "add_node sock ident addr s =
    (let s1 = after_add ident norm s
     in if next_id (fst s) \<le> ident
        then (if ident = - 1 then (None, s1) else (Some (Inr ()), ((fst s1)\<lparr>next_id := ident + 1\<rparr>, snd s1)))
        else (Some (Inr ()), s1))"
  using assms
  by (cases s) (auto simp: admissible_def add_node_def normalize_addr_def map_of_eq_None_iff
      node_new_def fold_spawn_watcher after_add_def added_def hm_insert_fresh checked_inc_def image_iff
      Let_def)

lemma add_node_rejected:
  assumes "\<And>norm. \<not> admissible sock ident addr norm s"
  shows "\<exists>e. add_node sock ident addr s = (Some (Inl e), s)"
  using assms
  by (cases s) (auto simp: admissible_def add_node_def normalize_addr_def map_of_eq_None_iff image_iff
      split: option.splits)

lemma add_node_ok_iff:
  "add_node sock ident addr s = (Some (Inr ()), s') \<longleftrightarrow>
     (\<exists>norm. admissible sock ident addr norm s \<and> \<not> (next_id (fst s) \<le> ident \<and> ident = - 1)
        \<and> s' = (if next_id (fst s) \<le> ident
                then ((fst (after_add ident norm s))\<lparr>next_id := ident + 1\<rparr>, snd (after_add ident norm s))
                else after_add ident norm s))"
proof (cases "\<exists>norm. admissible sock ident addr norm s")
  case True
  then obtain norm where a: "admissible sock ident addr norm s" ..
  then have "(\<exists>norm'. admissible sock ident addr norm' s \<and> Q norm') \<longleftrightarrow> Q norm" for Q
    by (auto simp: admissible_def)
  then show ?thesis
    by (auto simp: add_node_admissible [OF a] Let_def)
next
  case False
  with add_node_rejected [of sock ident addr s] show ?thesis by fastforce
qed

lemma mgr_inv_after_add:
  assumes inv: "mgr_inv s" and adm: "admissible sock ident addr norm s"
    and nx: "ident < nx" "next_id (fst s) \<le> nx"
  shows "mgr_inv ((fst (after_add ident norm s))\<lparr>next_id := nx\<rparr>, snd (after_add ident norm s))"
proof -
  obtain m rt where s: "s = (m, rt)" by fastforce
  have "watches rt (rt_chans rt) = []"
    by (rule watches_fresh) (use inv in \<open>auto simp: mgr_inv_def s\<close>)
  moreover have "nx \<noteq> 0" using nx(1) by auto
  ultimately show ?thesis
    using inv adm nx
    by (fastforce simp: s mgr_inv_def after_add_def added_def admissible_def hm_wf_def watches_def
        filter_map comp_def image_iff dest: less_le_trans)
qed

lemma mgr_inv_add_node:
  assumes inv: "mgr_inv s" and ok: "add_node sock ident addr s = (Some r, s')"
  shows "mgr_inv s'"
proof (cases r)
  case (Inl e)
  have "\<not> admissible sock ident addr norm s" for norm
    using ok Inl add_node_admissible [of sock ident addr norm s] by (auto simp: Let_def split: if_splits)
  from add_node_rejected [OF this] ok have "s' = s" by auto
  with inv show ?thesis by simp
next
  case (Inr u)
  with ok obtain norm where adm: "admissible sock ident addr norm s"
    and ne: "\<not> (next_id (fst s) \<le> ident \<and> ident = - 1)"
    and s': "s' = (if next_id (fst s) \<le> ident
        then ((fst (after_add ident norm s))\<lparr>next_id := ident + 1\<rparr>, snd (after_add ident norm s))
        else after_add ident norm s)"
    by (auto simp: add_node_ok_iff)
  show ?thesis
  proof (cases "next_id (fst s) \<le> ident")
    case True
    with ne have lt: "ident < ident + 1" "next_id (fst s) \<le> ident + 1"
      by (auto simp: word_less_inc intro: less_imp_le)
    show ?thesis
      using mgr_inv_after_add [OF inv adm lt] True s' by simp
  next
    case False
    then have "(fst (after_add ident norm s))\<lparr>next_id := next_id (fst s)\<rparr> = fst (after_add ident norm s)"
      by (simp add: after_add_def)
    moreover have "ident < next_id (fst s)" using False by simp
    ultimately show ?thesis
      using mgr_inv_after_add [OF inv adm _ order_refl] False s' by simp
  qed
qed

lemma mgr_inv_add_addrs:
  "mgr_inv s \<Longrightarrow> add_addrs sock addrs ns s = (Some r, s') \<Longrightarrow> mgr_inv s'"
proof (induction sock addrs ns s rule: add_addrs.induct)
  case (1 sock ns s)
  then show ?case by simp
next
  case (2 sock addr addrs ns s)
  then show ?case
    by (auto simp: Let_def split: prod.splits option.splits sum.splits dest: mgr_inv_add_node)
qed

lemma mgr_inv_remove_node: "mgr_inv s \<Longrightarrow> mgr_inv (snd (remove_node ident s))"
  by (cases s) (auto simp: mgr_inv_def remove_node_def distinct_map_hm_remove)

lemma pool_chan_unique:
  "distinct (map (nchan \<circ> snd) ps) \<Longrightarrow> (k, n) \<in> set ps \<Longrightarrow>
     map (\<lambda>(i, c, cb). (i, cb)) (filter (\<lambda>(i, c, cb). c = nchan n) (map (\<lambda>(k, n). (k, nchan n, cb)) ps)) = [(k, cb)]"
proof (induction ps)
  case (Cons p ps)
  then show ?case
    by (cases p) (force simp: filter_empty_conv)
qed simp

lemma mgr_inv_on_status_change: "mgr_inv s \<Longrightarrow> mgr_inv (on_status_change cb s)"
  by (cases s) (auto simp: mgr_inv_def on_status_change_def fold_spawn_watcher_pool watches_def
      pool_chan_unique)

section \<open>Reachable pools\<close>

inductive manager_reach :: "(string \<Rightarrow> string option) \<Rightarrow> 'cb mstate \<Rightarrow> bool" for sock where
  start: "manager_reach sock (manager_new, runtime_new)"
| add: "manager_reach sock s \<Longrightarrow> add_node sock ident addr s = (Some r, s') \<Longrightarrow> manager_reach sock s'"
| add_list: "manager_reach sock s \<Longrightarrow> add_node_list sock addrs s = (Some rc, s') \<Longrightarrow> manager_reach sock s'"
| extend: "manager_reach sock s \<Longrightarrow> with_new_nodes sock base addrs s = (Some rc, s') \<Longrightarrow> manager_reach sock s'"
| remove: "manager_reach sock s \<Longrightarrow> manager_reach sock (snd (remove_node ident s))"
| callback: "manager_reach sock s \<Longrightarrow> manager_reach sock (on_status_change cb s)"

lemma manager_reach_inv: "manager_reach sock s \<Longrightarrow> mgr_inv s"
proof (induction rule: manager_reach.induct)
  case start
  show ?case by (simp add: mgr_inv_def manager_new_def runtime_new_def)
next
  case (add_list s addrs rc s')
  then show ?case
    by (auto simp: add_node_list_def split: prod.splits option.splits sum.splits dest: mgr_inv_add_addrs)
next
  case (extend s base addrs rc s')
  then show ?case
    by (auto simp: with_new_nodes_def split: prod.splits option.splits sum.splits dest: mgr_inv_add_addrs)
qed (auto intro: mgr_inv_add_node mgr_inv_remove_node mgr_inv_on_status_change)

section \<open>Bulk additions and lookups\<close>

lemma add_addrs_ok:
  assumes "mgr_inv s" and "add_addrs sock addrs ns s = (Some (Inr out), s')"
  shows "\<exists>new. out = ns @ new \<and> map nid new = map (\<lambda>j. next_id (fst s) + of_nat j) [0..<length addrs]
     \<and> map (\<lambda>n. Some (naddr n)) new = map sock addrs
     \<and> mgr_nodes (fst s') = mgr_nodes (fst s) @ map (\<lambda>n. (nid n, n)) new
     \<and> next_id (fst s') = next_id (fst s) + of_nat (length addrs)
     \<and> (\<forall>n \<in> set new. next_id (fst s) \<le> nid n)"
  using assms
proof (induction addrs arbitrary: ns s)
  case Nil
  then show ?case by simp
next
  case (Cons addr addrs)
  let ?i = "next_id (fst s)"
  from Cons.prems(2) obtain s1 n where s1: "add_node sock ?i addr s = (Some (Inr ()), s1)"
    and n: "map_of (mgr_nodes (fst s1)) ?i = Some n"
    and rest: "add_addrs sock addrs (ns @ [n]) s1 = (Some (Inr out), s')"
    by (auto simp: Let_def split: prod.splits option.splits sum.splits)
  from s1 obtain norm where adm: "admissible sock ?i addr norm s" and ni: "?i \<noteq> - 1"
    and s1': "s1 = ((fst (after_add ?i norm s))\<lparr>next_id := ?i + 1\<rparr>, snd (after_add ?i norm s))"
    by (auto simp: add_node_ok_iff)
  have "map_of (mgr_nodes (fst s)) ?i = None"
    using adm by (auto simp: admissible_def map_of_eq_None_iff)
  with n s1' have nd: "n = added ?i norm s"
    by (simp add: after_add_def map_add_def split: option.splits)
  have inv1: "mgr_inv s1" by (rule mgr_inv_add_node [OF Cons.prems(1) s1])
  have le: "?i \<le> ?i + 1" using ni by (simp add: word_less_inc less_imp_le)
  from Cons.IH [OF inv1 rest] obtain new where new: "out = (ns @ [n]) @ new"
    "map nid new = map (\<lambda>j. next_id (fst s1) + of_nat j) [0..<length addrs]"
    "map (\<lambda>n. Some (naddr n)) new = map sock addrs"
    "mgr_nodes (fst s') = mgr_nodes (fst s1) @ map (\<lambda>n. (nid n, n)) new"
    "next_id (fst s') = next_id (fst s1) + of_nat (length addrs)"
    "\<forall>n \<in> set new. next_id (fst s1) \<le> nid n"
    by blast
  have "map (\<lambda>j. ?i + of_nat j) [0..<length (addr # addrs)] = ?i # map (\<lambda>j. ?i + 1 + of_nat j) [0..<length addrs]"
    by (simp add: upt_conv_Cons map_Suc_upt [symmetric] comp_def add.assoc del: upt_Suc)
  then show ?case
    using new s1' nd adm le
    by (intro exI [of _ "n # new"])
      (auto simp: after_add_def added_def admissible_def add.assoc intro: order_trans)
qed

lemma lookup_nodes_iff:
  "lookup_nodes m ids ns = Inr out \<longleftrightarrow>
     (\<forall>i \<in> set ids. map_of (mgr_nodes m) i \<noteq> None) \<and> out = ns @ map (\<lambda>i. the (map_of (mgr_nodes m) i)) ids"
  by (induction ids arbitrary: ns) (auto split: option.splits)

lemma lookup_nodes_missing:
  "lookup_nodes m ids ns = Inl e \<Longrightarrow> \<exists>i \<in> set ids. map_of (mgr_nodes m) i = None
     \<and> e = ''node ID '' @ show_u32 i @ '' not found''"
  by (induction ids arbitrary: ns) (auto split: option.splits)

lemma pool_nids: "mgr_inv s \<Longrightarrow> map nid (map snd (mgr_nodes (fst s))) = map fst (mgr_nodes (fst s))"
  by (cases s) (auto simp: mgr_inv_def)

text \<open>A concrete reachable pool, for the witnesses: node 9 was added before node 4.\<close>

definition two_nodes :: "'cb manager" where
  "two_nodes = \<lparr>mgr_nodes = [(9, \<lparr>nid = 9, naddr = ''a'', nchan = 0\<rparr>), (4, \<lparr>nid = 4, naddr = ''b'', nchan = 1\<rparr>)],
     next_id = 10, status_callbacks = []\<rparr>"

lemma two_nodes_reach: "manager_reach Some (two_nodes :: nat manager, \<lparr>rt_watchers = [], rt_chans = 2\<rparr>)"
proof -
  let ?s1 = "(\<lparr>mgr_nodes = [(9, \<lparr>nid = 9, naddr = ''a'', nchan = 0\<rparr>)], next_id = 10, status_callbacks = []\<rparr>,
      \<lparr>rt_watchers = [], rt_chans = 1\<rparr>) :: nat mstate"
  have a1: "add_node Some 9 ''a'' (manager_new, runtime_new) = (Some (Inr ()), ?s1)"
    by (simp add: add_node_def manager_new_def runtime_new_def normalize_addr_def node_new_def checked_inc_def)
  have a2: "add_node Some 4 ''b'' ?s1 = (Some (Inr ()), (two_nodes, \<lparr>rt_watchers = [], rt_chans = 2\<rparr>))"
    by (simp add: add_node_def two_nodes_def normalize_addr_def node_new_def checked_inc_def)
  show ?thesis
    by (rule manager_reach.add [OF manager_reach.add [OF manager_reach.start a1] a2])
qed

section \<open>Properties\<close>

text \<open>
  C38. Whatever sequence of pool operations has run, the pool keys its handles by their own ID, never
  holds ID 0, never holds two nodes with one address or one connection, \<^verbatim>\<open>next_id\<close> is above every ID
  in the pool (so an automatically assigned ID is never taken), and every node of the pool is watched
  exactly once by each registered status callback, whether the callback came before or after it.
\<close>

theorem manager_pool_invariant:
  assumes "manager_reach sock (m, rt)"
  shows "distinct (map fst (mgr_nodes m)) \<and> distinct (map (naddr \<circ> snd) (mgr_nodes m))
    \<and> distinct (map (nchan \<circ> snd) (mgr_nodes m))
    \<and> (\<forall>k n. node_of m k = Some n \<longrightarrow> nid n = k \<and> k \<noteq> 0 \<and> k < next_id m
         \<and> map (\<lambda>(i, c, cb). (i, cb)) (filter (\<lambda>(i, c, cb). c = nchan n) (rt_watchers rt))
           = map (\<lambda>cb. (k, cb)) (status_callbacks m))"
  using manager_reach_inv [OF assms]
  by (auto simp: mgr_inv_def node_of_def hm_wf_def watches_def dest!: map_of_SomeD)

theorem manager_pool_invariant_witness:
  "manager_reach Some (snd (add_node Some 4 ''h:1'' (on_status_change (7::nat) (manager_new, runtime_new))))
   \<and> node_of (fst (snd (add_node Some 4 ''h:1'' (on_status_change (7::nat) (manager_new, runtime_new))))) 4
       = Some \<lparr>nid = 4, naddr = ''h:1'', nchan = 0\<rparr>
   \<and> 4 < next_id (fst (snd (add_node Some 4 ''h:1'' (on_status_change (7::nat) (manager_new, runtime_new)))))"
proof -
  let ?s = "snd (add_node Some 4 ''h:1'' (on_status_change (7::nat) (manager_new, runtime_new)))"
  have eq: "add_node Some 4 ''h:1'' (on_status_change 7 (manager_new, runtime_new)) = (Some (Inr ()), ?s)"
    by (simp add: add_node_def on_status_change_def manager_new_def runtime_new_def normalize_addr_def
        node_new_def spawn_watcher_def checked_inc_def)
  have reach: "manager_reach Some ?s"
    by (rule manager_reach.add [OF manager_reach.callback [OF manager_reach.start] eq])
  have look: "node_of (fst ?s) 4 = Some \<lparr>nid = 4, naddr = ''h:1'', nchan = 0\<rparr>"
    by (simp add: node_of_def add_node_def on_status_change_def manager_new_def runtime_new_def
        normalize_addr_def node_new_def spawn_watcher_def checked_inc_def)
  show ?thesis
    using reach look manager_pool_invariant [of Some "fst ?s" "snd ?s"] by simp
qed

text \<open>
  C39. \<^verbatim>\<open>add_node\<close> succeeds exactly when the ID is not 0 and not taken, the address parses and is not
  taken, and the ID counter does not overflow; it then adds one entry under that ID with a fresh
  connection and leaves every other entry alone. Every reported error leaves manager and runtime
  untouched; the only panic is the overflow of \<^verbatim>\<open>id + 1\<close> at the largest ID.
\<close>

theorem add_node_outcomes:
  "case add_node sock ident addr s of
     (None, s') \<Rightarrow> addable sock ident addr s \<and> ident = - 1
   | (Some (Inl e), s') \<Rightarrow> \<not> addable sock ident addr s \<and> s' = s
   | (Some (Inr _), s') \<Rightarrow> addable sock ident addr s
       \<and> mgr_nodes (fst s') = mgr_nodes (fst s)
           @ [(ident, \<lparr>nid = ident, naddr = the (sock addr), nchan = rt_chans (snd s)\<rparr>)]
       \<and> next_id (fst s') = (if next_id (fst s) \<le> ident then ident + 1 else next_id (fst s))
       \<and> status_callbacks (fst s') = status_callbacks (fst s)"
proof (cases "\<exists>norm. admissible sock ident addr norm s")
  case True
  then obtain norm where a: "admissible sock ident addr norm s" ..
  then have "addable sock ident addr s" by (auto simp: addable_iff)
  with a show ?thesis
    by (auto simp: add_node_admissible [OF a] Let_def after_add_def added_def admissible_def)
next
  case False
  with add_node_rejected [of sock ident addr s] show ?thesis by (auto simp: addable_iff)
qed

text \<open>
  A successful \<^verbatim>\<open>add_node_list\<close> gives the addresses consecutive IDs from \<^verbatim>\<open>next_id\<close> on, returns
  exactly the new handles in the order of the addresses, with distinct IDs, and grows the pool by
  exactly these.
\<close>

theorem add_node_list_sequential:
  assumes "manager_reach sock s" and "add_node_list sock addrs s = (Some (Inr c), s')"
  shows "node_ids c = map (\<lambda>j. next_id (fst s) + of_nat j) [0..<length addrs]
    \<and> map (\<lambda>n. Some (naddr n)) (cfg_nodes c) = map sock addrs
    \<and> mgr_nodes (fst s') = mgr_nodes (fst s) @ map (\<lambda>n. (nid n, n)) (cfg_nodes c)
    \<and> distinct_ids c"
proof -
  have inv: "mgr_inv s" by (rule manager_reach_inv [OF assms(1)])
  from assms(2) obtain ns where ns: "add_addrs sock addrs [] s = (Some (Inr ns), s')"
    and c: "c = new_configuration ns"
    by (auto simp: add_node_list_def split: prod.splits option.splits sum.splits)
  have "mgr_inv s'" by (rule mgr_inv_add_addrs [OF inv ns])
  then have "distinct (map fst (mgr_nodes (fst s')))"
    by (cases s') (simp add: mgr_inv_def hm_wf_def)
  with add_addrs_ok [OF inv ns] show ?thesis
    by (auto simp: c new_configuration_def node_ids_def distinct_ids_def comp_def)
qed

theorem add_node_list_sequential_witness:
  "node_ids \<lparr>cfg_nodes = [\<lparr>nid = 1, naddr = ''a'', nchan = 0\<rparr>, \<lparr>nid = 2, naddr = ''b'', nchan = 1\<rparr>]\<rparr>
     = map (\<lambda>j. next_id (manager_new :: nat manager) + of_nat j) [0..<length [''a'', ''b'']]"
proof -
  let ?c = "\<lparr>cfg_nodes = [\<lparr>nid = 1, naddr = ''a'', nchan = 0\<rparr>, \<lparr>nid = 2, naddr = ''b'', nchan = 1\<rparr>]\<rparr>"
  have run: "add_node_list Some [''a'', ''b''] (manager_new :: nat manager, runtime_new) =
      (Some (Inr ?c), snd (add_node_list Some [''a'', ''b''] (manager_new, runtime_new)))"
    by (simp add: add_node_list_def add_node_def manager_new_def runtime_new_def normalize_addr_def
        node_new_def checked_inc_def new_configuration_def)
  show ?thesis
    using add_node_list_sequential [OF manager_reach.start run] by simp
qed

text \<open>
  \<^verbatim>\<open>all_nodes\<close> is the whole pool in strictly ascending ID order, and does not depend on the
  iteration order of the hash map.
\<close>

theorem all_nodes_canonical:
  assumes "manager_reach sock (m, rt)" and "mset ps = mset (mgr_nodes m)"
  shows "sorted_wrt (<) (node_ids (all_nodes m))
    \<and> set (cfg_nodes (all_nodes m)) = snd ` set (mgr_nodes m)
    \<and> config_map (all_nodes m) = node_of m
    \<and> all_nodes (m\<lparr>mgr_nodes := ps\<rparr>) = all_nodes m"
proof -
  have inv: "mgr_inv (m, rt)" by (rule manager_reach_inv [OF assms(1)])
  then have ids: "map nid (map snd (mgr_nodes m)) = map fst (mgr_nodes m)"
    using pool_nids [of "(m, rt)"] by simp
  have d: "distinct (map nid (map snd (mgr_nodes m)))"
    unfolding ids using inv by (simp add: mgr_inv_def hm_wf_def)
  have perm: "sort_key nid (map snd (mgr_nodes m)) = sort_key nid (map snd ps)"
    by (rule sort_key_perm_eq [OF d]) (simp add: assms(2))
  have sorted: "sorted (node_ids (all_nodes m))"
    by (simp add: node_ids_def all_nodes_def new_configuration_def)
  have dn: "distinct (node_ids (all_nodes m))"
    using d by (simp only: node_ids_def all_nodes_def new_configuration_def configuration.simps
        distinct_map distinct_sort set_sort)
  from sorted dn have strict: "sorted_wrt (<) (node_ids (all_nodes m))"
    by (simp add: strict_sorted_iff)
  have pairs: "set (map (\<lambda>n. (nid n, n)) (sort_key nid (map snd (mgr_nodes m)))) = set (mgr_nodes m)"
  proof -
    have "(nid (snd p), snd p) = p" if "p \<in> set (mgr_nodes m)" for p
      using inv that by (cases p) (auto simp: mgr_inv_def)
    then have "(\<lambda>p. (nid (snd p), snd p)) ` set (mgr_nodes m) = (\<lambda>p. p) ` set (mgr_nodes m)"
      by (intro image_cong) auto
    then show ?thesis by (simp add: image_image)
  qed
  have "distinct (map fst (map (\<lambda>n. (nid n, n)) (sort_key nid (map snd (mgr_nodes m)))))"
    using dn
    by (simp add: node_ids_def all_nodes_def new_configuration_def comp_def)
  moreover have "distinct (map fst (mgr_nodes m))"
    using inv by (simp add: mgr_inv_def hm_wf_def)
  ultimately have "map_of (map (\<lambda>n. (nid n, n)) (sort_key nid (map snd (mgr_nodes m)))) = map_of (mgr_nodes m)"
    using pairs map_of_inject_set by blast
  then have "config_map (all_nodes m) = node_of m"
    by (simp add: config_map_def node_of_def all_nodes_def new_configuration_def fun_eq_iff)
  with strict perm show ?thesis
    using mset_eq_setD [OF assms(2)] by (simp add: all_nodes_def new_configuration_def)
qed

theorem all_nodes_canonical_witness:
  "map nchan (cfg_nodes (all_nodes (two_nodes :: nat manager))) = [1, 0]
   \<and> all_nodes ((two_nodes :: nat manager)\<lparr>mgr_nodes := rev (mgr_nodes two_nodes)\<rparr>) = all_nodes two_nodes"
  using all_nodes_canonical [OF two_nodes_reach, where ps = "rev (mgr_nodes two_nodes)"]
  by (simp add: two_nodes_def all_nodes_def new_configuration_def)

text \<open>
  \<^verbatim>\<open>configuration(ids)\<close> succeeds exactly when every requested ID is in the pool and then returns
  one handle per requested ID, in that order and with repetitions; otherwise it names a missing ID.
  So a configuration has as many members as IDs were requested even when an ID is repeated.
\<close>

theorem configuration_of_spec:
  assumes "manager_reach sock (m, rt)"
  shows "case configuration_of m ids of
      Inr c \<Rightarrow> (\<forall>i \<in> set ids. node_of m i \<noteq> None) \<and> node_ids c = ids \<and> config_size c = length ids
    | Inl e \<Rightarrow> (\<exists>i \<in> set ids. node_of m i = None \<and> e = ''node ID '' @ show_u32 i @ '' not found'')"
proof -
  have inv: "mgr_inv (m, rt)" by (rule manager_reach_inv [OF assms(1)])
  then have "map_of (mgr_nodes m) i = Some n \<Longrightarrow> nid n = i" for i n
    by (auto simp: mgr_inv_def dest: map_of_SomeD)
  then have "\<forall>i \<in> set ids. map_of (mgr_nodes m) i \<noteq> None \<Longrightarrow>
      map (\<lambda>i. nid (the (map_of (mgr_nodes m) i))) ids = ids"
    by (intro map_idI) auto
  then show ?thesis
    using lookup_nodes_missing [of m ids "[]"]
    by (auto simp: configuration_of_def lookup_nodes_iff new_configuration_def node_ids_def
        config_size_def node_of_def comp_def split: sum.splits)
qed

theorem configuration_of_spec_witness:
  "map_sum (\<lambda>_. ()) node_ids (configuration_of (two_nodes :: nat manager) [9, 4, 9]) = Inr [9, 4, 9]"
proof -
  have "\<exists>c. configuration_of (two_nodes :: nat manager) [9, 4, 9] = Inr c"
    by (simp add: configuration_of_def two_nodes_def)
  then show ?thesis
    using configuration_of_spec [OF two_nodes_reach, of "[9, 4, 9]"] by (auto split: sum.splits)
qed

end
