(* ===== verification/Router.thy ===== *)
theory Router
  imports Errors
begin

text \<open>
  \<^verbatim>\<open>src/router.rs\<close>: the registry of in-flight two-way calls of a node, with the wire envelope
  \<^verbatim>\<open>gorums.Message\<close> and the two kinds of reply channel. A sender is the number of its channel; the
  router record holds, beside the registry, what the receiving ends of all those channels see. Moving
  a sender out of the registry and dropping it is written out, since the caller observes it.
\<close>

record message =
  msg_seq_no :: u64
  msg_method :: string
  msg_status_code :: u32
  msg_status_message :: string
  msg_payload :: "u8 list"
  msg_metadata :: "string \<Rightarrow> string option"

type_synonym reply = "error + message"

text \<open>What the receiver of a \<^verbatim>\<open>oneshot\<close> channel finds.\<close>

datatype 'v oneshot = Open | Sent 'v | Dropped

text \<open>An unbounded \<^verbatim>\<open>mpsc\<close> channel with one sender: what is queued, and which ends are alive.\<close>

record reply_stream =
  st_queue :: "reply list"
  st_tx_live :: bool
  st_rx_live :: bool

datatype pending_call = Response nat | Stream nat

record router =
  rt_inner :: "(u64 \<times> pending_call) list"
  rt_oneshots :: "nat \<Rightarrow> reply oneshot"
  rt_streams :: "nat \<Rightarrow> reply_stream"
  rt_next_oneshot :: nat
  rt_next_stream :: nat

definition router_new :: router where
  "router_new = \<lparr>rt_inner = [], rt_oneshots = (\<lambda>_. Open),
     rt_streams = (\<lambda>_. \<lparr>st_queue = [], st_tx_live = True, st_rx_live = True\<rparr>),
     rt_next_oneshot = 0, rt_next_stream = 0\<rparr>"

section \<open>Channel ends\<close>

definition oneshot_channel :: "router \<Rightarrow> nat \<times> router" where
  "oneshot_channel r = (rt_next_oneshot r,
     r\<lparr>rt_oneshots := (rt_oneshots r)(rt_next_oneshot r := Open), rt_next_oneshot := Suc (rt_next_oneshot r)\<rparr>)"

definition oneshot_send :: "nat \<Rightarrow> reply \<Rightarrow> router \<Rightarrow> router" where
  "oneshot_send t v r = r\<lparr>rt_oneshots := (rt_oneshots r)(t := Sent v)\<rparr>"

definition stream_send :: "nat \<Rightarrow> reply \<Rightarrow> router \<Rightarrow> router" where
  "stream_send t v r = (let s = rt_streams r t in
     if st_rx_live s then r\<lparr>rt_streams := (rt_streams r)(t := s\<lparr>st_queue := st_queue s @ [v]\<rparr>)\<rparr> else r)"

definition oneshot_drop :: "nat \<Rightarrow> router \<Rightarrow> router" where
  "oneshot_drop t r = r\<lparr>rt_oneshots := (rt_oneshots r)(t := Dropped)\<rparr>"

definition stream_drop :: "nat \<Rightarrow> router \<Rightarrow> router" where
  "stream_drop t r = r\<lparr>rt_streams := (rt_streams r)(t := (rt_streams r t)\<lparr>st_tx_live := False\<rparr>)\<rparr>"

fun drop_call :: "pending_call \<Rightarrow> router \<Rightarrow> router" where
  "drop_call (Response t) r = oneshot_drop t r"
| "drop_call (Stream t) r = stream_drop t r"

text \<open>The caller drops the receiver of a stream.\<close>

definition stream_forget :: "nat \<Rightarrow> router \<Rightarrow> router" where
  "stream_forget t r = r\<lparr>rt_streams := (rt_streams r)(t := (rt_streams r t)\<lparr>st_rx_live := False\<rparr>)\<rparr>"

text \<open>\<^verbatim>\<open>HashMap::insert\<close> and \<^verbatim>\<open>remove\<close> whose result is dropped: the displaced sender goes with it.\<close>

definition insert_call :: "u64 \<Rightarrow> pending_call \<Rightarrow> router \<Rightarrow> router" where
  "insert_call seq pc r =
     (let r = (case map_of (rt_inner r) seq of Some old \<Rightarrow> drop_call old r | None \<Rightarrow> r)
      in r\<lparr>rt_inner := hm_insert seq pc (rt_inner r)\<rparr>)"

definition remove_call :: "u64 \<Rightarrow> router \<Rightarrow> router" where
  "remove_call seq r =
     (let r = (case map_of (rt_inner r) seq of Some old \<Rightarrow> drop_call old r | None \<Rightarrow> r)
      in r\<lparr>rt_inner := hm_remove seq (rt_inner r)\<rparr>)"

section \<open>Operations\<close>

definition register_with_sender :: "u64 \<Rightarrow> nat \<Rightarrow> router \<Rightarrow> router" where
  "register_with_sender seq tx r = insert_call seq (Response tx) r"

definition register_stream :: "u64 \<Rightarrow> router \<Rightarrow> nat \<times> router" where
  "register_stream seq r =
     (let t = rt_next_stream r;
          r = r\<lparr>rt_streams := (rt_streams r)(t := \<lparr>st_queue = [], st_tx_live = True, st_rx_live = True\<rparr>),
                rt_next_stream := Suc t\<rparr>
      in (t, insert_call seq (Stream t) r))"

definition deliver :: "u64 \<Rightarrow> reply \<Rightarrow> router \<Rightarrow> router" where
  "deliver seq result r =
     (case map_of (rt_inner r) seq of
        Some (Stream t) \<Rightarrow>
          (if st_rx_live (rt_streams r t) then stream_send t result r else remove_call seq r)
      | Some (Response t) \<Rightarrow> oneshot_send t result (r\<lparr>rt_inner := hm_remove seq (rt_inner r)\<rparr>)
      | None \<Rightarrow> r)"

definition close_stream :: "u64 \<Rightarrow> router \<Rightarrow> router" where
  "close_stream seq r = remove_call seq r"

fun cancel_call :: "error \<Rightarrow> pending_call \<Rightarrow> router \<Rightarrow> router" where
  "cancel_call err (Response t) r = oneshot_send t (Inl err) r"
| "cancel_call err (Stream t) r = stream_drop t (stream_send t (Inl err) r)"

definition cancel_all :: "error \<Rightarrow> router \<Rightarrow> router" where
  "cancel_all err r =
     (let entries = map snd (rt_inner r)
      in fold (cancel_call err) entries (r\<lparr>rt_inner := []\<rparr>))"

text \<open>The last reference to the router is dropped, and every sender in it.\<close>

definition router_drop :: "router \<Rightarrow> router" where
  "router_drop r = fold drop_call (map snd (rt_inner r)) (r\<lparr>rt_inner := []\<rparr>)"

section \<open>Ownership\<close>

text \<open>
  \<open>own held loose r\<close>: outside the registry, exactly the one-shot senders \<open>held\<close> and the stream senders
  \<open>loose\<close> are alive. Every unanswered one-shot call has exactly one sender, in the registry or in
  \<open>held\<close>, and every stream open on its sending side has exactly one, in the registry or in \<open>loose\<close>.
\<close>

definition resp_ids :: "(u64 \<times> pending_call) list \<Rightarrow> nat list" where
  "resp_ids m = List.map_filter (\<lambda>(_, pc). case pc of Response t \<Rightarrow> Some t | Stream _ \<Rightarrow> None) m"

definition stream_ids :: "(u64 \<times> pending_call) list \<Rightarrow> nat list" where
  "stream_ids m = List.map_filter (\<lambda>(_, pc). case pc of Stream t \<Rightarrow> Some t | Response _ \<Rightarrow> None) m"

definition open_calls :: "router \<Rightarrow> nat set" where
  "open_calls r = {t. t < rt_next_oneshot r \<and> rt_oneshots r t = Open}"

definition live_streams :: "router \<Rightarrow> nat set" where
  "live_streams r = {t. t < rt_next_stream r \<and> st_tx_live (rt_streams r t)}"

definition own :: "nat list \<Rightarrow> nat list \<Rightarrow> router \<Rightarrow> bool" where
  "own held loose r \<longleftrightarrow> hm_wf (rt_inner r)
     \<and> distinct (held @ resp_ids (rt_inner r)) \<and> set (held @ resp_ids (rt_inner r)) = open_calls r
     \<and> distinct (loose @ stream_ids (rt_inner r)) \<and> set (loose @ stream_ids (rt_inner r)) = live_streams r"

named_theorems own_intros \<open>what each router operation does to the ownership of the senders\<close>

lemma finite_ids [simp]: "finite (open_calls r)" "finite (live_streams r)"
  by (auto simp: open_calls_def live_streams_def)

lemma own_alt:
  "own held loose r \<longleftrightarrow> hm_wf (rt_inner r)
     \<and> mset held + mset (resp_ids (rt_inner r)) = mset_set (open_calls r)
     \<and> mset loose + mset (stream_ids (rt_inner r)) = mset_set (live_streams r)"
  using mset_eq_mset_set_iff [of "open_calls r" "held @ resp_ids (rt_inner r)"]
    mset_eq_mset_set_iff [of "live_streams r" "loose @ stream_ids (rt_inner r)"]
  by (simp add: own_def)

lemma ids_split:
  assumes "mset m = add_mset (k, pc) (mset m')"
  shows "mset (resp_ids m) = (case pc of Response t \<Rightarrow> add_mset t (mset (resp_ids m')) | Stream _ \<Rightarrow> mset (resp_ids m'))"
    and "mset (stream_ids m) = (case pc of Stream t \<Rightarrow> add_mset t (mset (stream_ids m')) | Response _ \<Rightarrow> mset (stream_ids m'))"
  by (cases pc; simp add: resp_ids_def stream_ids_def mset_map_filter assms)+

lemma own_perm: "own held loose r \<Longrightarrow> mset held = mset held' \<Longrightarrow> own held' loose r"
  by (simp add: own_alt)

lemma open_calls_upd:
  "v \<noteq> Open \<Longrightarrow> open_calls (r\<lparr>rt_oneshots := (rt_oneshots r)(t := v)\<rparr>) = open_calls r - {t}"
  by (auto simp: open_calls_def)

lemma mset_set_take: "finite A \<Longrightarrow> add_mset t M = mset_set A \<Longrightarrow> M = mset_set (A - {t})"
  by (metis add_mset_remove_trivial diff_single_trivial elem_mset_set insertI1 mset_set.remove set_mset_add_mset_insert)

lemma own_send [own_intros]: "own (t # held) loose r \<Longrightarrow> own held loose (oneshot_send t v r)"
  using mset_set_take [of "open_calls r" t] open_calls_upd [of "Sent v" r t]
  by (simp add: own_alt oneshot_send_def live_streams_def)

lemma own_oneshot_drop [own_intros]: "own (t # held) loose r \<Longrightarrow> own held loose (oneshot_drop t r)"
  using mset_set_take [of "open_calls r" t] open_calls_upd [of Dropped r t]
  by (simp add: own_alt oneshot_drop_def live_streams_def)

lemma live_streams_upd: "st_tx_live s = st_tx_live (rt_streams r t) \<Longrightarrow>
    live_streams (r\<lparr>rt_streams := (rt_streams r)(t := s)\<rparr>) = live_streams r"
  by (auto simp: live_streams_def)

lemma own_stream_send [own_intros]: "own held loose r \<Longrightarrow> own held loose (stream_send t v r)"
  by (simp add: own_alt stream_send_def Let_def live_streams_upd) (simp add: open_calls_def)

lemma own_stream_forget [own_intros]: "own held loose r \<Longrightarrow> own held loose (stream_forget t r)"
  by (simp add: own_alt stream_forget_def live_streams_upd) (simp add: open_calls_def)

lemma own_stream_drop [own_intros]: "own held (t # loose) r \<Longrightarrow> own held loose (stream_drop t r)"
proof -
  have "live_streams (stream_drop t r) = live_streams r - {t}"
    by (auto simp: live_streams_def stream_drop_def)
  moreover have "open_calls (stream_drop t r) = open_calls r"
    by (simp add: open_calls_def stream_drop_def)
  ultimately show "own held (t # loose) r \<Longrightarrow> ?thesis"
    using mset_set_take [of "live_streams r" t] by (simp add: own_alt stream_drop_def)
qed

text \<open>Taking a call out of the registry, and putting one in.\<close>

fun hold :: "pending_call \<Rightarrow> nat list \<Rightarrow> nat list" where
  "hold (Response t) held = t # held"
| "hold (Stream t) held = held"

fun loosen :: "pending_call \<Rightarrow> nat list \<Rightarrow> nat list" where
  "loosen (Response t) loose = loose"
| "loosen (Stream t) loose = t # loose"

lemma ids_inner_upd [simp]:
  "open_calls (r\<lparr>rt_inner := m\<rparr>) = open_calls r" "live_streams (r\<lparr>rt_inner := m\<rparr>) = live_streams r"
  by (simp_all add: open_calls_def live_streams_def)

lemma own_take:
  assumes "own held loose r" and "map_of (rt_inner r) seq = Some pc"
  shows "own (hold pc held) (loosen pc loose) (r\<lparr>rt_inner := hm_remove seq (rt_inner r)\<rparr>)"
  using assms ids_split [OF mset_hm_split [of "rt_inner r" seq pc]]
  by (cases pc) (auto simp: own_alt)

lemma own_put:
  assumes "own (hold pc held) (loosen pc loose) r" and "map_of (rt_inner r) seq = None"
  shows "own held loose (r\<lparr>rt_inner := hm_insert seq pc (rt_inner r)\<rparr>)"
  using assms ids_split [OF mset_hm_insert [of "rt_inner r" seq pc]] hm_remove_None [of "rt_inner r" seq]
  by (cases pc) (auto simp: own_alt)

lemma drop_call_inner [simp]: "rt_inner (drop_call pc r) = rt_inner r"
  and drop_call_inner_upd: "drop_call pc (r\<lparr>rt_inner := m\<rparr>) = (drop_call pc r)\<lparr>rt_inner := m\<rparr>"
  by (cases pc; simp add: oneshot_drop_def stream_drop_def)+

lemma drop_call_oneshots:
  "rt_oneshots (drop_call pc r) = (case pc of Response t \<Rightarrow> (rt_oneshots r)(t := Dropped) | Stream _ \<Rightarrow> rt_oneshots r)"
  "rt_next_oneshot (drop_call pc r) = rt_next_oneshot r"
  by (cases pc; simp add: oneshot_drop_def stream_drop_def)+

lemma own_drop_call [own_intros]:
  "own (hold pc held) (loosen pc loose) r \<Longrightarrow> own held loose (drop_call pc r)"
  by (cases pc) (auto intro: own_intros)

lemma own_cancel_call [own_intros]:
  "own (hold pc held) (loosen pc loose) r \<Longrightarrow> own held loose (cancel_call err pc r)"
  by (cases pc) (auto intro: own_intros)

lemma own_remove_call [own_intros]: "own held loose r \<Longrightarrow> own held loose (remove_call seq r)"
proof (cases "map_of (rt_inner r) seq")
  case None
  then show "own held loose r \<Longrightarrow> ?thesis"
    by (simp add: remove_call_def hm_remove_None)
next
  case (Some pc)
  assume "own held loose r"
  from own_drop_call [OF own_take [OF this Some]] Some show ?thesis
    by (simp add: remove_call_def drop_call_inner_upd)
qed

lemma remove_call_absent: "map_of (rt_inner (remove_call seq r)) seq = None"
  by (auto simp: remove_call_def Let_def hashmap_simps split: option.splits)

lemma own_insert_call [own_intros]:
  assumes "own (hold pc held) (loosen pc loose) r"
  shows "own held loose (insert_call seq pc r)"
proof -
  let ?r = "remove_call seq r"
  have inner: "rt_inner ?r = hm_remove seq (rt_inner r)"
    by (auto simp: remove_call_def Let_def split: option.splits)
  have ins: "insert_call seq pc r = ?r\<lparr>rt_inner := hm_insert seq pc (rt_inner r)\<rparr>"
    by (auto simp: insert_call_def remove_call_def Let_def split: option.splits)
  have wf: "hm_wf (rt_inner r)" using assms by (simp add: own_alt)
  have "hm_remove seq (hm_remove seq (rt_inner r)) = hm_remove seq (rt_inner r)"
    by (rule hm_remove_None) (simp add: hashmap_simps)
  then have "mset (hm_insert seq pc (rt_inner r)) = mset (hm_insert seq pc (rt_inner ?r))"
    using wf by (simp add: inner mset_hm_insert)
  moreover have "own held loose (?r\<lparr>rt_inner := hm_insert seq pc (rt_inner ?r)\<rparr>)"
    using assms by (intro own_put own_remove_call remove_call_absent)
  ultimately show ?thesis
    using wf by (simp add: own_alt ins resp_ids_def stream_ids_def mset_map_filter)
qed

lemma own_oneshot_channel [own_intros]:
  "own held loose r \<Longrightarrow> oneshot_channel r = (t, r') \<Longrightarrow> own (t # held) loose r'"
proof -
  assume o: "own held loose r" and r': "oneshot_channel r = (t, r')"
  then have "open_calls r' = insert t (open_calls r)" "t \<notin> open_calls r" "live_streams r' = live_streams r"
    by (auto simp: oneshot_channel_def open_calls_def live_streams_def less_Suc_eq)
  with o r' show ?thesis by (auto simp: own_alt oneshot_channel_def)
qed

lemma own_register_with_sender [own_intros]:
  "own (t # held) loose r \<Longrightarrow> own held loose (register_with_sender seq t r)"
  unfolding register_with_sender_def by (rule own_insert_call) simp

lemma own_register_stream [own_intros]:
  assumes "own held loose r" and "register_stream seq r = (t, r')"
  shows "own held loose r'"
proof -
  let ?r = "r\<lparr>rt_streams := (rt_streams r)(rt_next_stream r := \<lparr>st_queue = [], st_tx_live = True, st_rx_live = True\<rparr>),
    rt_next_stream := Suc (rt_next_stream r)\<rparr>"
  have "live_streams ?r = insert (rt_next_stream r) (live_streams r)" "rt_next_stream r \<notin> live_streams r"
    "open_calls ?r = open_calls r"
    by (auto simp: open_calls_def live_streams_def less_Suc_eq)
  with assms(1) have "own held (rt_next_stream r # loose) ?r" by (auto simp: own_alt)
  with assms(2) show ?thesis
    by (auto simp: register_stream_def Let_def intro!: own_insert_call)
qed

lemma own_deliver [own_intros]: "own held loose r \<Longrightarrow> own held loose (deliver seq result r)"
proof -
  assume o: "own held loose r"
  show ?thesis
  proof (cases "map_of (rt_inner r) seq")
    case (Some pc)
    with own_take [OF o Some] o show ?thesis
      by (cases pc) (auto simp: deliver_def intro: own_intros)
  qed (use o in \<open>simp add: deliver_def\<close>)
qed

lemma own_close_stream [own_intros]: "own held loose r \<Longrightarrow> own held loose (close_stream seq r)"
  by (simp add: close_stream_def own_remove_call)

text \<open>Draining the registry with an operation that consumes each sender.\<close>

lemma own_drain:
  assumes "\<And>pc held loose r. own (hold pc held) (loosen pc loose) r \<Longrightarrow> own held loose (f pc r)"
    and "own held loose r"
  shows "own held loose (fold f (map snd (rt_inner r)) (r\<lparr>rt_inner := []\<rparr>))"
proof -
  have "own (resp_ids es @ held) (stream_ids es @ loose) r' \<Longrightarrow> own held loose (fold f (map snd es) r')" for es r'
  proof (induction es arbitrary: r')
    case (Cons e es)
    then have "own (hold (snd e) (resp_ids es @ held)) (loosen (snd e) (stream_ids es @ loose)) r'"
      by (cases e; cases "snd e") (auto simp: resp_ids_def stream_ids_def List.map_filter_simps)
    with Cons.IH assms(1) show ?case by simp
  qed (simp add: resp_ids_def stream_ids_def List.map_filter_simps)
  moreover have "own (resp_ids (rt_inner r) @ held) (stream_ids (rt_inner r) @ loose) (r\<lparr>rt_inner := []\<rparr>)"
    using assms(2) by (simp add: own_alt ac_simps) (simp add: resp_ids_def stream_ids_def List.map_filter_simps)
  ultimately show ?thesis by blast
qed

lemma own_cancel_all [own_intros]: "own held loose r \<Longrightarrow> own held loose (cancel_all err r)"
  unfolding cancel_all_def Let_def by (rule own_drain) (rule own_intros)

lemma own_router_drop [own_intros]: "own held loose r \<Longrightarrow> own held loose (router_drop r)"
  unfolding router_drop_def by (rule own_drain) (rule own_intros)

lemma own_router_new: "own [] [] router_new"
  by (simp add: own_def router_new_def open_calls_def live_streams_def resp_ids_def stream_ids_def
      List.map_filter_simps)

section \<open>What callers observe\<close>

lemma ids_iff:
  "t \<in> set (resp_ids m) \<longleftrightarrow> Response t \<in> snd ` set m" "t \<in> set (stream_ids m) \<longleftrightarrow> Stream t \<in> snd ` set m"
  by (force simp: resp_ids_def stream_ids_def set_map_filter split: pending_call.splits)+

lemma own_unique:
  assumes o: "own held loose r" and s: "map_of (rt_inner r) s = Some pc" and s': "map_of (rt_inner r) s' = Some pc"
  shows "s = s'"
proof (rule ccontr)
  assume "s \<noteq> s'"
  with s' have "pc \<in> snd ` set (hm_remove s (rt_inner r))"
    by (force dest: map_of_SomeD)
  with own_take [OF o s] show False
    by (cases pc) (auto simp: own_def simp flip: ids_iff)
qed

lemma drop_call_other_stream: "pc \<noteq> Stream t \<Longrightarrow> rt_streams (drop_call pc r) t = rt_streams r t"
  by (cases pc) (auto simp: oneshot_drop_def stream_drop_def)

lemma deliver_oneshots:
  "rt_oneshots (deliver seq v r) =
     (case map_of (rt_inner r) seq of Some (Response t) \<Rightarrow> (rt_oneshots r)(t := Sent v) | _ \<Rightarrow> rt_oneshots r)"
  by (auto simp: deliver_def stream_send_def remove_call_def oneshot_send_def stream_drop_def Let_def
      split: option.splits pending_call.splits)

lemma deliver_inner_other: "s \<noteq> seq \<Longrightarrow> map_of (rt_inner (deliver seq v r)) s = map_of (rt_inner r) s"
  by (auto simp: deliver_def stream_send_def remove_call_def oneshot_send_def stream_drop_def Let_def hashmap_simps
      split: option.splits pending_call.splits)

lemma cancel_call_inner [simp]: "rt_inner (cancel_call err pc r) = rt_inner r"
  by (cases pc) (auto simp: oneshot_send_def stream_send_def stream_drop_def Let_def)

lemma fold_cancel_oneshots:
  "rt_oneshots (fold (cancel_call err) pcs r) t =
     (if Response t \<in> set pcs then Sent (Inl err) else rt_oneshots r t)"
proof (induction pcs arbitrary: r)
  case (Cons pc pcs)
  then show ?case
    by (cases pc) (auto simp: oneshot_send_def stream_send_def stream_drop_def Let_def)
qed simp

definition cancelled_stream :: "error \<Rightarrow> reply_stream \<Rightarrow> reply_stream" where
  "cancelled_stream err s = s\<lparr>st_queue := st_queue s @ (if st_rx_live s then [Inl err] else []), st_tx_live := False\<rparr>"

lemma fold_cancel_streams:
  "distinct (filter (\<lambda>pc. pc = Stream t) pcs) \<Longrightarrow>
   rt_streams (fold (cancel_call err) pcs r) t =
     (if Stream t \<in> set pcs then cancelled_stream err (rt_streams r t) else rt_streams r t)"
proof (induction pcs arbitrary: r)
  case (Cons pc pcs)
  then show ?case
    by (cases pc) (auto simp: oneshot_send_def stream_send_def stream_drop_def cancelled_stream_def Let_def split: if_splits)
qed simp

lemma fold_cancel_inner: "rt_inner (fold (cancel_call err) pcs r) = rt_inner r"
  by (induction pcs arbitrary: r) simp_all

lemma own_distinct_calls:
  assumes "own held loose r"
  shows "distinct (map snd (rt_inner r))"
proof -
  have "distinct (map snd m)" if "distinct (resp_ids m)" "distinct (stream_ids m)" for m
    using that
  proof (induction m)
    case (Cons e m)
    then show ?case
      using ids_iff [of _ m]
      by (cases e; cases "snd e") (auto simp: resp_ids_def stream_ids_def List.map_filter_simps)
  qed simp
  with assms show ?thesis by (simp add: own_def)
qed

section \<open>Answered calls stay answered\<close>

definition keeps :: "router \<Rightarrow> router \<Rightarrow> bool" where
  "keeps r r' \<longleftrightarrow> rt_next_oneshot r \<le> rt_next_oneshot r'
     \<and> (\<forall>t < rt_next_oneshot r. rt_oneshots r t \<noteq> Open \<longrightarrow> rt_oneshots r' t = rt_oneshots r t)"

named_theorems keeps_intros \<open>router operations that leave answered calls alone\<close>

lemma keeps_refl [simp]: "keeps r r"
  by (simp add: keeps_def)

lemma keeps_trans: "keeps r r' \<Longrightarrow> keeps r' r'' \<Longrightarrow> keeps r r''"
  by (fastforce simp: keeps_def)

lemma keeps_same: "rt_oneshots r' = rt_oneshots r \<Longrightarrow> rt_next_oneshot r' = rt_next_oneshot r \<Longrightarrow> keeps r r'"
  by (simp add: keeps_def)

lemma keeps_inner_iff [simp]: "keeps (r\<lparr>rt_inner := m\<rparr>) r' = keeps r r'" "keeps r (r'\<lparr>rt_inner := m\<rparr>) = keeps r r'"
  by (simp_all add: keeps_def)

lemma keeps_send [keeps_intros]: "own (t # held) loose r \<Longrightarrow> keeps r (oneshot_send t v r)"
  by (auto simp: keeps_def own_def open_calls_def oneshot_send_def)

lemma keeps_oneshot_drop [keeps_intros]: "own (t # held) loose r \<Longrightarrow> keeps r (oneshot_drop t r)"
  by (auto simp: keeps_def own_def open_calls_def oneshot_drop_def)

lemma keeps_streams [keeps_intros]:
  "keeps r (stream_send t v r)" "keeps r (stream_drop t r)" "keeps r (stream_forget t r)"
  by (auto simp: stream_send_def stream_drop_def stream_forget_def Let_def intro: keeps_same)

lemma keeps_drop_call: "own (hold pc held) (loosen pc loose) r \<Longrightarrow> keeps r (drop_call pc r)"
  by (cases pc) (auto intro: keeps_intros)

lemma keeps_cancel_call: "own (hold pc held) (loosen pc loose) r \<Longrightarrow> keeps r (cancel_call err pc r)"
  by (cases pc) (auto intro: keeps_intros keeps_trans)

lemma keeps_remove_call:
  assumes "own held loose r"
  shows "keeps r (remove_call seq r)" "keeps r (insert_call seq pc r)"
proof -
  have "keeps r (drop_call old r)" if "map_of (rt_inner r) seq = Some old" for old
    using keeps_drop_call [OF own_take [OF assms that]] by (simp add: drop_call_inner_upd)
  then show "keeps r (remove_call seq r)" "keeps r (insert_call seq pc r)"
    by (simp_all add: remove_call_def insert_call_def Let_def split: option.splits)
qed

lemma keeps_register [keeps_intros]:
  "own (t # held) loose r \<Longrightarrow> keeps r (register_with_sender seq t r)"
  by (auto simp: register_with_sender_def intro: keeps_remove_call)

lemma keeps_register_stream [keeps_intros]:
  assumes "own held loose r" "register_stream seq r = (t, r')"
  shows "keeps r r'"
proof -
  let ?r = "r\<lparr>rt_streams := (rt_streams r)(rt_next_stream r := \<lparr>st_queue = [], st_tx_live = True, st_rx_live = True\<rparr>),
    rt_next_stream := Suc (rt_next_stream r)\<rparr>"
  have "rt_oneshots (insert_call seq pc ?r) = rt_oneshots (insert_call seq pc r)"
    "rt_next_oneshot (insert_call seq pc ?r) = rt_next_oneshot (insert_call seq pc r)" for pc
    by (auto simp: insert_call_def Let_def drop_call_oneshots split: option.splits pending_call.splits)
  with assms keeps_remove_call(2) [OF assms(1)] show ?thesis
    by (auto simp: register_stream_def Let_def keeps_def)
qed

lemma keeps_deliver [keeps_intros]: "own held loose r \<Longrightarrow> keeps r (deliver seq v r)"
proof -
  assume o: "own held loose r"
  show ?thesis
  proof (cases "map_of (rt_inner r) seq")
    case (Some pc)
    with keeps_send own_take [OF o Some] keeps_remove_call [OF o] show ?thesis
      by (cases pc) (fastforce simp: deliver_def intro: keeps_intros)+
  qed (simp add: deliver_def)
qed

lemma keeps_close_stream [keeps_intros]: "own held loose r \<Longrightarrow> keeps r (close_stream seq r)"
  by (simp add: close_stream_def keeps_remove_call)

lemma keeps_oneshot_channel [keeps_intros]: "oneshot_channel r = (t, r') \<Longrightarrow> keeps r r'"
  by (auto simp: oneshot_channel_def keeps_def)

lemma keeps_drain:
  assumes f: "\<And>pc held loose r. own (hold pc held) (loosen pc loose) r \<Longrightarrow> own held loose (f pc r) \<and> keeps r (f pc r)"
    and "own held loose r"
  shows "keeps r (fold f (map snd (rt_inner r)) (r\<lparr>rt_inner := []\<rparr>))"
proof -
  have "own (resp_ids es @ held) (stream_ids es @ loose) r' \<Longrightarrow> keeps r' (fold f (map snd es) r')" for es r'
  proof (induction es arbitrary: r')
    case (Cons e es)
    then have "own (hold (snd e) (resp_ids es @ held)) (loosen (snd e) (stream_ids es @ loose)) r'"
      by (cases e; cases "snd e") (auto simp: resp_ids_def stream_ids_def List.map_filter_simps)
    note step = f [OF this]
    from keeps_trans [OF conjunct2 [OF step] Cons.IH [OF conjunct1 [OF step]]] show ?case by simp
  qed simp
  moreover have "own (resp_ids (rt_inner r) @ held) (stream_ids (rt_inner r) @ loose) (r\<lparr>rt_inner := []\<rparr>)"
    using assms(2) by (simp add: own_alt ac_simps) (simp add: resp_ids_def stream_ids_def List.map_filter_simps)
  ultimately have "keeps (r\<lparr>rt_inner := []\<rparr>) (fold f (map snd (rt_inner r)) (r\<lparr>rt_inner := []\<rparr>))" by blast
  then show ?thesis by simp
qed

lemma keeps_cancel_all [keeps_intros]: "own held loose r \<Longrightarrow> keeps r (cancel_all err r)"
  unfolding cancel_all_def Let_def by (rule keeps_drain) (auto intro: keeps_cancel_call own_cancel_call)

lemma keeps_router_drop [keeps_intros]: "own held loose r \<Longrightarrow> keeps r (router_drop r)"
  unfolding router_drop_def by (rule keeps_drain) (auto intro: keeps_drop_call own_drop_call)

section \<open>Properties\<close>

text \<open>
  \<^verbatim>\<open>Router::cancel_all\<close> resolves every pending call and no other: the registry is empty
  afterwards, each registered one-shot caller receives exactly the given error, each registered stream
  gets it as its last item and is closed, and every other channel is untouched; the only unanswered
  calls left are those whose sender is not in the registry.
\<close>

theorem cancel_all_resolves:
  assumes "own held [] r"
  shows "rt_inner (cancel_all err r) = []
    \<and> rt_oneshots (cancel_all err r) =
        (\<lambda>t. if t \<in> set (resp_ids (rt_inner r)) then Sent (Inl err) else rt_oneshots r t)
    \<and> rt_streams (cancel_all err r) =
        (\<lambda>t. if t \<in> set (stream_ids (rt_inner r)) then cancelled_stream err (rt_streams r t) else rt_streams r t)
    \<and> open_calls (cancel_all err r) = set held \<and> live_streams (cancel_all err r) = {}"
proof -
  have inner: "rt_inner (cancel_all err r) = []"
    by (simp add: cancel_all_def Let_def fold_cancel_inner)
  have "open_calls (cancel_all err r) = set held" "live_streams (cancel_all err r) = {}"
    using own_cancel_all [OF assms, of err] inner
    by (simp_all add: own_def resp_ids_def stream_ids_def List.map_filter_simps)
  with inner own_distinct_calls [OF assms] show ?thesis
    by (auto simp: cancel_all_def Let_def fold_cancel_oneshots fold_cancel_streams ids_iff fun_eq_iff)
qed

definition demo_router :: router where
  "demo_router = register_with_sender 7 0 (snd (register_stream 9 (snd (oneshot_channel router_new))))"

lemma demo_router_own: "own [] [] demo_router"
proof -
  have "own [0] [] (snd (oneshot_channel router_new))"
    by (rule own_oneshot_channel [OF own_router_new]) (simp add: oneshot_channel_def router_new_def)
  then show ?thesis
    unfolding demo_router_def
    by (intro own_register_with_sender own_register_stream [OF _ surjective_pairing])
qed

theorem cancel_all_resolves_witness:
  "rt_inner (cancel_all StreamDown demo_router) = []
   \<and> rt_oneshots (cancel_all StreamDown demo_router) =
       (\<lambda>t. if t \<in> set (resp_ids (rt_inner demo_router)) then Sent (Inl StreamDown) else rt_oneshots demo_router t)
   \<and> rt_streams (cancel_all StreamDown demo_router) =
       (\<lambda>t. if t \<in> set (stream_ids (rt_inner demo_router)) then cancelled_stream StreamDown (rt_streams demo_router t)
            else rt_streams demo_router t)
   \<and> open_calls (cancel_all StreamDown demo_router) = set [] \<and> live_streams (cancel_all StreamDown demo_router) = {}"
  by (rule cancel_all_resolves) (rule demo_router_own)

lemma fold_deliver_stream:
  assumes "own held loose r" "map_of (rt_inner r) seq = Some (Stream t)"
    and "rt_streams r t = \<lparr>st_queue = q, st_tx_live = True, st_rx_live = True\<rparr>"
  shows "let r' = fold (\<lambda>(s, v). deliver s v) ds r in
    own held loose r' \<and> map_of (rt_inner r') seq = Some (Stream t)
    \<and> rt_streams r' t = \<lparr>st_queue = q @ map snd (filter (\<lambda>d. fst d = seq) ds), st_tx_live = True, st_rx_live = True\<rparr>"
  using assms
proof (induction ds arbitrary: r q)
  case (Cons d ds)
  obtain s v where d: "d = (s, v)" by fastforce
  have o: "own held loose (deliver s v r)" using Cons.prems by (auto intro: own_intros)
  show ?case
  proof (cases "s = seq")
    case True
    with Cons.prems have "map_of (rt_inner (deliver s v r)) seq = Some (Stream t)"
      "rt_streams (deliver s v r) t = \<lparr>st_queue = q @ [v], st_tx_live = True, st_rx_live = True\<rparr>"
      by (simp_all add: deliver_def stream_send_def)
    from Cons.IH [OF o this] True d show ?thesis by (simp add: Let_def)
  next
    case False
    with Cons.prems own_unique [OF Cons.prems(1), of s "Stream t" seq]
    have "rt_streams (deliver s v r) t = rt_streams r t"
      by (auto simp: deliver_def stream_send_def remove_call_def oneshot_send_def stream_drop_def Let_def
          split: option.splits pending_call.splits)
    with Cons.IH [OF o, of q] Cons.prems False d show ?thesis
      by (simp add: Let_def deliver_inner_other)
  qed
qed simp

text \<open>
  A correctable stream receives, in order, exactly the results delivered under its sequence
  number, whatever is delivered for other calls in between; it stays open until \<^verbatim>\<open>close_stream\<close>, and
  that keeps what is queued.
\<close>

theorem stream_delivery:
  assumes "own held loose r" and "register_stream seq r = (t, r')"
  shows "let r'' = fold (\<lambda>(s, v). deliver s v) ds r'; got = map snd (filter (\<lambda>d. fst d = seq) ds) in
    rt_streams r'' t = \<lparr>st_queue = got, st_tx_live = True, st_rx_live = True\<rparr>
    \<and> rt_streams (close_stream seq r'') t = \<lparr>st_queue = got, st_tx_live = False, st_rx_live = True\<rparr>
    \<and> map_of (rt_inner (close_stream seq r'')) seq = None"
proof -
  have "map_of (rt_inner r') seq = Some (Stream t)"
    using assms(2) by (auto simp: register_stream_def insert_call_def Let_def hashmap_simps)
  moreover have t: "t = rt_next_stream r" "t \<notin> set (stream_ids (rt_inner r))"
    using assms by (auto simp: register_stream_def Let_def own_def live_streams_def)
  have "old \<noteq> Stream t" if "map_of (rt_inner r) seq = Some old" for old
    using that t(2) by (force simp: ids_iff dest: map_of_SomeD)
  then have "rt_streams r' t = \<lparr>st_queue = [], st_tx_live = True, st_rx_live = True\<rparr>"
    using assms(2) t(1)
    by (auto simp: register_stream_def insert_call_def Let_def drop_call_other_stream split: option.splits)
  ultimately have "let r'' = fold (\<lambda>(s, v). deliver s v) ds r' in
      own held loose r'' \<and> map_of (rt_inner r'') seq = Some (Stream t)
      \<and> rt_streams r'' t = \<lparr>st_queue = [] @ map snd (filter (\<lambda>d. fst d = seq) ds), st_tx_live = True, st_rx_live = True\<rparr>"
    using own_register_stream [OF assms] by (intro fold_deliver_stream)
  then show ?thesis
    by (auto simp: Let_def close_stream_def remove_call_absent) (simp add: remove_call_def stream_drop_def)
qed

theorem stream_delivery_witness:
  "let r'' = fold (\<lambda>(s, v). deliver s v) [(9, Inl Cancelled), (7, Inl NodeClosed), (9, Inl StreamDown)]
         (snd (register_stream 9 demo_router)) in
    rt_streams r'' 1 = \<lparr>st_queue = [Inl Cancelled, Inl StreamDown], st_tx_live = True, st_rx_live = True\<rparr>
    \<and> rt_streams (close_stream 9 r'') 1 =
        \<lparr>st_queue = [Inl Cancelled, Inl StreamDown], st_tx_live = False, st_rx_live = True\<rparr>
    \<and> map_of (rt_inner (close_stream 9 r'')) 9 = None"
proof -
  have "register_stream 9 demo_router = (1, snd (register_stream 9 demo_router))"
    by (simp add: demo_router_def register_stream_def register_with_sender_def insert_call_def oneshot_channel_def
        router_new_def)
  from stream_delivery [OF demo_router_own this, of "[(9, Inl Cancelled), (7, Inl NodeClosed), (9, Inl StreamDown)]"]
  show ?thesis by (simp add: Let_def)
qed

lemma resolved_call_stable:
  assumes "own held loose r" "rt_oneshots r t \<noteq> Open"
  shows "rt_oneshots (deliver s v r) t = rt_oneshots r t"
    and "rt_oneshots (cancel_all err r) t = rt_oneshots r t"
proof -
  have out: "Response t \<notin> snd ` set (rt_inner r)"
    using assms by (auto simp: own_def open_calls_def simp flip: ids_iff)
  then show "rt_oneshots (deliver s v r) t = rt_oneshots r t"
    by (force simp: deliver_oneshots split: option.splits pending_call.splits dest: map_of_SomeD)
  from out show "rt_oneshots (cancel_all err r) t = rt_oneshots r t"
    by (auto simp: cancel_all_def Let_def fold_cancel_oneshots)
qed

lemma fold_deliver_resolved:
  assumes "own held loose r" "rt_oneshots r t \<noteq> Open"
  shows "rt_oneshots (fold (\<lambda>(s, v). deliver s v) ds r) t = rt_oneshots r t"
  using assms
  by (induction ds arbitrary: r) (auto simp: resolved_call_stable own_deliver)

lemma fold_deliver_own: "own held loose r \<Longrightarrow> own held loose (fold (\<lambda>(s, v). deliver s v) ds r)"
  by (induction ds arbitrary: r) (auto intro: own_deliver)

lemma fold_deliver_oneshot:
  assumes "own held loose r" "map_of (rt_inner r) seq = Some (Response t)"
  shows "case find (\<lambda>d. fst d = seq) ds of
      Some d \<Rightarrow> rt_oneshots (fold (\<lambda>(s, v). deliver s v) ds r) t = Sent (snd d)
    | None \<Rightarrow> map_of (rt_inner (fold (\<lambda>(s, v). deliver s v) ds r)) seq = Some (Response t)"
  using assms
proof (induction ds arbitrary: r)
  case (Cons d ds)
  obtain s v where d: "d = (s, v)" by fastforce
  show ?case
  proof (cases "s = seq")
    case True
    with Cons.prems have "rt_oneshots (deliver s v r) t = Sent v" by (simp add: deliver_oneshots)
    with fold_deliver_resolved [OF own_deliver [OF Cons.prems(1), of s v], of t ds] True d show ?thesis by simp
  next
    case False
    with Cons.IH [OF own_deliver [OF Cons.prems(1), of s v]] Cons.prems d show ?thesis
      by (simp add: deliver_inner_other split: option.splits)
  qed
qed simp

text \<open>
  A one-shot caller gets the first result delivered under its sequence number after it was
  registered; if there is none, a cancellation gives it the error; and no later delivery or
  cancellation reaches or changes it.
\<close>

theorem oneshot_delivery:
  assumes "own (tx # held) loose r"
  shows "let r' = cancel_all err (fold (\<lambda>(s, v). deliver s v) ds (register_with_sender seq tx r)) in
    rt_oneshots (fold (\<lambda>(s, v). deliver s v) late r') tx =
      (case find (\<lambda>d. fst d = seq) ds of Some d \<Rightarrow> Sent (snd d) | None \<Rightarrow> Sent (Inl err))"
proof -
  let ?r0 = "register_with_sender seq tx r"
  let ?r1 = "fold (\<lambda>(s, v). deliver s v) ds ?r0"
  have o: "own held loose ?r0" using assms by (rule own_register_with_sender)
  then have o1: "own held loose ?r1" by (rule fold_deliver_own)
  have "map_of (rt_inner ?r0) seq = Some (Response tx)"
    by (simp add: register_with_sender_def insert_call_def Let_def hashmap_simps)
  note first = fold_deliver_oneshot [OF o this, of ds]
  have "rt_oneshots (cancel_all err ?r1) tx =
      (case find (\<lambda>d. fst d = seq) ds of Some d \<Rightarrow> Sent (snd d) | None \<Rightarrow> Sent (Inl err))"
  proof (cases "find (\<lambda>d. fst d = seq) ds")
    case None
    with first have "Response tx \<in> snd ` set (rt_inner ?r1)" by (force dest: map_of_SomeD)
    with None show ?thesis by (simp add: cancel_all_def Let_def fold_cancel_oneshots)
  next
    case (Some d)
    with first resolved_call_stable(2) [OF o1, of tx] show ?thesis by simp
  qed
  with fold_deliver_resolved [OF own_cancel_all [OF o1, of err], of tx late] show ?thesis
    by (simp add: Let_def split: option.splits)
qed

theorem oneshot_delivery_witness:
  "let r' = cancel_all StreamDown (fold (\<lambda>(s, v). deliver s v) [(3, Inl NodeClosed), (7, Inl Cancelled)]
         (register_with_sender 7 1 (snd (oneshot_channel demo_router)))) in
    rt_oneshots (fold (\<lambda>(s, v). deliver s v) [(7, Inl NodeClosed)] r') 1 = Sent (Inl Cancelled)"
proof -
  have "own [1] [] (snd (oneshot_channel demo_router))"
    by (rule own_oneshot_channel [OF demo_router_own])
      (simp add: demo_router_def register_stream_def register_with_sender_def insert_call_def oneshot_channel_def
        router_new_def)
  from oneshot_delivery [OF this, of StreamDown "[(3, Inl NodeClosed), (7, Inl Cancelled)]" 7 "[(7, Inl NodeClosed)]"]
  show ?thesis by simp
qed

end
