(* ===== verification/Channel.thy ===== *)
theory Channel
  imports Router Node_Config
begin

text \<open>
  \<^verbatim>\<open>src/channel.rs\<close>: the channel of one node. The record is everything the background task
  \<^verbatim>\<open>run_node\<close>, the receive task it spawns and the handles share; each operation below is one atomic
  section of the code, from one \<^verbatim>\<open>await\<close> point or lock to the next, and the step relation at the end
  interleaves them with the outside world (the transport, the callers, the subscribers).
\<close>

definition STATUS_STREAM_DONE :: u32 where
  "STATUS_STREAM_DONE = 0xFFFFFFFE"

record outbound_request =
  or_msg :: message
  or_response_tx :: "nat option"
  or_send_ack :: "nat option"

text \<open>Where \<^verbatim>\<open>run_node\<close> is: at the top of its loop, in one of its awaits, or ended.\<close>

datatype phase =
    Loop_Top | Dialling | Opening
  | Serving                     \<comment> \<open>in \<^verbatim>\<open>sender_loop\<close>, at \<^verbatim>\<open>send_rx.recv()\<close>\<close>
  | Sending outbound_request    \<comment> \<open>in \<^verbatim>\<open>sender_loop\<close>, a request taken and not yet written\<close>
  | Backoff nat                 \<comment> \<open>asleep, in milliseconds\<close>
  | Ended                       \<comment> \<open>returned after a clean shutdown\<close>
  | Died                        \<comment> \<open>the task panicked\<close>

text \<open>
  \<open>ch_log\<close>, \<open>ch_accepted\<close> and \<open>ch_written\<close> are history: every status the task published, every message
  the send queue took, and every message the task has finished with, with whether it reached the wire.
\<close>

record chan =
  ch_router :: router
  ch_acks :: "nat \<Rightarrow> (error + unit) oneshot"
  ch_next_ack :: nat
  ch_queue :: "outbound_request list"
  ch_handles :: bool            \<comment> \<open>some handle, and with it \<^verbatim>\<open>send_tx\<close>, is alive\<close>
  ch_seq :: u64
  ch_status :: node_status      \<comment> \<open>the value of the watch channel\<close>
  ch_subscribers :: nat         \<comment> \<open>its receivers\<close>
  ch_phase :: phase
  ch_first_attempt :: bool
  ch_wire :: "message list"     \<comment> \<open>written on the current stream\<close>
  ch_wire_open :: bool          \<comment> \<open>the transport still holds \<^verbatim>\<open>wire_rx\<close>\<close>
  ch_receiving :: bool          \<comment> \<open>\<^verbatim>\<open>receive_loop\<close> of the current stream is running\<close>
  ch_stale :: nat               \<comment> \<open>aborted receive tasks that have not stopped yet\<close>
  ch_log :: "node_status list"
  ch_accepted :: "message list"
  ch_written :: "(message \<times> bool) list"

section \<open>The handle\<close>

definition connect :: "router \<Rightarrow> chan" where
  "connect r = \<lparr>ch_router = r, ch_acks = (\<lambda>_. Open), ch_next_ack = 0, ch_queue = [], ch_handles = True,
     ch_seq = 0, ch_status = Connecting, ch_subscribers = 0, ch_phase = Loop_Top, ch_first_attempt = True,
     ch_wire = [], ch_wire_open = False, ch_receiving = False, ch_stale = 0,
     ch_log = [], ch_accepted = [], ch_written = []\<rparr>"

definition task_alive :: "chan \<Rightarrow> bool" where
  "task_alive c \<longleftrightarrow> ch_phase c \<noteq> Ended \<and> ch_phase c \<noteq> Died"

definition ack_send :: "nat option \<Rightarrow> error + unit \<Rightarrow> chan \<Rightarrow> chan" where
  "ack_send a v c = (case a of Some t \<Rightarrow> c\<lparr>ch_acks := (ch_acks c)(t := Sent v)\<rparr> | None \<Rightarrow> c)"

definition drop_request :: "outbound_request \<Rightarrow> chan \<Rightarrow> chan" where
  "drop_request req c =
     (let c = (case or_response_tx req of Some t \<Rightarrow> c\<lparr>ch_router := oneshot_drop t (ch_router c)\<rparr> | None \<Rightarrow> c)
      in case or_send_ack req of Some t \<Rightarrow> c\<lparr>ch_acks := (ch_acks c)(t := Dropped)\<rparr> | None \<Rightarrow> c)"

definition enqueue :: "outbound_request \<Rightarrow> chan \<Rightarrow> (error + unit) \<times> chan" where
  "enqueue req c =
     (if task_alive c then (Inr (), c\<lparr>ch_queue := ch_queue c @ [req], ch_accepted := ch_accepted c @ [or_msg req]\<rparr>)
      else (Inl NodeClosed, drop_request req c))"

text \<open>\<^verbatim>\<open>fetch_add\<close> wraps; the addition after it is overflow-checked.\<close>

text \<open>
  \<^verbatim>\<open>fetch_add\<close> wraps; the \<^verbatim>\<open>+ 1\<close> after it panics on overflow in builds with overflow checks, which is what
  is modelled. A release build wraps there too.
\<close>

definition next_seq :: "chan \<Rightarrow> u64 option \<times> chan" where
  "next_seq c = (checked_inc (ch_seq c), c\<lparr>ch_seq := ch_seq c + 1\<rparr>)"

definition ch_register_stream :: "u64 \<Rightarrow> chan \<Rightarrow> nat \<times> chan" where
  "ch_register_stream seq c =
     (case register_stream seq (ch_router c) of (t, r) \<Rightarrow> (t, c\<lparr>ch_router := r\<rparr>))"

definition current_status :: "chan \<Rightarrow> node_status" where
  "current_status c = ch_status c"

definition subscribe_status :: "chan \<Rightarrow> chan" where
  "subscribe_status c = c\<lparr>ch_subscribers := Suc (ch_subscribers c)\<rparr>"

text \<open>
  What a caller does around \<^verbatim>\<open>enqueue\<close>: it creates the reply and the acknowledgement channel it
  wants and moves the senders into the request.
\<close>

definition submit :: "message \<Rightarrow> bool \<Rightarrow> bool \<Rightarrow> chan \<Rightarrow> (error + unit) \<times> nat option \<times> nat option \<times> chan" where
  "submit m want_reply want_ack c =
     (let (rt, c) = (if want_reply
            then (case oneshot_channel (ch_router c) of (t, r) \<Rightarrow> (Some t, c\<lparr>ch_router := r\<rparr>)) else (None, c));
          (ak, c) = (if want_ack
            then (Some (ch_next_ack c),
                  c\<lparr>ch_acks := (ch_acks c)(ch_next_ack c := Open), ch_next_ack := Suc (ch_next_ack c)\<rparr>)
            else (None, c));
          (res, c) = enqueue \<lparr>or_msg = m, or_response_tx = rt, or_send_ack = ak\<rparr> c
      in (res, rt, ak, c))"

section \<open>The background task\<close>

text \<open>
  \<^verbatim>\<open>watch::Sender::send\<close> stores the value only while the channel has a receiver, and the task ignores
  the error.
\<close>

definition status_send :: "node_status \<Rightarrow> chan \<Rightarrow> chan" where
  "status_send st c =
     (let c = c\<lparr>ch_log := ch_log c @ [st]\<rparr>
      in if ch_subscribers c = 0 then c else c\<lparr>ch_status := st\<rparr>)"

definition run_node_top :: "chan \<Rightarrow> chan" where
  "run_node_top c =
     (let connecting_status = (if ch_first_attempt c then Connecting else Reconnecting)
      in (status_send connecting_status c)\<lparr>ch_phase := Dialling\<rparr>)"

definition starts_with :: "string \<Rightarrow> string \<Rightarrow> bool" where
  "starts_with s p \<longleftrightarrow> take (length p) s = p"

definition connect_uri :: "string \<Rightarrow> string" where
  "connect_uri addr =
     (if starts_with addr ''http://'' \<or> starts_with addr ''https://'' then addr else ''http://'' @ addr)"

text \<open>The task unwinds: \<^verbatim>\<open>send_rx\<close> is dropped and with it every queued request.\<close>

definition task_panic :: "chan \<Rightarrow> chan" where
  "task_panic c = (fold drop_request (ch_queue c) c)\<lparr>ch_queue := [], ch_phase := Died\<rparr>"

text \<open>The outcomes of \<^verbatim>\<open>try_connect\<close> and of opening the stream.\<close>

definition connect_err :: "nat \<Rightarrow> chan \<Rightarrow> chan" where
  "connect_err pause c = (status_send Unreachable c)\<lparr>ch_first_attempt := False, ch_phase := Backoff pause\<rparr>"

definition try_connect :: "(string \<Rightarrow> bool) \<Rightarrow> string \<Rightarrow> bool \<Rightarrow> chan \<Rightarrow> chan" where
  "try_connect valid_uri addr dialled c =
     (if \<not> valid_uri (connect_uri addr) then task_panic c
      else if dialled then c\<lparr>ch_phase := Opening\<rparr>
      else connect_err 500 c)"

definition stream_open :: "bool \<Rightarrow> chan \<Rightarrow> chan" where
  "stream_open opened c =
     (if opened
      then (status_send Connected c)\<lparr>ch_first_attempt := False, ch_wire := [], ch_wire_open := True,
              ch_receiving := True, ch_phase := Serving\<rparr>
      else connect_err 200 c)"

definition abort_receiver :: "chan \<Rightarrow> chan" where
  "abort_receiver c =
     (if ch_receiving c then c\<lparr>ch_receiving := False, ch_stale := Suc (ch_stale c)\<rparr> else c)"

text \<open>
  \<^verbatim>\<open>sender_loop\<close> up to the write: \<open>None\<close> when it is suspended on an empty queue. With an empty queue
  and no handle left it returns \<^verbatim>\<open>false\<close>, and \<^verbatim>\<open>run_node\<close> takes its shutdown branch.
\<close>

definition sender_recv :: "chan \<Rightarrow> chan option" where
  "sender_recv c =
     (case ch_queue c of
        [] \<Rightarrow> (if ch_handles c then None
              else Some ((status_send Closed (abort_receiver c))\<lparr>ch_phase := Ended\<rparr>))
      | req # queue \<Rightarrow>
          (let c = c\<lparr>ch_queue := queue\<rparr>;
               c = (case or_response_tx req of
                      Some resp_tx \<Rightarrow>
                        c\<lparr>ch_router := register_with_sender (msg_seq_no (or_msg req)) resp_tx (ch_router c)\<rparr>
                    | None \<Rightarrow> c)
           in Some (c\<lparr>ch_phase := Sending req\<rparr>)))"

definition stream_died :: "chan \<Rightarrow> chan" where
  "stream_died c =
     (let c = status_send Reconnecting (abort_receiver c)
      in c\<lparr>ch_router := cancel_all StreamDown (ch_router c), ch_phase := Backoff 200\<rparr>)"

definition sender_write :: "outbound_request \<Rightarrow> chan \<Rightarrow> chan" where
  "sender_write req c =
     (let c = c\<lparr>ch_written := ch_written c @ [(or_msg req, ch_wire_open c)]\<rparr> in
      if ch_wire_open c
      then ack_send (or_send_ack req) (Inr ()) (c\<lparr>ch_wire := ch_wire c @ [or_msg req], ch_phase := Serving\<rparr>)
      else stream_died (ack_send (or_send_ack req) (Inl StreamDown) c))"

definition backoff_over :: "chan \<Rightarrow> chan" where
  "backoff_over c = c\<lparr>ch_phase := Loop_Top\<rparr>"

section \<open>The receive task\<close>

text \<open>
  One turn of \<^verbatim>\<open>receive_loop\<close>. \<open>from_i32\<close> is \<^verbatim>\<open>tonic::Code::from_i32\<close>, on the status code
  reinterpreted as a signed number.
\<close>

definition receive_result :: "(int \<Rightarrow> nat) \<Rightarrow> message \<Rightarrow> reply" where
  "receive_result from_i32 msg =
     (if msg_status_code msg = 0 then Inr msg
      else Inl (Transport (TonicStatus (from_i32 (sint (msg_status_code msg))) (msg_status_message msg))))"

definition receive_msg :: "(int \<Rightarrow> nat) \<Rightarrow> message \<Rightarrow> router \<Rightarrow> router" where
  "receive_msg from_i32 msg r =
     (let seq = msg_seq_no msg
      in if msg_status_code msg = STATUS_STREAM_DONE then close_stream seq r
         else deliver seq (receive_result from_i32 msg) r)"

definition receive_err :: "tonic_status \<Rightarrow> router \<Rightarrow> router" where
  "receive_err e r = cancel_all (Transport e) r"

section \<open>Interleaving\<close>

text \<open>
  The tasks and the world around them. An aborted receive task may still finish what it is doing
  before it stops. When everything that holds the router is gone, the router is dropped.
\<close>

inductive chan_step :: "(string \<Rightarrow> bool) \<Rightarrow> (int \<Rightarrow> nat) \<Rightarrow> string \<Rightarrow> chan \<Rightarrow> chan \<Rightarrow> bool"
  for valid_uri from_i32 addr
where
  top: "ch_phase c = Loop_Top \<Longrightarrow> chan_step valid_uri from_i32 addr c (run_node_top c)"
| dial: "ch_phase c = Dialling \<Longrightarrow> chan_step valid_uri from_i32 addr c (try_connect valid_uri addr dialled c)"
| open_stream: "ch_phase c = Opening \<Longrightarrow> chan_step valid_uri from_i32 addr c (stream_open opened c)"
| recv: "ch_phase c = Serving \<Longrightarrow> sender_recv c = Some c' \<Longrightarrow> chan_step valid_uri from_i32 addr c c'"
| wr: "ch_phase c = Sending req \<Longrightarrow> chan_step valid_uri from_i32 addr c (sender_write req c)"
| wake: "ch_phase c = Backoff ms \<Longrightarrow> chan_step valid_uri from_i32 addr c (backoff_over c)"
| inbound: "ch_receiving c \<Longrightarrow>
    chan_step valid_uri from_i32 addr c (c\<lparr>ch_router := receive_msg from_i32 msg (ch_router c)\<rparr>)"
| inbound_end: "ch_receiving c \<Longrightarrow> chan_step valid_uri from_i32 addr c (c\<lparr>ch_receiving := False\<rparr>)"
| inbound_err: "ch_receiving c \<Longrightarrow>
    chan_step valid_uri from_i32 addr c (c\<lparr>ch_router := receive_err e (ch_router c), ch_receiving := False\<rparr>)"
| stale_msg: "0 < ch_stale c \<Longrightarrow> chan_step valid_uri from_i32 addr c
    (c\<lparr>ch_router := receive_msg from_i32 msg (ch_router c), ch_stale := ch_stale c - 1\<rparr>)"
| stale_err: "0 < ch_stale c \<Longrightarrow> chan_step valid_uri from_i32 addr c
    (c\<lparr>ch_router := receive_err e (ch_router c), ch_stale := ch_stale c - 1\<rparr>)"
| stale_stop: "0 < ch_stale c \<Longrightarrow> chan_step valid_uri from_i32 addr c (c\<lparr>ch_stale := ch_stale c - 1\<rparr>)"
| wire_lost: "chan_step valid_uri from_i32 addr c (c\<lparr>ch_wire_open := False\<rparr>)"
| call_seq: "ch_handles c \<Longrightarrow> next_seq c = (seq, c') \<Longrightarrow> chan_step valid_uri from_i32 addr c c'"
| call_submit: "ch_handles c \<Longrightarrow> submit m want_reply want_ack c = (res, rt, ak, c') \<Longrightarrow>
    chan_step valid_uri from_i32 addr c c'"
| call_stream: "ch_handles c \<Longrightarrow> ch_register_stream seq c = (t, c') \<Longrightarrow> chan_step valid_uri from_i32 addr c c'"
| forget_stream: "chan_step valid_uri from_i32 addr c (c\<lparr>ch_router := stream_forget t (ch_router c)\<rparr>)"
| subscribe: "ch_handles c \<Longrightarrow> chan_step valid_uri from_i32 addr c (subscribe_status c)"
| unsubscribe: "0 < ch_subscribers c \<Longrightarrow>
    chan_step valid_uri from_i32 addr c (c\<lparr>ch_subscribers := ch_subscribers c - 1\<rparr>)"
| drop_handles: "chan_step valid_uri from_i32 addr c (c\<lparr>ch_handles := False\<rparr>)"
| drop_router: "\<not> task_alive c \<Longrightarrow> \<not> ch_handles c \<Longrightarrow> \<not> ch_receiving c \<Longrightarrow> ch_stale c = 0 \<Longrightarrow>
    chan_step valid_uri from_i32 addr c (c\<lparr>ch_router := router_drop (ch_router c)\<rparr>)"

inductive chan_reach :: "(string \<Rightarrow> bool) \<Rightarrow> (int \<Rightarrow> nat) \<Rightarrow> string \<Rightarrow> chan \<Rightarrow> bool"
  for valid_uri from_i32 addr
where
  start: "chan_reach valid_uri from_i32 addr (connect router_new)"
| step: "chan_reach valid_uri from_i32 addr c \<Longrightarrow> chan_step valid_uri from_i32 addr c c' \<Longrightarrow>
    chan_reach valid_uri from_i32 addr c'"

section \<open>Ownership of the reply and acknowledgement channels\<close>

definition held_replies :: "chan \<Rightarrow> nat list" where
  "held_replies c = List.map_filter or_response_tx (ch_queue c)"

fun in_flight :: "phase \<Rightarrow> outbound_request list" where
  "in_flight (Sending req) = [req]"
| "in_flight _ = []"

definition held_acks :: "chan \<Rightarrow> nat list" where
  "held_acks c = List.map_filter or_send_ack (in_flight (ch_phase c) @ ch_queue c)"

definition open_acks :: "chan \<Rightarrow> nat set" where
  "open_acks c = {t. t < ch_next_ack c \<and> ch_acks c t = Open}"

definition chan_own :: "chan \<Rightarrow> bool" where
  "chan_own c \<longleftrightarrow> own (held_replies c) [] (ch_router c)
     \<and> distinct (held_acks c) \<and> set (held_acks c) = open_acks c"

lemma status_send_simps [simp]:
  "ch_router (status_send st c) = ch_router c" "ch_acks (status_send st c) = ch_acks c"
  "ch_next_ack (status_send st c) = ch_next_ack c" "ch_seq (status_send st c) = ch_seq c" "ch_queue (status_send st c) = ch_queue c"
  "ch_handles (status_send st c) = ch_handles c" "ch_phase (status_send st c) = ch_phase c"
  "ch_first_attempt (status_send st c) = ch_first_attempt c" "ch_wire (status_send st c) = ch_wire c"
  "ch_accepted (status_send st c) = ch_accepted c" "ch_written (status_send st c) = ch_written c"
  "ch_log (status_send st c) = ch_log c @ [st]" "ch_subscribers (status_send st c) = ch_subscribers c"
  "ch_status (status_send st c) = (if ch_subscribers c = 0 then ch_status c else st)"
  by (simp_all add: status_send_def Let_def)

lemma abort_receiver_simps [simp]:
  "ch_router (abort_receiver c) = ch_router c" "ch_acks (abort_receiver c) = ch_acks c"
  "ch_next_ack (abort_receiver c) = ch_next_ack c" "ch_seq (abort_receiver c) = ch_seq c" "ch_queue (abort_receiver c) = ch_queue c"
  "ch_handles (abort_receiver c) = ch_handles c" "ch_phase (abort_receiver c) = ch_phase c"
  "ch_first_attempt (abort_receiver c) = ch_first_attempt c" "ch_wire (abort_receiver c) = ch_wire c"
  "ch_accepted (abort_receiver c) = ch_accepted c" "ch_written (abort_receiver c) = ch_written c"
  "ch_log (abort_receiver c) = ch_log c" "ch_subscribers (abort_receiver c) = ch_subscribers c"
  "ch_status (abort_receiver c) = ch_status c"
  by (simp_all add: abort_receiver_def)

lemma ack_send_simps [simp]:
  "ch_router (ack_send a v c) = ch_router c" "ch_next_ack (ack_send a v c) = ch_next_ack c" "ch_seq (ack_send a v c) = ch_seq c"
  "ch_queue (ack_send a v c) = ch_queue c" "ch_handles (ack_send a v c) = ch_handles c"
  "ch_phase (ack_send a v c) = ch_phase c" "ch_first_attempt (ack_send a v c) = ch_first_attempt c"
  "ch_wire (ack_send a v c) = ch_wire c" "ch_accepted (ack_send a v c) = ch_accepted c"
  "ch_written (ack_send a v c) = ch_written c" "ch_log (ack_send a v c) = ch_log c"
  "ch_subscribers (ack_send a v c) = ch_subscribers c" "ch_status (ack_send a v c) = ch_status c"
  "ch_acks (ack_send a v c) = (case a of Some t \<Rightarrow> (ch_acks c)(t := Sent v) | None \<Rightarrow> ch_acks c)"
  by (simp_all add: ack_send_def split: option.splits)

lemma drop_request_simps [simp]:
  "ch_next_ack (drop_request req c) = ch_next_ack c" "ch_seq (drop_request req c) = ch_seq c"
  "ch_queue (drop_request req c) = ch_queue c" "ch_handles (drop_request req c) = ch_handles c"
  "ch_phase (drop_request req c) = ch_phase c" "ch_first_attempt (drop_request req c) = ch_first_attempt c"
  "ch_wire (drop_request req c) = ch_wire c" "ch_accepted (drop_request req c) = ch_accepted c"
  "ch_written (drop_request req c) = ch_written c" "ch_log (drop_request req c) = ch_log c"
  "ch_subscribers (drop_request req c) = ch_subscribers c" "ch_status (drop_request req c) = ch_status c"
  "ch_acks (drop_request req c) = (case or_send_ack req of Some t \<Rightarrow> (ch_acks c)(t := Dropped) | None \<Rightarrow> ch_acks c)"
  "ch_router (drop_request req c) = (case or_response_tx req of Some t \<Rightarrow> oneshot_drop t (ch_router c) | None \<Rightarrow> ch_router c)"
  by (simp_all add: drop_request_def Let_def split: option.splits)

text \<open>Discarding a list of requests consumes exactly the senders they hold.\<close>

lemma own_fold_drop:
  "own (List.map_filter or_response_tx reqs @ held) loose (ch_router c) \<Longrightarrow>
     own held loose (ch_router (fold drop_request reqs c))"
proof (induction reqs arbitrary: c)
  case (Cons req reqs)
  then show ?case
    by (cases "or_response_tx req") (auto simp: List.map_filter_simps intro!: Cons.IH own_oneshot_drop)
qed (simp add: List.map_filter_simps)

lemma fold_drop_acks:
  "ch_acks (fold drop_request reqs c) t =
     (if t \<in> set (List.map_filter or_send_ack reqs) then Dropped else ch_acks c t)"
  "ch_next_ack (fold drop_request reqs c) = ch_next_ack c"
  by (induction reqs arbitrary: c) (auto simp: List.map_filter_simps split: option.splits)

lemma held_simps [simp]:
  "held_replies (c\<lparr>ch_phase := p\<rparr>) = held_replies c"
  "open_acks (c\<lparr>ch_phase := p\<rparr>) = open_acks c"
  by (simp_all add: held_replies_def open_acks_def)

text \<open>A step that only touches the registry, or neither queue nor acknowledgements.\<close>

lemma chan_own_router:
  assumes "chan_own c" and "own (held_replies c) [] r'"
    and "ch_router c' = r'" "ch_queue c' = ch_queue c" "in_flight (ch_phase c') = in_flight (ch_phase c)"
    and "ch_acks c' = ch_acks c" "ch_next_ack c' = ch_next_ack c"
  shows "chan_own c'"
  using assms by (simp add: chan_own_def held_replies_def held_acks_def open_acks_def)

lemma chan_own_same:
  assumes "chan_own c" and "ch_router c' = ch_router c" "ch_queue c' = ch_queue c"
    and "in_flight (ch_phase c') = in_flight (ch_phase c)" "ch_acks c' = ch_acks c" "ch_next_ack c' = ch_next_ack c"
  shows "chan_own c'"
  using chan_own_router [OF assms(1) _ assms(2-6)] assms(1) by (simp add: chan_own_def)

lemma chan_own_upd [simp]:
  "chan_own (c\<lparr>ch_receiving := b\<rparr>) = chan_own c" "chan_own (c\<lparr>ch_stale := n\<rparr>) = chan_own c"
  "chan_own (c\<lparr>ch_wire_open := b\<rparr>) = chan_own c" "chan_own (c\<lparr>ch_handles := b\<rparr>) = chan_own c"
  "chan_own (c\<lparr>ch_subscribers := n\<rparr>) = chan_own c" "chan_own (c\<lparr>ch_seq := sq\<rparr>) = chan_own c"
  by (simp_all add: chan_own_def held_replies_def held_acks_def open_acks_def)

lemma chan_own_registry:
  "chan_own c \<Longrightarrow> (\<And>held. own held [] (ch_router c) \<Longrightarrow> own held [] r') \<Longrightarrow> chan_own (c\<lparr>ch_router := r'\<rparr>)"
  by (simp add: chan_own_def held_replies_def held_acks_def open_acks_def)

lemma chan_own_ownD: "chan_own c \<Longrightarrow> own (held_replies c) [] (ch_router c)"
  by (simp add: chan_own_def)

lemma own_receive_msg [own_intros]: "own held loose r \<Longrightarrow> own held loose (receive_msg f msg r)"
  by (auto simp: receive_msg_def Let_def intro: own_intros)

lemma own_receive_err [own_intros]: "own held loose r \<Longrightarrow> own held loose (receive_err e r)"
  by (simp add: receive_err_def own_cancel_all)

lemma chan_own_panic:
  assumes "chan_own c" and "in_flight (ch_phase c) = []"
  shows "chan_own (task_panic c)"
  using assms own_fold_drop [of "ch_queue c" "[]" "[]" c]
  by (auto simp: chan_own_def task_panic_def held_replies_def held_acks_def open_acks_def fold_drop_acks
      List.map_filter_simps)

lemma chan_own_try_connect: "chan_own c \<Longrightarrow> ch_phase c = Dialling \<Longrightarrow> chan_own (try_connect v a b c)"
  by (auto simp: try_connect_def connect_err_def intro: chan_own_panic chan_own_same)

lemma chan_own_sender_recv:
  assumes "chan_own c" "ch_phase c = Serving" "sender_recv c = Some c'"
  shows "chan_own c'"
proof (cases "ch_queue c")
  case Nil
  with assms show ?thesis
    by (auto simp: sender_recv_def split: if_splits intro: chan_own_same)
next
  case (Cons req queue)
  have c': "ch_queue c' = queue" "ch_phase c' = Sending req" "ch_acks c' = ch_acks c" "ch_next_ack c' = ch_next_ack c"
    "ch_router c' = (case or_response_tx req of
       Some t \<Rightarrow> register_with_sender (msg_seq_no (or_msg req)) t (ch_router c) | None \<Rightarrow> ch_router c)"
    using assms(3) Cons by (auto simp: sender_recv_def Let_def split: option.splits)
  have "own (held_replies c') [] (ch_router c')"
    using chan_own_ownD [OF assms(1)] Cons c'
    by (auto simp: held_replies_def List.map_filter_simps split: option.splits intro: own_register_with_sender)
  moreover have "held_acks c' = held_acks c" "open_acks c' = open_acks c"
    using assms(2) Cons c' by (simp_all add: held_acks_def open_acks_def)
  ultimately show ?thesis using assms(1) by (simp add: chan_own_def)
qed

lemma chan_own_sender_write:
  assumes "chan_own c" "ch_phase c = Sending req"
  shows "chan_own (sender_write req c)"
proof (cases "or_send_ack req")
  case None
  with assms show ?thesis
    by (auto simp: sender_write_def stream_died_def chan_own_def held_replies_def held_acks_def open_acks_def
        Let_def List.map_filter_simps intro: own_cancel_all)
next
  case (Some t)
  with assms show ?thesis
    by (auto simp: sender_write_def stream_died_def chan_own_def held_replies_def held_acks_def open_acks_def
        Let_def List.map_filter_simps intro: own_cancel_all)
qed

lemma map_filter_snoc: "List.map_filter f (xs @ [x]) = List.map_filter f xs @ (case f x of Some y \<Rightarrow> [y] | None \<Rightarrow> [])"
  by (induction xs) (auto simp: List.map_filter_simps split: option.splits)

lemma chan_own_enqueue:
  assumes "own ((case or_response_tx req of Some t \<Rightarrow> [t] | None \<Rightarrow> []) @ held_replies c) [] (ch_router c)"
    and "distinct ((case or_send_ack req of Some t \<Rightarrow> [t] | None \<Rightarrow> []) @ held_acks c)"
    and "set ((case or_send_ack req of Some t \<Rightarrow> [t] | None \<Rightarrow> []) @ held_acks c) = open_acks c"
    and "enqueue req c = (res, c')"
  shows "chan_own c'"
proof (cases "task_alive c")
  case True
  let ?c = "c\<lparr>ch_queue := ch_queue c @ [req], ch_accepted := ch_accepted c @ [or_msg req]\<rparr>"
  have "mset ((case or_response_tx req of Some t \<Rightarrow> [t] | None \<Rightarrow> []) @ held_replies c) = mset (held_replies ?c)"
    by (simp add: held_replies_def map_filter_snoc split: option.splits)
  with assms(1) have "own (held_replies ?c) [] (ch_router ?c)" by (auto intro: own_perm)
  moreover have ak: "mset (held_acks ?c) = mset ((case or_send_ack req of Some t \<Rightarrow> [t] | None \<Rightarrow> []) @ held_acks c)"
    by (simp add: held_acks_def map_filter_snoc flip: append_assoc split: option.splits)
  have "distinct (held_acks ?c)" using mset_eq_imp_distinct_iff [OF ak] assms(2) by simp
  moreover have "set (held_acks ?c) = open_acks ?c"
    using mset_eq_setD [OF ak] assms(3) by (simp add: open_acks_def)
  ultimately have "chan_own ?c" by (simp add: chan_own_def)
  with True assms(4) show ?thesis by (auto simp: enqueue_def)
next
  case False
  let ?c = "drop_request req c"
  have "held_replies ?c = held_replies c" "held_acks ?c = held_acks c"
    by (simp_all add: held_replies_def held_acks_def)
  moreover have "own (held_replies c) [] (ch_router ?c)"
    using assms(1) by (cases "or_response_tx req") (simp_all add: own_oneshot_drop)
  moreover have "set (held_acks c) = open_acks ?c"
    using assms(2,3) by (cases "or_send_ack req") (auto simp: open_acks_def set_eq_iff)
  ultimately have "chan_own ?c" using assms(2) by (simp add: chan_own_def)
  with False assms(4) show ?thesis by (simp add: enqueue_def)
qed

text \<open>A submission is an \<^verbatim>\<open>enqueue\<close> in a state that holds the fresh senders.\<close>

lemma submit_elim:
  assumes c: "chan_own c" and sub: "submit m want_reply want_ack c = (res, rt, ak, c')"
  obtains c2 where "enqueue \<lparr>or_msg = m, or_response_tx = rt, or_send_ack = ak\<rparr> c2 = (res, c')"
    and "own ((case rt of Some t \<Rightarrow> [t] | None \<Rightarrow> []) @ held_replies c2) [] (ch_router c2)"
    and "distinct ((case ak of Some t \<Rightarrow> [t] | None \<Rightarrow> []) @ held_acks c2)"
    and "set ((case ak of Some t \<Rightarrow> [t] | None \<Rightarrow> []) @ held_acks c2) = open_acks c2"
    and "keeps (ch_router c) (ch_router c2)"
    and "c2 = c\<lparr>ch_router := ch_router c2, ch_acks := ch_acks c2, ch_next_ack := ch_next_ack c2\<rparr>"
proof -
  define c1 where "c1 = (if want_reply then c\<lparr>ch_router := snd (oneshot_channel (ch_router c))\<rparr> else c)"
  define c2 where "c2 = (if want_ack then c1\<lparr>ch_acks := (ch_acks c1)(ch_next_ack c1 := Open),
      ch_next_ack := Suc (ch_next_ack c1)\<rparr> else c1)"
  have rt: "rt = (if want_reply then Some (fst (oneshot_channel (ch_router c))) else None)"
    and ak: "ak = (if want_ack then Some (ch_next_ack c1) else None)"
    and enq: "enqueue \<lparr>or_msg = m, or_response_tx = rt, or_send_ack = ak\<rparr> c2 = (res, c')"
    using sub by (auto simp: submit_def c1_def c2_def Let_def split: prod.splits if_splits)
  have same: "held_replies c2 = held_replies c" "held_acks c2 = held_acks c"
    "ch_next_ack c1 = ch_next_ack c" "ch_acks c1 = ch_acks c" "ch_router c2 = ch_router c1"
    by (simp_all add: c1_def c2_def held_replies_def held_acks_def)
  have "own ((case rt of Some t \<Rightarrow> [t] | None \<Rightarrow> []) @ held_replies c2) [] (ch_router c2)"
    using own_oneshot_channel [OF chan_own_ownD [OF c] surjective_pairing] chan_own_ownD [OF c]
    unfolding same rt by (simp add: c1_def)
  moreover have "set ((case ak of Some t \<Rightarrow> [t] | None \<Rightarrow> []) @ held_acks c2) = open_acks c2"
    using c same by (auto simp: ak c2_def open_acks_def chan_own_def less_Suc_eq)
  moreover have "distinct ((case ak of Some t \<Rightarrow> [t] | None \<Rightarrow> []) @ held_acks c2)"
    using c same by (auto simp: ak open_acks_def chan_own_def)
  moreover have "keeps (ch_router c) (ch_router c2)"
    using keeps_oneshot_channel [OF surjective_pairing] by (simp add: same(5)) (simp add: c1_def)
  moreover have "c2 = c\<lparr>ch_router := ch_router c2, ch_acks := ch_acks c2, ch_next_ack := ch_next_ack c2\<rparr>"
    by (simp add: c1_def c2_def)
  ultimately show thesis using enq that by blast
qed

lemma chan_own_submit:
  "chan_own c \<Longrightarrow> submit m want_reply want_ack c = (res, rt, ak, c') \<Longrightarrow> chan_own c'"
  by (erule (1) submit_elim) (rule chan_own_enqueue, auto)

lemma chan_own_step:
  assumes "chan_step valid_uri from_i32 addr c c'" and "chan_own c"
  shows "chan_own c'"
  using assms
proof (cases rule: chan_step.cases)
  case top
  with assms(2) show ?thesis by (auto simp: run_node_top_def Let_def intro: chan_own_same)
next
  case (dial dialled)
  with assms(2) show ?thesis by (simp add: chan_own_try_connect)
next
  case (open_stream opened)
  with assms(2) show ?thesis by (auto simp: stream_open_def connect_err_def intro: chan_own_same)
next
  case recv
  with assms(2) show ?thesis by (blast intro: chan_own_sender_recv)
next
  case (wr req)
  with assms(2) show ?thesis by (simp add: chan_own_sender_write)
next
  case (wake ms)
  with assms(2) show ?thesis by (auto simp: backoff_over_def intro: chan_own_same)
next
  case call_submit
  with assms(2) show ?thesis by (blast intro: chan_own_submit)
next
  case (call_stream seq t)
  obtain r where r: "register_stream seq (ch_router c) = (t, r)" "c' = c\<lparr>ch_router := r\<rparr>"
    using call_stream by (auto simp: ch_register_stream_def split: prod.splits)
  from own_register_stream [OF chan_own_ownD [OF assms(2)] r(1)] r(2) show ?thesis
    by (intro chan_own_router [OF assms(2)]) simp_all
next
  case call_seq
  with assms(2) show ?thesis by (auto simp: next_seq_def intro: chan_own_same)
qed (use assms(2) in \<open>auto simp: subscribe_status_def intro!: chan_own_registry
      intro: own_receive_msg own_receive_err own_stream_forget own_router_drop\<close>)

lemma chan_own_start: "chan_own (connect router_new)"
  using own_router_new
  by (simp add: chan_own_def connect_def held_replies_def held_acks_def open_acks_def List.map_filter_simps)

lemma chan_reach_own: "chan_reach valid_uri from_i32 addr c \<Longrightarrow> chan_own c"
  by (induction rule: chan_reach.induct) (auto intro: chan_own_start chan_own_step)

section \<open>Answered calls stay answered\<close>

lemma keeps_receive [keeps_intros]:
  "own held loose r \<Longrightarrow> keeps r (receive_msg f msg r)" "own held loose r \<Longrightarrow> keeps r (receive_err e r)"
  by (auto simp: receive_msg_def receive_err_def Let_def intro: keeps_intros)

lemma keeps_fold_drop:
  "own (List.map_filter or_response_tx reqs @ held) loose (ch_router c) \<Longrightarrow>
     keeps (ch_router c) (ch_router (fold drop_request reqs c))"
proof (induction reqs arbitrary: c)
  case (Cons req reqs)
  show ?case
  proof (cases "or_response_tx req")
    case None
    with Cons.IH [of "drop_request req c"] Cons.prems show ?thesis by (simp add: List.map_filter_simps)
  next
    case (Some t)
    with Cons.prems have o: "own (t # List.map_filter or_response_tx reqs @ held) loose (ch_router c)"
      by (simp add: List.map_filter_simps)
    from keeps_trans [OF keeps_oneshot_drop [OF o]] Cons.IH [of "drop_request req c"] own_oneshot_drop [OF o] Some
    show ?thesis by simp
  qed
qed simp

lemma sender_recv_router:
  "sender_recv c = Some c' \<Longrightarrow> own (held_replies c) [] (ch_router c) \<Longrightarrow> keeps (ch_router c) (ch_router c')"
  by (auto simp: sender_recv_def Let_def held_replies_def List.map_filter_simps
      split: list.splits if_splits option.splits intro: keeps_register)

lemma enqueue_router:
  "enqueue req c = (res, c') \<Longrightarrow>
     own ((case or_response_tx req of Some t \<Rightarrow> [t] | None \<Rightarrow> []) @ held) [] (ch_router c) \<Longrightarrow>
     keeps (ch_router c) (ch_router c')"
  by (cases "or_response_tx req") (auto simp: enqueue_def split: if_splits intro: keeps_oneshot_drop)

lemma submit_router:
  assumes c: "chan_own c" and sub: "submit m want_reply want_ack c = (res, rt, ak, c')"
  shows "keeps (ch_router c) (ch_router c')"
proof -
  obtain c2 where "enqueue \<lparr>or_msg = m, or_response_tx = rt, or_send_ack = ak\<rparr> c2 = (res, c')"
    "own ((case rt of Some t \<Rightarrow> [t] | None \<Rightarrow> []) @ held_replies c2) [] (ch_router c2)"
    "keeps (ch_router c) (ch_router c2)"
    using submit_elim [OF c sub] by blast
  with enqueue_router [of "\<lparr>or_msg = m, or_response_tx = rt, or_send_ack = ak\<rparr>" c2 res c' "held_replies c2"]
  show ?thesis by (auto intro: keeps_trans)
qed

lemma chan_step_keeps:
  assumes "chan_step valid_uri from_i32 addr c c'" and c: "chan_own c"
  shows "keeps (ch_router c) (ch_router c')"
  using assms(1)
proof (cases rule: chan_step.cases)
  case (dial dialled)
  with keeps_fold_drop [of "ch_queue c" "[]"] chan_own_ownD [OF c] show ?thesis
    by (simp add: try_connect_def task_panic_def connect_err_def held_replies_def)
next
  case recv
  with chan_own_ownD [OF c] show ?thesis by (simp add: sender_recv_router)
next
  case (wr req)
  with chan_own_ownD [OF c] show ?thesis
    by (auto simp: sender_write_def stream_died_def Let_def intro: keeps_cancel_all)
next
  case call_submit
  with c show ?thesis by (blast intro: submit_router)
next
  case (call_stream seq t)
  then obtain r where "register_stream seq (ch_router c) = (t, r)" "c' = c\<lparr>ch_router := r\<rparr>"
    by (auto simp: ch_register_stream_def split: prod.splits)
  with keeps_register_stream [OF chan_own_ownD [OF c]] show ?thesis by simp
qed (use chan_own_ownD [OF c] in \<open>auto simp: run_node_top_def stream_open_def connect_err_def backoff_over_def
      next_seq_def subscribe_status_def Let_def intro: keeps_receive keeps_streams keeps_router_drop\<close>)

definition keeps_acks :: "chan \<Rightarrow> chan \<Rightarrow> bool" where
  "keeps_acks c c' \<longleftrightarrow> ch_next_ack c \<le> ch_next_ack c'
     \<and> (\<forall>t < ch_next_ack c. ch_acks c t \<noteq> Open \<longrightarrow> ch_acks c' t = ch_acks c t)"

lemma keeps_acks_same: "ch_acks c' = ch_acks c \<Longrightarrow> ch_next_ack c' = ch_next_ack c \<Longrightarrow> keeps_acks c c'"
  by (simp add: keeps_acks_def)

lemma held_ack_open: "chan_own c \<Longrightarrow> req \<in> set (in_flight (ch_phase c) @ ch_queue c) \<Longrightarrow>
    or_send_ack req = Some t \<Longrightarrow> ch_acks c t = Open"
proof -
  assume "chan_own c" "req \<in> set (in_flight (ch_phase c) @ ch_queue c)" "or_send_ack req = Some t"
  moreover from this(2,3) have "t \<in> set (held_acks c)"
    unfolding held_acks_def set_map_filter by blast
  ultimately show ?thesis by (simp add: chan_own_def open_acks_def)
qed

lemma submit_acks:
  assumes "submit m want_reply want_ack c = (res, rt, ak, c')"
  shows "keeps_acks c c'"
  using assms
  by (auto simp: submit_def enqueue_def keeps_acks_def Let_def split: prod.splits if_splits option.splits)

lemma chan_step_keeps_acks:
  assumes "chan_step valid_uri from_i32 addr c c'" and c: "chan_own c"
  shows "keeps_acks c c'"
  using assms(1)
proof (cases rule: chan_step.cases)
  case (dial dialled)
  then show ?thesis
    using held_ack_open [OF c]
    by (fastforce simp: try_connect_def task_panic_def connect_err_def keeps_acks_def fold_drop_acks set_map_filter)
next
  case recv
  then show ?thesis
    by (auto simp: sender_recv_def Let_def split: list.splits if_splits option.splits intro!: keeps_acks_same)
next
  case (wr req)
  then show ?thesis
    using held_ack_open [OF c, of req]
    by (auto simp: sender_write_def stream_died_def Let_def keeps_acks_def split: option.splits)
next
  case call_submit
  then show ?thesis by (blast intro: submit_acks)
next
  case (call_stream seq t)
  then show ?thesis by (auto simp: ch_register_stream_def split: prod.splits intro!: keeps_acks_same)
qed (auto simp: run_node_top_def stream_open_def connect_err_def backoff_over_def
      next_seq_def subscribe_status_def Let_def intro!: keeps_acks_same)

section \<open>Published statuses\<close>

text \<open>What was published last, by where the task is.\<close>

fun last_status :: "phase \<Rightarrow> bool \<Rightarrow> node_status list \<Rightarrow> bool" where
  "last_status Loop_Top first log = (if first then log = [] else log \<noteq> [] \<and> last log \<in> {Unreachable, Reconnecting})"
| "last_status (Backoff ms) first log = (\<not> first \<and> log \<noteq> [] \<and> last log \<in> {Unreachable, Reconnecting})"
| "last_status Serving first log = (\<not> first \<and> log \<noteq> [] \<and> last log = Connected)"
| "last_status (Sending req) first log = (\<not> first \<and> log \<noteq> [] \<and> last log = Connected)"
| "last_status Ended first log = (log \<noteq> [] \<and> last log = Closed)"
| "last_status p first log = (log \<noteq> [] \<and> last log = (if first then Connecting else Reconnecting))"

definition status_inv :: "chan \<Rightarrow> bool" where
  "status_inv c \<longleftrightarrow> (ch_log c \<noteq> [] \<longrightarrow> hd (ch_log c) = Connecting)
     \<and> successively (\<lambda>st st'. st \<noteq> Closed \<and> (st' = Closed \<longrightarrow> st = Connected)) (ch_log c)
     \<and> last_status (ch_phase c) (ch_first_attempt c) (ch_log c)
     \<and> (ch_phase c = Ended \<longrightarrow> \<not> ch_handles c \<and> ch_queue c = [])"

lemma successively_snoc:
  "successively P (xs @ [x]) \<longleftrightarrow> successively P xs \<and> (xs = [] \<or> P (last xs) x)"
  by (auto simp: successively_append_iff)

lemma fold_drop_simps [simp]:
  "ch_log (fold drop_request reqs c) = ch_log c" "ch_first_attempt (fold drop_request reqs c) = ch_first_attempt c"
  "ch_written (fold drop_request reqs c) = ch_written c" "ch_accepted (fold drop_request reqs c) = ch_accepted c"
  "ch_wire (fold drop_request reqs c) = ch_wire c" "ch_phase (fold drop_request reqs c) = ch_phase c"
  "ch_status (fold drop_request reqs c) = ch_status c" "ch_seq (fold drop_request reqs c) = ch_seq c" "ch_handles (fold drop_request reqs c) = ch_handles c"
  by (induction reqs arbitrary: c) simp_all

lemma submit_simps:
  assumes "submit m want_reply want_ack c = (res, rt, ak, c')"
  shows "ch_log c' = ch_log c" "ch_first_attempt c' = ch_first_attempt c" "ch_phase c' = ch_phase c"
    "ch_handles c' = ch_handles c" "ch_status c' = ch_status c" "ch_wire c' = ch_wire c" "ch_written c' = ch_written c"
    "\<not> task_alive c \<Longrightarrow> ch_queue c' = ch_queue c" "\<not> task_alive c \<Longrightarrow> ch_accepted c' = ch_accepted c"
    "task_alive c \<Longrightarrow> map or_msg (ch_queue c') = map or_msg (ch_queue c) @ [m]"
    "task_alive c \<Longrightarrow> ch_accepted c' = ch_accepted c @ [m]"
    "res = (if task_alive c then Inr () else Inl NodeClosed)"
  using assms
  by (auto simp: submit_def enqueue_def task_alive_def Let_def split: prod.splits if_splits)

lemma status_inv_step:
  assumes "chan_step valid_uri from_i32 addr c c'" and inv: "status_inv c"
  shows "status_inv c'"
  using assms(1)
proof (cases rule: chan_step.cases)
  case recv
  with inv show ?thesis
    by (auto simp: status_inv_def sender_recv_def successively_snoc Let_def
        split: list.splits if_splits option.splits)
next
  case (wr req)
  with inv show ?thesis
    by (auto simp: status_inv_def sender_write_def stream_died_def successively_snoc Let_def)
next
  case (call_submit m want_reply want_ack res rt ak)
  with inv submit_simps [OF call_submit(2)] show ?thesis
    by (auto simp: status_inv_def)
next
  case (call_stream seq t)
  with inv show ?thesis by (auto simp: status_inv_def ch_register_stream_def split: prod.splits)
next
  case top
  with inv show ?thesis
    by (auto simp: status_inv_def run_node_top_def successively_snoc Let_def split: if_splits)
next
  case (dial dialled)
  with inv show ?thesis
    by (auto simp: status_inv_def try_connect_def task_panic_def connect_err_def successively_snoc split: if_splits)
next
  case (open_stream opened)
  with inv show ?thesis
    by (auto simp: status_inv_def stream_open_def connect_err_def successively_snoc split: if_splits)
qed (use inv in \<open>auto simp: status_inv_def backoff_over_def next_seq_def subscribe_status_def\<close>)

lemma status_inv_start: "status_inv (connect router_new)"
  by (simp add: status_inv_def connect_def)

lemma chan_reach_status: "chan_reach valid_uri from_i32 addr c \<Longrightarrow> status_inv c"
  by (induction rule: chan_reach.induct) (blast intro: status_inv_start status_inv_step)+

section \<open>The send queue\<close>

definition fifo_inv :: "chan \<Rightarrow> bool" where
  "fifo_inv c \<longleftrightarrow>
     (\<exists>lost. ch_accepted c = map fst (ch_written c) @ map or_msg (in_flight (ch_phase c) @ ch_queue c) @ lost
        \<and> (ch_phase c \<noteq> Died \<longrightarrow> lost = []))
     \<and> (\<not> task_alive c \<longrightarrow> ch_queue c = [])
     \<and> (\<exists>earlier. map fst (filter snd (ch_written c)) = earlier @ ch_wire c)"

lemma fifo_inv_same:
  assumes "fifo_inv c" "ch_accepted c' = ch_accepted c" "ch_written c' = ch_written c" "ch_queue c' = ch_queue c"
    "ch_wire c' = ch_wire c" "in_flight (ch_phase c') = in_flight (ch_phase c)"
    "ch_phase c \<noteq> Died" "ch_phase c' \<noteq> Died" "ch_phase c' = Ended \<Longrightarrow> ch_queue c = []"
  shows "fifo_inv c'"
  using assms by (auto simp: fifo_inv_def task_alive_def)

lemma fifo_inv_upd [simp]:
  "fifo_inv (c\<lparr>ch_receiving := b\<rparr>) = fifo_inv c" "fifo_inv (c\<lparr>ch_stale := n\<rparr>) = fifo_inv c"
  "fifo_inv (c\<lparr>ch_wire_open := b\<rparr>) = fifo_inv c" "fifo_inv (c\<lparr>ch_handles := b\<rparr>) = fifo_inv c"
  "fifo_inv (c\<lparr>ch_subscribers := n\<rparr>) = fifo_inv c" "fifo_inv (c\<lparr>ch_seq := sq\<rparr>) = fifo_inv c"
  "fifo_inv (c\<lparr>ch_router := r\<rparr>) = fifo_inv c"
  by (simp_all add: fifo_inv_def task_alive_def)

lemma fifo_inv_step:
  assumes "chan_step valid_uri from_i32 addr c c'" and inv: "fifo_inv c"
  shows "fifo_inv c'"
  using assms(1)
proof (cases rule: chan_step.cases)
  case top
  with inv show ?thesis by (intro fifo_inv_same [OF inv]) (simp_all add: run_node_top_def Let_def)
next
  case (dial dialled)
  with inv show ?thesis
    by (auto simp: fifo_inv_def try_connect_def task_panic_def connect_err_def task_alive_def)
next
  case (open_stream opened)
  with inv show ?thesis by (auto simp: fifo_inv_def stream_open_def connect_err_def task_alive_def)
next
  case recv
  show ?thesis
  proof (cases "ch_queue c")
    case Nil
    with recv inv show ?thesis
      by (auto simp: fifo_inv_def sender_recv_def task_alive_def split: if_splits)
  next
    case (Cons req queue)
    then have "ch_queue c' = queue" "ch_phase c' = Sending req" "ch_accepted c' = ch_accepted c"
      "ch_written c' = ch_written c" "ch_wire c' = ch_wire c"
      using recv by (auto simp: sender_recv_def Let_def split: option.splits)
    with recv(1) Cons inv show ?thesis by (auto simp: fifo_inv_def task_alive_def)
  qed
next
  case (wr req)
  with inv show ?thesis
    by (auto simp: fifo_inv_def sender_write_def stream_died_def task_alive_def Let_def)
next
  case (wake ms)
  with inv show ?thesis by (intro fifo_inv_same [OF inv]) (simp_all add: backoff_over_def)
next
  case (call_submit m want_reply want_ack res rt ak)
  show ?thesis
  proof (cases "task_alive c")
    case True
    with call_submit submit_simps [OF call_submit(2)] inv show ?thesis
      by (auto simp: fifo_inv_def task_alive_def)
  next
    case False
    with call_submit submit_simps [OF call_submit(2)] inv show ?thesis
      by (auto simp: fifo_inv_def task_alive_def)
  qed
qed (use inv in \<open>auto simp: ch_register_stream_def next_seq_def subscribe_status_def split: prod.splits\<close>)

lemma fifo_inv_start: "fifo_inv (connect router_new)"
  by (simp add: fifo_inv_def connect_def)

lemma chan_reach_fifo: "chan_reach valid_uri from_i32 addr c \<Longrightarrow> fifo_inv c"
  by (induction rule: chan_reach.induct) (blast intro: fifo_inv_start fifo_inv_step)+

section \<open>A run\<close>

text \<open>Connect, accept one call that wants a reply and an acknowledgement, take it, and write it.\<close>

definition demo_msg :: message where
  "demo_msg = \<lparr>msg_seq_no = 1, msg_method = ''m'', msg_status_code = 0, msg_status_message = [],
     msg_payload = [], msg_metadata = Map.empty\<rparr>"

definition demo_req :: outbound_request where
  "demo_req = \<lparr>or_msg = demo_msg, or_response_tx = Some 0, or_send_ack = Some 0\<rparr>"

definition demo_open :: chan where
  "demo_open = stream_open True (try_connect (\<lambda>_. True) ''h'' True (run_node_top (connect router_new)))"

definition demo_queued :: chan where
  "demo_queued = snd (snd (snd (submit demo_msg True True demo_open)))"

definition demo_taken :: chan where
  "demo_taken = the (sender_recv demo_queued)"

lemmas demo_run_defs = demo_taken_def demo_queued_def demo_open_def demo_req_def run_node_top_def try_connect_def
  stream_open_def submit_def enqueue_def sender_recv_def connect_def status_send_def oneshot_channel_def
  router_new_def register_with_sender_def insert_call_def task_alive_def Let_def

abbreviation demo_reach :: "chan \<Rightarrow> bool" where
  "demo_reach \<equiv> chan_reach (\<lambda>_. True) nat ''h''"

lemma demo_open_reach: "demo_reach demo_open"
proof -
  have "demo_reach (run_node_top (connect router_new))"
    by (rule chan_reach.step [OF chan_reach.start top]) (simp add: connect_def)
  then have "demo_reach (try_connect (\<lambda>_. True) ''h'' True (run_node_top (connect router_new)))"
    by (rule chan_reach.step [OF _ dial]) (simp add: run_node_top_def Let_def)
  then show ?thesis
    unfolding demo_open_def
    by (rule chan_reach.step [OF _ open_stream]) (simp add: try_connect_def)
qed

lemma demo_queued_reach: "demo_reach demo_queued"
  by (rule chan_reach.step [OF demo_open_reach call_submit [of _ demo_msg True True]])
    (simp_all add: demo_run_defs)

lemma demo_taken_reach: "demo_reach demo_taken"
  by (rule chan_reach.step [OF demo_queued_reach recv]) (simp_all add: demo_run_defs)

lemma demo_written_reach: "demo_reach (sender_write demo_req demo_taken)"
  by (rule chan_reach.step [OF demo_taken_reach wr]) (simp add: demo_run_defs)

section \<open>Properties\<close>

text \<open>
  C10. No caller is lost and none is answered twice: in every reachable state the unanswered two-way
  calls are exactly those whose sender is in the send queue or in the router, each there once, and the
  unanswered blocking sends are exactly those queued or being written, each once.
\<close>

theorem chan_calls_owned:
  assumes "chan_reach valid_uri from_i32 addr c"
  shows "open_calls (ch_router c) = set (held_replies c @ resp_ids (rt_inner (ch_router c)))
    \<and> distinct (held_replies c @ resp_ids (rt_inner (ch_router c)))
    \<and> open_acks c = set (held_acks c) \<and> distinct (held_acks c)
    \<and> live_streams (ch_router c) = set (stream_ids (rt_inner (ch_router c)))"
  using chan_reach_own [OF assms] by (simp add: chan_own_def own_def)

theorem chan_calls_owned_witness:
  "open_calls (ch_router demo_taken) = set (held_replies demo_taken @ resp_ids (rt_inner (ch_router demo_taken)))
    \<and> distinct (held_replies demo_taken @ resp_ids (rt_inner (ch_router demo_taken)))
    \<and> open_acks demo_taken = set (held_acks demo_taken) \<and> distinct (held_acks demo_taken)
    \<and> live_streams (ch_router demo_taken) = set (stream_ids (rt_inner (ch_router demo_taken)))"
  by (rule chan_calls_owned [OF demo_taken_reach])

text \<open>
  C11. An answer is final: no step of any task changes the reply of an answered call or the outcome of
  an acknowledged send.
\<close>

theorem chan_answers_final:
  assumes "chan_reach valid_uri from_i32 addr c" and "chan_step valid_uri from_i32 addr c c'"
  shows "(\<forall>t < rt_next_oneshot (ch_router c). rt_oneshots (ch_router c) t \<noteq> Open \<longrightarrow>
        rt_oneshots (ch_router c') t = rt_oneshots (ch_router c) t)
    \<and> (\<forall>t < ch_next_ack c. ch_acks c t \<noteq> Open \<longrightarrow> ch_acks c' t = ch_acks c t)"
  using chan_step_keeps [OF assms(2)] chan_step_keeps_acks [OF assms(2)] chan_reach_own [OF assms(1)]
  by (simp add: keeps_def keeps_acks_def)

theorem chan_answers_final_witness:
  "ch_acks (sender_write demo_req demo_taken) 0 = Sent (Inr ())
   \<and> ch_acks ((sender_write demo_req demo_taken)\<lparr>ch_wire_open := False\<rparr>) 0 = Sent (Inr ())"
proof -
  have sent: "ch_acks (sender_write demo_req demo_taken) 0 = Sent (Inr ())" "ch_next_ack (sender_write demo_req demo_taken) = 1"
    by (simp_all add: demo_run_defs sender_write_def)
  have "chan_step (\<lambda>_. True) nat ''h'' (sender_write demo_req demo_taken)
      ((sender_write demo_req demo_taken)\<lparr>ch_wire_open := False\<rparr>)"
    by (rule wire_lost)
  from chan_answers_final [OF demo_written_reach this] sent show ?thesis by simp
qed

text \<open>
  C12. The send queue is first-in first-out and loses nothing while the task lives: the accepted
  messages are those handled, then the one being written, then those queued, in that order; what is on
  the wire of the current stream is the end of what was handled successfully; and after a clean
  shutdown every accepted message has been handled.
\<close>

theorem chan_fifo:
  assumes "chan_reach valid_uri from_i32 addr c"
  shows "(ch_phase c \<noteq> Died \<longrightarrow>
        ch_accepted c = map fst (ch_written c) @ map or_msg (in_flight (ch_phase c) @ ch_queue c))
    \<and> (\<exists>earlier. map fst (filter snd (ch_written c)) = earlier @ ch_wire c)
    \<and> (ch_phase c = Ended \<longrightarrow> ch_accepted c = map fst (ch_written c))"
proof -
  note inv = chan_reach_fifo [OF assms, unfolded fifo_inv_def]
  then obtain lost where "ch_accepted c = map fst (ch_written c) @ map or_msg (in_flight (ch_phase c) @ ch_queue c) @ lost"
    "ch_phase c \<noteq> Died \<longrightarrow> lost = []" by blast
  with inv show ?thesis by (auto simp: task_alive_def)
qed

theorem chan_fifo_witness:
  "ch_accepted demo_taken = map fst (ch_written demo_taken) @ map or_msg (in_flight (ch_phase demo_taken) @ ch_queue demo_taken)"
proof -
  have "ch_phase demo_taken \<noteq> Died" by (simp add: demo_run_defs)
  with chan_fifo [OF demo_taken_reach] show ?thesis by blast
qed

lemma closed_is_last:
  assumes "chan_reach valid_uri from_i32 addr c" "Closed \<in> set (ch_log c)"
  shows "ch_phase c = Ended \<and> (\<exists>pre. ch_log c = pre @ [Connected, Closed] \<and> Closed \<notin> set pre)"
proof -
  note inv = chan_reach_status [OF assms(1), unfolded status_inv_def]
  obtain xs ys where log: "ch_log c = xs @ Closed # ys" and xs: "Closed \<notin> set xs" using assms(2) by (meson split_list_first)
  with inv have ys: "ys = []" by (cases ys) (auto simp: successively_append_iff)
  with log inv have "ch_phase c = Ended" by (cases "ch_phase c") (auto split: if_splits)
  moreover have "xs \<noteq> []" "last xs = Connected" using inv log ys by (auto simp: successively_append_iff)
  then have "ch_log c = butlast xs @ [Connected, Closed]"
    using log ys by (metis append_butlast_last_id append_assoc append_Cons append_Nil)
  moreover have "Closed \<notin> set (butlast xs)" using xs by (auto dest: in_set_butlastD)
  ultimately show ?thesis by blast
qed

text \<open>
  C13. What the published statuses say about the task of a node. The first one is \<^verbatim>\<open>Connecting\<close>. The
  latest one is \<^verbatim>\<open>Connected\<close> exactly while the task serves the stream it opened, that is until a write
  finds the stream broken; it is \<^verbatim>\<open>Unreachable\<close> only while the task waits for its next attempt; it is
  \<^verbatim>\<open>Closed\<close> exactly when the task has ended. \<^verbatim>\<open>Closed\<close> is final: it is never followed by another status,
  and by then no handle is left and every queued request was taken. A connected node whose handles are
  all dropped and whose queue is drained can always take the step that publishes it.
\<close>

theorem chan_status_meaning:
  assumes "chan_reach valid_uri from_i32 addr c"
  shows "(ch_log c = [] \<longrightarrow> ch_phase c = Loop_Top)
    \<and> (ch_log c \<noteq> [] \<longrightarrow> hd (ch_log c) = Connecting
        \<and> (last (ch_log c) = Connected \<longleftrightarrow> ch_phase c = Serving \<or> (\<exists>req. ch_phase c = Sending req))
        \<and> (last (ch_log c) = Unreachable \<longrightarrow> ch_phase c = Loop_Top \<or> (\<exists>ms. ch_phase c = Backoff ms))
        \<and> (last (ch_log c) = Closed \<longleftrightarrow> ch_phase c = Ended))
    \<and> (Closed \<in> set (ch_log c) \<longrightarrow> last (ch_log c) = Closed \<and> Closed \<notin> set (butlast (ch_log c))
        \<and> \<not> ch_handles c \<and> ch_queue c = [])
    \<and> (ch_phase c = Serving \<and> \<not> ch_handles c \<and> ch_queue c = [] \<longrightarrow>
        (\<exists>c'. chan_step valid_uri from_i32 addr c c' \<and> ch_log c' = ch_log c @ [Closed] \<and> ch_phase c' = Ended))"
proof (intro conjI impI)
  note inv = chan_reach_status [OF assms, unfolded status_inv_def]
  show "ch_phase c = Loop_Top" if "ch_log c = []" using inv that by (cases "ch_phase c") auto
  show "hd (ch_log c) = Connecting" if "ch_log c \<noteq> []" using inv that by blast
  show "last (ch_log c) = Connected \<longleftrightarrow> ch_phase c = Serving \<or> (\<exists>req. ch_phase c = Sending req)" if "ch_log c \<noteq> []"
    using inv that by (cases "ch_phase c") (auto split: if_splits)
  show "ch_phase c = Loop_Top \<or> (\<exists>ms. ch_phase c = Backoff ms)" if "last (ch_log c) = Unreachable"
    using inv that by (cases "ch_phase c") (auto split: if_splits)
  show "last (ch_log c) = Closed \<longleftrightarrow> ch_phase c = Ended" if "ch_log c \<noteq> []"
    using inv that by (cases "ch_phase c") (auto split: if_splits)
  show "last (ch_log c) = Closed" "\<not> ch_handles c" "ch_queue c = []" if "Closed \<in> set (ch_log c)"
    using closed_is_last [OF assms that] inv by auto
  show "Closed \<notin> set (butlast (ch_log c))" if cl: "Closed \<in> set (ch_log c)"
  proof -
    obtain pre where "ch_log c = pre @ [Connected, Closed]" "Closed \<notin> set pre" using closed_is_last [OF assms cl] by blast
    then show ?thesis by (simp add: butlast_append)
  qed
  show "\<exists>c'. chan_step valid_uri from_i32 addr c c' \<and> ch_log c' = ch_log c @ [Closed] \<and> ch_phase c' = Ended"
    if "ch_phase c = Serving \<and> \<not> ch_handles c \<and> ch_queue c = []"
    using that recv [of c "(status_send Closed (abort_receiver c))\<lparr>ch_phase := Ended\<rparr>" valid_uri from_i32 addr]
    by (auto simp: sender_recv_def)
qed

theorem chan_status_meaning_witness:
  "last (ch_log demo_open) = Connected \<and> ch_phase demo_open = Serving \<and> Closed \<notin> set (ch_log demo_open)"
proof -
  have log: "ch_log demo_open \<noteq> []" and up: "ch_phase demo_open = Serving" "ch_handles demo_open"
    by (simp_all add: demo_run_defs connect_def)
  with chan_status_meaning [OF demo_open_reach] show ?thesis by metis
qed

lemma chan_step_status:
  assumes "chan_step valid_uri from_i32 addr c c'"
  shows "ch_status c' = (if ch_subscribers c = 0 \<or> ch_log c' = ch_log c then ch_status c else last (ch_log c'))"
  using assms
proof (cases rule: chan_step.cases)
  case recv
  then show ?thesis
    by (auto simp: sender_recv_def Let_def split: list.splits if_splits option.splits)
next
  case (call_submit m want_reply want_ack res rt ak)
  then show ?thesis by (simp add: submit_simps [OF call_submit(2)])
qed (auto simp: run_node_top_def try_connect_def task_panic_def stream_open_def connect_err_def sender_write_def
      stream_died_def backoff_over_def next_seq_def subscribe_status_def ch_register_stream_def Let_def
      split: prod.splits)

text \<open>
  What \<^verbatim>\<open>Node::status\<close> reads follows the published statuses exactly while somebody is
  subscribed: a step that publishes stores the new status if there is a subscriber, and leaves the old
  one in place otherwise.
\<close>

theorem chan_status_watch:
  assumes "chan_step valid_uri from_i32 addr c c'"
  shows "current_status c' =
    (if ch_subscribers c = 0 \<or> ch_log c' = ch_log c then current_status c else last (ch_log c'))"
  unfolding current_status_def by (rule chan_step_status [OF assms])

theorem chan_status_watch_witness:
  "current_status (run_node_top (subscribe_status (connect router_new))) =
    (if ch_subscribers (subscribe_status (connect router_new)) = 0
        \<or> ch_log (run_node_top (subscribe_status (connect router_new))) = ch_log (subscribe_status (connect router_new))
     then current_status (subscribe_status (connect router_new))
     else last (ch_log (run_node_top (subscribe_status (connect router_new)))))"
  by (rule chan_status_watch [of "\<lambda>_. True" nat "''h''"], rule top) (simp add: subscribe_status_def connect_def)

text \<open>
  The status of an unwatched node is stale: a node can be connected and serving, having published
  \<^verbatim>\<open>Connected\<close>, while \<^verbatim>\<open>Node::status\<close>, and a subscription made now, still read \<^verbatim>\<open>Connecting\<close>.
\<close>

theorem chan_status_stale:
  "\<exists>c. chan_reach (\<lambda>_. True) nat ''h'' c \<and> ch_phase c = Serving \<and> ch_handles c
     \<and> ch_log c = [Connecting, Connected]
     \<and> current_status c = Connecting \<and> current_status (subscribe_status c) = Connecting"
  by (rule exI [of _ demo_open], intro conjI, rule demo_open_reach)
    (simp_all add: demo_run_defs current_status_def subscribe_status_def)

text \<open>
  C14. When a write finds the stream dead, every call registered with the router, the one being
  written included, is answered with \<^verbatim>\<open>StreamDown\<close>, its acknowledgement fails the same way, every
  correctable stream is closed, and the requests still queued keep their callers waiting for the next
  stream.
\<close>

theorem stream_down_cancels:
  assumes "chan_reach valid_uri from_i32 addr c" and "ch_phase c = Sending req" and "\<not> ch_wire_open c"
  shows "let c' = sender_write req c in
    chan_step valid_uri from_i32 addr c c'
    \<and> (\<forall>t \<in> set (resp_ids (rt_inner (ch_router c))). rt_oneshots (ch_router c') t = Sent (Inl StreamDown))
    \<and> (\<forall>t. or_send_ack req = Some t \<longrightarrow> ch_acks c' t = Sent (Inl StreamDown))
    \<and> open_calls (ch_router c') = set (held_replies c) \<and> live_streams (ch_router c') = {}
    \<and> ch_queue c' = ch_queue c \<and> last (ch_log c') = Reconnecting \<and> ch_phase c' = Backoff 200"
proof -
  have r: "ch_router (sender_write req c) = cancel_all StreamDown (ch_router c)"
    using assms(3) by (simp add: sender_write_def stream_died_def Let_def)
  have "rt_inner (cancel_all StreamDown (ch_router c)) = []"
    by (simp add: cancel_all_def Let_def fold_cancel_inner)
  with own_cancel_all [OF chan_own_ownD [OF chan_reach_own [OF assms(1)]], of StreamDown]
  have "open_calls (cancel_all StreamDown (ch_router c)) = set (held_replies c)"
    "live_streams (cancel_all StreamDown (ch_router c)) = {}"
    by (simp_all add: own_def resp_ids_def stream_ids_def List.map_filter_simps)
  moreover have "\<forall>t \<in> set (resp_ids (rt_inner (ch_router c))).
      rt_oneshots (cancel_all StreamDown (ch_router c)) t = Sent (Inl StreamDown)"
    by (simp add: cancel_all_def Let_def fold_cancel_oneshots ids_iff)
  moreover have "(\<forall>t. or_send_ack req = Some t \<longrightarrow> ch_acks (sender_write req c) t = Sent (Inl StreamDown))
      \<and> ch_queue (sender_write req c) = ch_queue c \<and> last (ch_log (sender_write req c)) = Reconnecting
      \<and> ch_phase (sender_write req c) = Backoff 200"
    using assms(3) by (auto simp: sender_write_def stream_died_def Let_def)
  ultimately show ?thesis
    using chan_step.wr [OF assms(2)] by (simp add: r Let_def)
qed

theorem stream_down_cancels_witness:
  "let c = demo_taken\<lparr>ch_wire_open := False\<rparr>; c' = sender_write demo_req c in
    rt_oneshots (ch_router c') 0 = Sent (Inl StreamDown) \<and> ch_acks c' 0 = Sent (Inl StreamDown)"
proof -
  let ?c = "demo_taken\<lparr>ch_wire_open := False\<rparr>"
  have "demo_reach ?c" by (rule chan_reach.step [OF demo_taken_reach wire_lost])
  moreover have "ch_phase ?c = Sending demo_req" by (simp add: demo_run_defs)
  moreover have "0 \<in> set (resp_ids (rt_inner (ch_router ?c)))"
    by (simp add: demo_run_defs resp_ids_def List.map_filter_simps)
  ultimately show ?thesis
    using stream_down_cancels [of "\<lambda>_. True" nat "''h''" ?c demo_req] by (simp add: Let_def) (simp add: demo_req_def)
qed

text \<open>
  A stream that the server ends cleanly strands its callers: after the receive task has seen the
  end, a call can stay unanswered in a state where no task can move (the sender waits on an empty
  queue, no receive task runs), until some later request finds the wire closed.
\<close>

theorem clean_end_strands_callers:
  "\<exists>c t. chan_reach (\<lambda>_. True) nat ''h'' c \<and> t \<in> open_calls (ch_router c) \<and> \<not> ch_wire_open c
     \<and> ch_phase c = Serving \<and> sender_recv c = None \<and> \<not> ch_receiving c \<and> ch_stale c = 0"
proof -
  let ?w = "sender_write demo_req demo_taken"
  let ?e = "?w\<lparr>ch_receiving := False, ch_wire_open := False\<rparr>"
  have "demo_reach (?w\<lparr>ch_receiving := False\<rparr>)"
    by (rule chan_reach.step [OF demo_written_reach inbound_end]) (simp add: demo_run_defs sender_write_def ack_send_def)
  then have "demo_reach (?w\<lparr>ch_receiving := False\<rparr>\<lparr>ch_wire_open := False\<rparr>)"
    by (rule chan_reach.step [OF _ wire_lost])
  then have "demo_reach ?e" by simp
  moreover have "0 \<in> open_calls (ch_router ?e) \<and> \<not> ch_wire_open ?e \<and> ch_phase ?e = Serving \<and> sender_recv ?e = None
      \<and> \<not> ch_receiving ?e \<and> ch_stale ?e = 0"
    by (simp add: demo_run_defs sender_write_def ack_send_def open_calls_def)
  ultimately show ?thesis by blast
qed

section \<open>Sequence numbers\<close>

fun take_seqs :: "nat \<Rightarrow> chan \<Rightarrow> u64 list option" where
  "take_seqs 0 c = Some []"
| "take_seqs (Suc n) c =
     (case next_seq c of (None, c') \<Rightarrow> None | (Some s, c') \<Rightarrow> map_option ((#) s) (take_seqs n c'))"

lemma take_seqs_fits:
  "unat (ch_seq c) + n < 2 ^ 64 \<Longrightarrow> map_option (map unat) (take_seqs n c) = Some [Suc (unat (ch_seq c))..<Suc (unat (ch_seq c) + n)]"
proof (induction n arbitrary: c)
  case (Suc n)
  have "ch_seq c \<noteq> - 1"
  proof
    assume "ch_seq c = - 1"
    then have "unat (ch_seq c) = 2 ^ 64 - 1" by (simp add: unsigned_minus_1_eq_mask mask_eq_exp_minus_1)
    with Suc.prems show False by simp
  qed
  then have u: "unat (ch_seq c + 1) = Suc (unat (ch_seq c))" and ns: "next_seq c = (Some (ch_seq c + 1), c\<lparr>ch_seq := ch_seq c + 1\<rparr>)"
    by (simp_all add: unat_inc next_seq_def checked_inc_def)
  from Suc.IH [of "c\<lparr>ch_seq := ch_seq c + 1\<rparr>"] Suc.prems u obtain ss where
    "take_seqs n (c\<lparr>ch_seq := ch_seq c + 1\<rparr>) = Some ss" "map unat ss = [Suc (Suc (unat (ch_seq c)))..<Suc (unat (ch_seq c) + Suc n)]"
    by auto
  with ns u show ?case by (simp add: upt_conv_Cons)
qed simp

lemma take_seqs_overflow:
  "2 ^ 64 \<le> unat (ch_seq c) + n \<Longrightarrow> take_seqs n c = None"
proof (induction n arbitrary: c)
  case 0
  moreover have "unat (ch_seq c) < 2 ^ LENGTH(64)" by (rule unsigned_less)
  ultimately show ?case by simp
next
  case (Suc n)
  show ?case
  proof (cases "ch_seq c = - 1")
    case False
    with Suc.IH [of "c\<lparr>ch_seq := ch_seq c + 1\<rparr>"] Suc.prems show ?thesis
      by (simp add: next_seq_def checked_inc_def unat_inc)
  qed (simp add: next_seq_def checked_inc_def)
qed

text \<open>
  The counter runs over all 64 bits: after \<open>2 ^ 63 - 1\<close> allocations the next number has its high bit
  set, which the wire format keeps for identifiers of the server. In a build with overflow checks the
  allocation after \<open>2 ^ 64 - 1\<close> panics, as modelled; a build without them wraps around to \<open>0\<close>.
\<close>

lemma next_seq_high_bit:
  "fst (next_seq (c\<lparr>ch_seq := 2 ^ 63 - 1\<rparr>)) = Some (2 ^ 63)" "bit (2 ^ 63 :: u64) 63"
  by (simp_all add: next_seq_def checked_inc_def)

lemma high_bit_clear:
  assumes "unat (s :: u64) < 2 ^ 63"
  shows "\<not> bit s 63"
proof -
  have "\<not> bit (unat s) 63" using assms by (simp add: bit_iff_odd)
  then show ?thesis by (simp add: bit_unsigned_iff)
qed

lemma chan_step_seq:
  assumes "chan_step valid_uri from_i32 addr c c'"
  shows "ch_seq c' = ch_seq c \<or> (\<exists>s. next_seq c = (s, c'))"
  using assms
proof (cases rule: chan_step.cases)
  case recv
  then show ?thesis by (auto simp: sender_recv_def Let_def split: list.splits if_splits option.splits)
next
  case (wr req)
  then show ?thesis by (auto simp: sender_write_def stream_died_def Let_def)
next
  case (call_submit m want_reply want_ack res rt ak)
  then show ?thesis by (auto simp: submit_def enqueue_def Let_def split: prod.splits if_splits)
next
  case (call_stream seq t)
  then show ?thesis by (auto simp: ch_register_stream_def split: prod.splits)
qed (auto simp: run_node_top_def try_connect_def task_panic_def connect_err_def stream_open_def backoff_over_def
      subscribe_status_def Let_def)

text \<open>
  C40. Sequence numbers of client calls. As long as the counter stays below \<open>2 ^ 63\<close>, \<open>n\<close> allocations on a
  channel return the next \<open>n\<close> numbers, so they are pairwise different, none is \<open>0\<close>, and each has the high
  bit clear, as the wire format asks of identifiers that a client assigns. No other step of the channel
  touches the counter.
\<close>

theorem next_seq_fresh:
  assumes "unat (ch_seq c) + n < 2 ^ 63"
  shows "(\<exists>ss. take_seqs n c = Some ss \<and> map unat ss = [Suc (unat (ch_seq c))..<Suc (unat (ch_seq c) + n)]
      \<and> distinct ss \<and> (\<forall>s \<in> set ss. s \<noteq> 0 \<and> \<not> bit s 63))
    \<and> (\<forall>c'. chan_step valid_uri from_i32 addr c c' \<longrightarrow> ch_seq c' = ch_seq c \<or> (\<exists>s. next_seq c = (s, c')))"
proof (intro conjI allI impI)
  obtain ss where ss: "take_seqs n c = Some ss" "map unat ss = [Suc (unat (ch_seq c))..<Suc (unat (ch_seq c) + n)]"
    using assms take_seqs_fits [of c n] by auto
  have "distinct (map unat ss)" unfolding ss(2) by (rule distinct_upt)
  then have "distinct ss" by (simp add: distinct_map)
  moreover have "0 < unat s \<and> unat s < 2 ^ 63" if "s \<in> set ss" for s
  proof -
    have "unat s \<in> set (map unat ss)" using that by simp
    with ss(2) assms show ?thesis by auto
  qed
  then have "\<forall>s \<in> set ss. s \<noteq> 0 \<and> \<not> bit s 63" using high_bit_clear by fastforce
  ultimately show "\<exists>ss. take_seqs n c = Some ss \<and> map unat ss = [Suc (unat (ch_seq c))..<Suc (unat (ch_seq c) + n)]
      \<and> distinct ss \<and> (\<forall>s \<in> set ss. s \<noteq> 0 \<and> \<not> bit s 63)"
    using ss by blast
qed (rule chan_step_seq)

theorem next_seq_fresh_witness:
  "\<exists>ss. take_seqs 3 (connect router_new) = Some ss \<and> map unat ss = [1, 2, 3] \<and> (\<forall>s \<in> set ss. \<not> bit s 63)"
proof -
  have seq: "ch_seq (connect router_new) = 0" by (simp add: connect_def)
  then have "unat (ch_seq (connect router_new)) + 3 < 2 ^ 63" by simp
  moreover have "[Suc 0..<Suc 3] = [1, 2, 3]" by (simp add: upt_rec)
  ultimately show ?thesis
    using next_seq_fresh [of "connect router_new" 3 "\<lambda>_. True" nat "[]"] unfolding seq by auto
qed

end
