(* ===== verification/Collector.thy ===== *)
theory Collector
  imports Errors
begin

text \<open>
  The select loop every terminal method is written as:
  \<^verbatim>\<open>loop { select! { biased; _ = cancel.cancelled() => return .., maybe = rx.recv() => match maybe .. } }\<close>.
  An observation is what the loop finds when it is polled: whether the token has fired and what the
  receive end of the channel holds. The loops themselves are written out in the theories of the
  handles, as the source writes them; here is the contract they share and what follows from it.
\<close>

datatype 'x rx = Empty | Item 'x | Disconnected

type_synonym 'x obs = "bool \<times> 'x rx"

text \<open>\<open>Waiting\<close>: still suspended after the given observations. \<open>Panicked\<close>: the task panicked.\<close>

datatype 'r progress = Waiting | Panicked | Finished 'r

datatype ('s, 'r) flow = Continue 's | Return 'r | Panic

record 't node_response =
  nr_node_id :: u32
  nr_result :: "error + 't"

text \<open>Feeding received items to the body of a loop, in arrival order.\<close>

fun feed :: "('s \<Rightarrow> 'x \<Rightarrow> ('s, 'r) flow) \<Rightarrow> 's \<Rightarrow> 'x list \<Rightarrow> ('s, 'r) flow" where
  "feed body s [] = Continue s"
| "feed body s (x # xs) =
     (case body s x of Continue s' \<Rightarrow> feed body s' xs | Return r \<Rightarrow> Return r | Panic \<Rightarrow> Panic)"

text \<open>Observations before anything but items happened, and the items they carry.\<close>

fun quiet :: "'x obs \<Rightarrow> bool" where
  "quiet (c, r) = (\<not> c \<and> r \<noteq> Disconnected)"

fun items :: "'x obs list \<Rightarrow> 'x list" where
  "items [] = []"
| "items ((c, Item x) # obs) = x # items obs"
| "items ((c, Empty) # obs) = items obs"
| "items ((c, Disconnected) # obs) = items obs"

definition settle :: "('s, 'r) flow \<Rightarrow> 'r progress" where
  "settle f = (case f of Continue s \<Rightarrow> Waiting | Return r \<Rightarrow> Finished r | Panic \<Rightarrow> Panicked)"

lemma settle_simps [simp]:
  "settle (Continue s) = Waiting" "settle (Return r) = Finished r" "settle Panic = Panicked"
  by (simp_all add: settle_def)

lemma feed_append:
  "feed body s (xs @ ys) =
     (case feed body s xs of Continue s' \<Rightarrow> feed body s' ys | Return r \<Rightarrow> Return r | Panic \<Rightarrow> Panic)"
  by (induction xs arbitrary: s) (auto split: flow.splits)

lemma feed_Continue_inv:
  assumes "\<And>s x s'. I s \<Longrightarrow> body s x = Continue s' \<Longrightarrow> I s'"
  shows "I s \<Longrightarrow> feed body s xs = Continue s' \<Longrightarrow> I s'"
  by (induction xs arbitrary: s) (auto split: flow.splits intro: assms)

lemma items_map_Item [simp]: "items (map (\<lambda>x. (False, Item x)) xs) = xs"
  by (induction xs) simp_all

locale select_loop =
  fixes looper :: "'s \<Rightarrow> 'x obs list \<Rightarrow> 'r progress"
    and body :: "'s \<Rightarrow> 'x \<Rightarrow> ('s, 'r) flow"
    and on_cancel :: "'s \<Rightarrow> 'r"
    and on_close :: "'s \<Rightarrow> 'r"
  assumes loop_Nil: "looper s [] = Waiting"
    and loop_cancelled: "looper s ((True, r) # obs) = Finished (on_cancel s)"
    and loop_empty: "looper s ((False, Empty) # obs) = looper s obs"
    and loop_closed: "looper s ((False, Disconnected) # obs) = Finished (on_close s)"
    and loop_item: "looper s ((False, Item x) # obs) =
      (case body s x of Continue s' \<Rightarrow> looper s' obs | Return r \<Rightarrow> Finished r | Panic \<Rightarrow> Panicked)"
begin

lemmas loop_laws = loop_Nil loop_cancelled loop_empty loop_closed loop_item

lemma loop_quiet:
  "list_all quiet obs \<Longrightarrow>
     looper s (obs @ rest) =
       (case feed body s (items obs) of Continue s' \<Rightarrow> looper s' rest | Return r \<Rightarrow> Finished r | Panic \<Rightarrow> Panicked)"
proof (induction obs arbitrary: s)
  case Nil
  then show ?case by simp
next
  case (Cons ob obs)
  obtain c r where ob: "ob = (c, r)" by fastforce
  with Cons show ?case
    by (cases r) (auto simp: loop_empty loop_item split: flow.splits)
qed

lemma loop_quiet_only:
  "list_all quiet obs \<Longrightarrow> looper s obs = settle (feed body s (items obs))"
  using loop_quiet [of obs s "[]"] by (auto simp: loop_Nil split: flow.splits)

lemma loop_until_closed:
  "list_all quiet obs \<Longrightarrow>
     looper s (obs @ (False, Disconnected) # rest) =
       (case feed body s (items obs) of Continue s' \<Rightarrow> Finished (on_close s')
        | Return r \<Rightarrow> Finished r | Panic \<Rightarrow> Panicked)"
  by (simp add: loop_quiet loop_closed cong: flow.case_cong)

lemma loop_until_cancelled:
  "list_all quiet obs \<Longrightarrow>
     looper s (obs @ (True, r) # rest) =
       (case feed body s (items obs) of Continue s' \<Rightarrow> Finished (on_cancel s')
        | Return r \<Rightarrow> Finished r | Panic \<Rightarrow> Panicked)"
  by (simp add: loop_quiet loop_cancelled cong: flow.case_cong)

lemma loop_finished:
  assumes "looper s obs = Finished r"
  obtains (returned) pre post where "obs = pre @ post" "list_all quiet pre" "feed body s (items pre) = Return r"
  | (cancelled) pre post s' q where "obs = pre @ (True, q) # post" "list_all quiet pre"
      "feed body s (items pre) = Continue s'" "r = on_cancel s'"
  | (closed) pre post s' where "obs = pre @ (False, Disconnected) # post" "list_all quiet pre"
      "feed body s (items pre) = Continue s'" "r = on_close s'"
proof -
  obtain pre post where obs: "obs = pre @ post" "list_all quiet pre" "post = [] \<or> \<not> quiet (hd post)"
    using takeWhile_dropWhile_id [of quiet obs] list_all_iff set_takeWhileD hd_dropWhile by metis
  note run = assms [unfolded obs(1) loop_quiet [OF obs(2)]]
  show thesis
  proof (cases "feed body s (items pre)")
    case (Return r')
    with run have "feed body s (items pre) = Return r" by simp
    with obs(1,2) show thesis by (rule returned)
  next
    case (Continue s')
    with run have fin: "looper s' post = Finished r" by simp
    with obs(3) loop_Nil obtain c q post' where post: "post = (c, q) # post'" and nq: "\<not> quiet (c, q)"
      by (cases post) auto
    show thesis
    proof (cases c)
      case True
      with fin post obs(1,2) Continue show thesis
        by (intro cancelled [of pre q post' s']) (auto simp: loop_cancelled)
    next
      case False
      with nq have "q = Disconnected" by simp
      with fin post obs(1,2) Continue False show thesis
        by (intro closed [of pre post' s']) (auto simp: loop_closed)
    qed
  next
    case Panic
    with run show thesis by simp
  qed
qed

lemma loop_settled: "looper s obs \<noteq> Waiting \<Longrightarrow> looper s (obs @ rest) = looper s obs"
proof (induction obs arbitrary: s)
  case (Cons ob obs)
  obtain c r where ob: "ob = (c, r)" by fastforce
  with Cons show ?case
    by (cases c; cases r) (auto simp: loop_laws split: flow.splits)
qed (simp add: loop_Nil)

end

end
