(* ===== verification/Responses.thy ===== *)
theory Responses
  imports Collector
begin

text \<open>
  \<^verbatim>\<open>src/responses.rs\<close>: the handle a quorum call returns and its terminal methods. The deferred
  fan-out is the field \<open>launch\<close>; a terminal method first takes and runs it, then runs its loop over
  the observations of the environment.
\<close>

record 'l responses =
  rs_size :: nat
  launch :: "'l option"

text \<open>\<^verbatim>\<open>send_now\<close>: the fan-outs started by the call, and the handle afterwards.\<close>

definition send_now :: "'l responses \<Rightarrow> 'l list \<times> 'l responses" where
  "send_now h = (case launch h of Some f \<Rightarrow> ([f], h\<lparr>launch := None\<rparr>) | None \<Rightarrow> ([], h))"

definition node_error_of :: "u32 \<Rightarrow> tonic_status \<Rightarrow> node_error" where
  "node_error_of i s = \<lparr>ne_node_id = i, ne_cause = s\<rparr>"

type_synonym 't tally = "nat \<times> 't option \<times> node_error list"

fun threshold_loop :: "nat \<Rightarrow> 't tally \<Rightarrow> 't node_response obs list \<Rightarrow> (error + 't) progress" where
  "threshold_loop k st [] = Waiting"
| "threshold_loop k st ((True, r) # obs) = Finished (Inl Cancelled)"
| "threshold_loop k st ((False, Empty) # obs) = threshold_loop k st obs"
| "threshold_loop k (cnt, first_ok, node_errors) ((False, Disconnected) # obs) =
     Finished (Inl (incomplete node_errors))"
| "threshold_loop k (cnt, first_ok, node_errors) ((False, Item nr) # obs) =
     (case nr_result nr of
        Inl (Transport s) \<Rightarrow>
          threshold_loop k (cnt, first_ok, node_errors @ [node_error_of (nr_node_id nr) s]) obs
      | Inl _ \<Rightarrow>
          threshold_loop k (cnt, first_ok,
            node_errors @ [node_error_of (nr_node_id nr) (status_internal ''internal error'')]) obs
      | Inr val \<Rightarrow>
          (let cnt = cnt + 1;
               first_ok = (if first_ok = None then Some val else first_ok)
           in if k \<le> cnt
              then (case first_ok of None \<Rightarrow> Panicked | Some v \<Rightarrow> Finished (Inr v))
              else threshold_loop k (cnt, first_ok, node_errors) obs))"

definition threshold ::
  "nat \<Rightarrow> 'l responses \<Rightarrow> 't node_response obs list \<Rightarrow> 'l list \<times> (error + 't) progress" where
  "threshold k h obs = (fst (send_now h), threshold_loop k (0, None, []) obs)"

definition first :: "'l responses \<Rightarrow> 't node_response obs list \<Rightarrow> 'l list \<times> (error + 't) progress" where
  "first h obs = threshold 1 h obs"

definition majority :: "'l responses \<Rightarrow> 't node_response obs list \<Rightarrow> 'l list \<times> (error + 't) progress" where
  "majority h obs = (let q = rs_size h div 2 + 1 in threshold q h obs)"

definition all_replies :: "'l responses \<Rightarrow> 't node_response obs list \<Rightarrow> 'l list \<times> (error + 't) progress" where
  "all_replies h obs = (let n = rs_size h in threshold n h obs)"

text \<open>
  The quorum predicate is a \<^verbatim>\<open>FnMut\<close>: it also updates the state it captured, \<open>'f\<close>, which the
  caller can read afterwards. It sees all successful replies so far.
\<close>

fun quorum_loop ::
  "('f \<Rightarrow> 't list \<Rightarrow> 't option \<times> 'f) \<Rightarrow> 'f \<times> 't list \<times> node_error list \<Rightarrow> 't node_response obs list
   \<Rightarrow> ((error + 't) \<times> 'f) progress" where
  "quorum_loop f st [] = Waiting"
| "quorum_loop f (c, oks, node_errors) ((True, r) # obs) = Finished (Inl Cancelled, c)"
| "quorum_loop f st ((False, Empty) # obs) = quorum_loop f st obs"
| "quorum_loop f (c, oks, node_errors) ((False, Disconnected) # obs) =
     Finished (Inl (incomplete node_errors), c)"
| "quorum_loop f (c, oks, node_errors) ((False, Item nr) # obs) =
     (case nr_result nr of
        Inr val \<Rightarrow>
          (let oks = oks @ [val]
           in case f c oks of
                (Some result, c') \<Rightarrow> Finished (Inr result, c')
              | (None, c') \<Rightarrow> quorum_loop f (c', oks, node_errors) obs)
      | Inl (Transport s) \<Rightarrow>
          quorum_loop f (c, oks, node_errors @ [node_error_of (nr_node_id nr) s]) obs
      | Inl _ \<Rightarrow> quorum_loop f (c, oks, node_errors) obs)"

definition quorum ::
  "('f \<Rightarrow> 't list \<Rightarrow> 't option \<times> 'f) \<Rightarrow> 'f \<Rightarrow> 'l responses \<Rightarrow> 't node_response obs list
   \<Rightarrow> 'l list \<times> ((error + 't) \<times> 'f) progress" where
  "quorum f c h obs = (fst (send_now h), quorum_loop f (c, [], []) obs)"

section \<open>The loops satisfy the contract\<close>

definition threshold_body :: "nat \<Rightarrow> 't tally \<Rightarrow> 't node_response \<Rightarrow> ('t tally, error + 't) flow" where
  "threshold_body k st nr = (case st of (cnt, first_ok, node_errors) \<Rightarrow>
     case nr_result nr of
       Inl e \<Rightarrow> Continue (cnt, first_ok, node_errors @ [node_error_of (nr_node_id nr)
         (case e of Transport s \<Rightarrow> s | _ \<Rightarrow> status_internal ''internal error'')])
     | Inr val \<Rightarrow>
         (let ok = (case first_ok of None \<Rightarrow> val | Some v \<Rightarrow> v)
          in if k \<le> Suc cnt then Return (Inr ok) else Continue (Suc cnt, Some ok, node_errors)))"

interpretation threshold_select: select_loop "threshold_loop k" "threshold_body k"
  "\<lambda>_. Inl Cancelled" "\<lambda>(cnt, first_ok, node_errors). Inl (incomplete node_errors)" for k
  by unfold_locales
    (auto simp: threshold_body_def Let_def split: sum.splits error.splits option.splits prod.splits)

definition quorum_body ::
  "('f \<Rightarrow> 't list \<Rightarrow> 't option \<times> 'f) \<Rightarrow> 'f \<times> 't list \<times> node_error list \<Rightarrow> 't node_response
   \<Rightarrow> ('f \<times> 't list \<times> node_error list, (error + 't) \<times> 'f) flow" where
  "quorum_body f st nr = (case st of (c, oks, node_errors) \<Rightarrow>
     case nr_result nr of
       Inr val \<Rightarrow> (case f c (oks @ [val]) of
                    (Some result, c') \<Rightarrow> Return (Inr result, c')
                  | (None, c') \<Rightarrow> Continue (c', oks @ [val], node_errors))
     | Inl (Transport s) \<Rightarrow> Continue (c, oks, node_errors @ [node_error_of (nr_node_id nr) s])
     | Inl _ \<Rightarrow> Continue (c, oks, node_errors))"

interpretation quorum_select: select_loop "quorum_loop f" "quorum_body f"
  "\<lambda>(c, oks, node_errors). (Inl Cancelled, c)"
  "\<lambda>(c, oks, node_errors). (Inl (incomplete node_errors), c)" for f
  by unfold_locales
    (auto simp: quorum_body_def Let_def split: sum.splits error.splits option.splits prod.splits)

section \<open>What the loops compute\<close>

text \<open>The successful values, and the errors each terminal method reports, in arrival order.\<close>

definition oks :: "'t node_response list \<Rightarrow> 't list" where
  "oks rs = List.map_filter (\<lambda>nr. case nr_result nr of Inl _ \<Rightarrow> None | Inr v \<Rightarrow> Some v) rs"

definition all_errors :: "'t node_response list \<Rightarrow> node_error list" where
  "all_errors rs = List.map_filter (\<lambda>nr. case nr_result nr of
     Inl (Transport s) \<Rightarrow> Some (node_error_of (nr_node_id nr) s)
   | Inl _ \<Rightarrow> Some (node_error_of (nr_node_id nr) (status_internal ''internal error''))
   | Inr v \<Rightarrow> None) rs"

definition transport_errors :: "'t node_response list \<Rightarrow> node_error list" where
  "transport_errors rs = List.map_filter (\<lambda>nr. case nr_result nr of
     Inl (Transport s) \<Rightarrow> Some (node_error_of (nr_node_id nr) s) | _ \<Rightarrow> None) rs"

lemma report_simps [simp]:
  "oks [] = []" "all_errors [] = []" "transport_errors [] = []"
  "oks (nr # rs) = (case nr_result nr of Inl _ \<Rightarrow> oks rs | Inr v \<Rightarrow> v # oks rs)"
  "all_errors (nr # rs) = (case nr_result nr of
     Inl e \<Rightarrow> node_error_of (nr_node_id nr) (case e of Transport s \<Rightarrow> s | _ \<Rightarrow> status_internal ''internal error'')
       # all_errors rs
   | Inr v \<Rightarrow> all_errors rs)"
  "transport_errors (nr # rs) = (case nr_result nr of
     Inl (Transport s) \<Rightarrow> node_error_of (nr_node_id nr) s # transport_errors rs | _ \<Rightarrow> transport_errors rs)"
  by (auto simp: oks_def all_errors_def transport_errors_def List.map_filter_simps
      split: sum.splits error.splits)

lemma oks_nodes:
  "set (oks rs) = {v. \<exists>nr \<in> set rs. nr_result nr = Inr v}"
  by (induction rs) (auto split: sum.splits)

lemma length_oks: "length (oks rs) = length (filter (\<lambda>nr. \<exists>v. nr_result nr = Inr v) rs)"
  by (induction rs) (auto split: sum.splits)

lemma threshold_body_simps:
  "nr_result nr = Inl e \<Longrightarrow> threshold_body k (cnt, first_ok, es) nr =
     Continue (cnt, first_ok, es @ [node_error_of (nr_node_id nr)
       (case e of Transport s \<Rightarrow> s | _ \<Rightarrow> status_internal ''internal error'')])"
  "nr_result nr = Inr v \<Longrightarrow> threshold_body k (cnt, first_ok, es) nr =
     (if k \<le> Suc cnt then Return (Inr (case first_ok of None \<Rightarrow> v | Some w \<Rightarrow> w))
      else Continue (Suc cnt, Some (case first_ok of None \<Rightarrow> v | Some w \<Rightarrow> w), es))"
  by (simp_all add: threshold_body_def)

lemma feed_threshold:
  assumes "first_ok = None \<longleftrightarrow> cnt = 0" and "cnt < max 1 k"
  shows "feed (threshold_body k) (cnt, first_ok, es) rs =
    (if max 1 k \<le> cnt + length (oks rs)
     then Return (Inr (case first_ok of None \<Rightarrow> hd (oks rs) | Some v \<Rightarrow> v))
     else Continue (cnt + length (oks rs),
            (case first_ok of None \<Rightarrow> (case oks rs of [] \<Rightarrow> None | v # _ \<Rightarrow> Some v) | Some v \<Rightarrow> Some v),
            es @ all_errors rs))"
  using assms
proof (induction rs arbitrary: cnt first_ok es)
  case Nil
  then show ?case by (auto split: option.splits)
next
  case (Cons nr rs)
  show ?case
  proof (cases "nr_result nr")
    case (Inl e)
    then have "oks (nr # rs) = oks rs" by simp
    with Inl Cons.IH [OF Cons.prems] show ?thesis
      by (simp only: feed.simps threshold_body_simps flow.case) (simp add: Inl)
  next
    case (Inr v)
    show ?thesis
    proof (cases "k \<le> Suc cnt")
      case True
      with Inr Cons.prems show ?thesis
        by (auto simp: threshold_body_simps split: option.splits)
    next
      case False
      with Cons.IH [of "Some (case first_ok of None \<Rightarrow> v | Some w \<Rightarrow> w)" "Suc cnt"] Inr show ?thesis
        by (auto simp: threshold_body_simps split: option.splits)
    qed
  qed
qed

lemmas feed_threshold_start = feed_threshold [of None 0 for k, simplified]

text \<open>The decision of a quorum predicate on a growing list of replies.\<close>

fun decide :: "('f \<Rightarrow> 't list \<Rightarrow> 't option \<times> 'f) \<Rightarrow> 'f \<Rightarrow> 't list \<Rightarrow> 't list \<Rightarrow> 't option \<times> 'f" where
  "decide f c acc [] = (None, c)"
| "decide f c acc (v # vs) =
     (case f c (acc @ [v]) of (Some r, c') \<Rightarrow> (Some r, c') | (None, c') \<Rightarrow> decide f c' (acc @ [v]) vs)"

lemma feed_quorum:
  "feed (quorum_body f) (c, acc, es) rs =
     (case decide f c acc (oks rs) of
        (Some r, c') \<Rightarrow> Return (Inr r, c')
      | (None, c') \<Rightarrow> Continue (c', acc @ oks rs, es @ transport_errors rs))"
  by (induction rs arbitrary: c acc es)
    (auto simp: quorum_body_def split: sum.splits error.splits option.splits prod.splits)

lemma decide_pure:
  "decide (\<lambda>_ vs. (g vs, ())) () acc vs = (Some r, ()) \<longleftrightarrow>
     (\<exists>n < length vs. g (acc @ take (Suc n) vs) = Some r \<and> (\<forall>m < n. g (acc @ take (Suc m) vs) = None))"
proof (induction vs arbitrary: acc)
  case Nil
  then show ?case by simp
next
  case (Cons v vs)
  show ?case
  proof (cases "g (acc @ [v])")
    case None
    with Cons.IH [of "acc @ [v]"] show ?thesis
      by (auto simp: Ex_less_Suc2 All_less_Suc2)
  next
    case (Some r')
    then show ?thesis
      by (auto simp: Ex_less_Suc2 All_less_Suc2)
  qed
qed

lemma send_now_idem: "send_now h = (fs, h') \<Longrightarrow> send_now h' = ([], h')"
  by (auto simp: send_now_def split: option.splits)

section \<open>Properties\<close>

text \<open>
  C7. \<^verbatim>\<open>Responses::threshold(k)\<close>, exactly: after any run of polls in which items arrived, the call has
  returned the first successful reply as soon as \<open>max 1 k\<close> successes have come in, and is still waiting
  before; if the channel closes first it fails with \<^verbatim>\<open>Incomplete\<close> and one node error per failed reply,
  in arrival order; if the token fires first it fails with \<^verbatim>\<open>Cancelled\<close>. Threshold 0 still waits for
  one success.
\<close>

theorem threshold_result:
  assumes "list_all quiet obs"
  shows "snd (threshold k h obs) =
      (if max 1 k \<le> length (oks (items obs)) then Finished (Inr (hd (oks (items obs)))) else Waiting)
    \<and> snd (threshold k h (obs @ (False, Disconnected) # rest)) =
      Finished (if max 1 k \<le> length (oks (items obs)) then Inr (hd (oks (items obs)))
                else Inl (incomplete (all_errors (items obs))))
    \<and> snd (threshold k h (obs @ (True, r) # rest)) =
      Finished (if max 1 k \<le> length (oks (items obs)) then Inr (hd (oks (items obs))) else Inl Cancelled)"
  using assms
  by (simp add: threshold_def threshold_select.loop_quiet_only threshold_select.loop_until_closed
      threshold_select.loop_until_cancelled feed_threshold)

theorem threshold_result_witness:
  "snd (threshold 2 \<lparr>rs_size = 3, launch = Some ()\<rparr>
     ([(False, Item \<lparr>nr_node_id = 1, nr_result = Inr (10::nat)\<rparr>), (False, Empty),
       (False, Item \<lparr>nr_node_id = 2, nr_result = Inl StreamDown\<rparr>)] @ (False, Disconnected) # []))
   = Finished (Inl (incomplete [\<lparr>ne_node_id = 2, ne_cause = TonicStatus 13 ''internal error''\<rparr>]))"
proof -
  let ?obs = "[(False, Item \<lparr>nr_node_id = 1, nr_result = Inr (10::nat)\<rparr>), (False, Empty),
     (False, Item \<lparr>nr_node_id = 2, nr_result = Inl StreamDown\<rparr>)]"
  have q: "list_all quiet ?obs" by simp
  show ?thesis
    using threshold_result [OF q, of 2 "\<lparr>rs_size = 3, launch = Some ()\<rparr>" "[]"]
    by (simp add: node_error_of_def status_internal_def)
qed

text \<open>
  C8. \<^verbatim>\<open>Responses::quorum(f)\<close>, exactly: the predicate is called once per successful reply, each time
  with all successes so far in arrival order; the call returns the first value the predicate produces,
  together with the state the predicate captured; before that it waits, and on closure or cancellation
  it fails with \<^verbatim>\<open>Incomplete\<close> (listing only transport errors) or \<^verbatim>\<open>Cancelled\<close>.
\<close>

theorem quorum_result:
  assumes "list_all quiet obs"
  shows "snd (quorum f c h obs) =
      (case decide f c [] (oks (items obs)) of (Some v, c') \<Rightarrow> Finished (Inr v, c') | (None, c') \<Rightarrow> Waiting)
    \<and> snd (quorum f c h (obs @ (False, Disconnected) # rest)) =
      (case decide f c [] (oks (items obs)) of
         (Some v, c') \<Rightarrow> Finished (Inr v, c')
       | (None, c') \<Rightarrow> Finished (Inl (incomplete (transport_errors (items obs))), c'))
    \<and> snd (quorum f c h (obs @ (True, r) # rest)) =
      (case decide f c [] (oks (items obs)) of
         (Some v, c') \<Rightarrow> Finished (Inr v, c') | (None, c') \<Rightarrow> Finished (Inl Cancelled, c'))"
  using assms
  by (auto simp: quorum_def quorum_select.loop_quiet_only quorum_select.loop_until_closed
      quorum_select.loop_until_cancelled feed_quorum split: prod.splits option.splits)

theorem quorum_result_witness:
  "snd (quorum (\<lambda>calls vs. (if length vs = 2 then Some (last vs) else None, Suc calls)) 0
      \<lparr>rs_size = 3, launch = Some ()\<rparr>
      [(False, Item \<lparr>nr_node_id = 3, nr_result = Inr (10::nat)\<rparr>),
       (False, Item \<lparr>nr_node_id = 1, nr_result = Inl NodeClosed\<rparr>),
       (False, Item \<lparr>nr_node_id = 2, nr_result = Inr 20\<rparr>)])
   = Finished (Inr 20, 2::nat)"
proof -
  let ?obs = "[(False, Item \<lparr>nr_node_id = 3, nr_result = Inr (10::nat)\<rparr>),
       (False, Item \<lparr>nr_node_id = 1, nr_result = Inl NodeClosed\<rparr>),
       (False, Item \<lparr>nr_node_id = 2, nr_result = Inr 20\<rparr>)]"
  have q: "list_all quiet ?obs" by simp
  show ?thesis
    using quorum_result [OF q, of "\<lambda>calls vs. (if length vs = 2 then Some (last vs) else None, Suc calls)" 0
        "\<lparr>rs_size = 3, launch = Some ()\<rparr>" "[]" Empty]
    by simp
qed

lemma threshold_Ok_count:
  assumes "snd (threshold k h obs) = Finished (Inr v)"
  shows "\<exists>pre post. obs = pre @ post \<and> max 1 k \<le> length (oks (items pre)) \<and> v = hd (oks (items pre))"
proof -
  from assms have "threshold_loop k (0, None, []) obs = Finished (Inr v)" by (simp add: threshold_def)
  then show ?thesis
  proof (cases rule: threshold_select.loop_finished)
    case (returned pre post)
    then show ?thesis
      by (auto simp: feed_threshold split: if_splits)
  qed (auto simp: feed_threshold split: if_splits)
qed

end
