(* ===== verification/Ordered_Responses.thy ===== *)
theory Ordered_Responses
  imports Responses
begin

text \<open>
  \<^verbatim>\<open>src/ordered_responses.rs\<close>: responses tagged with the position of their node in the
  configuration, collected into one slot per position.
\<close>

record 't ordered_node_response =
  on_position :: nat
  on_node_id :: u32
  on_result :: "error + 't"

record 'l ordered_responses =
  ors_size :: nat
  ors_launch :: "'l option"

definition ordered_send_now :: "'l ordered_responses \<Rightarrow> 'l list \<times> 'l ordered_responses" where
  "ordered_send_now h = (case ors_launch h of Some f \<Rightarrow> ([f], h\<lparr>ors_launch := None\<rparr>) | None \<Rightarrow> ([], h))"

text \<open>\<^verbatim>\<open>for slot in &mut slots { if let Some(v) = slot.take() { return Ok(v) } }\<close>\<close>

fun take_first :: "'t option list \<Rightarrow> 't option" where
  "take_first [] = None"
| "take_first (None # slots) = take_first slots"
| "take_first (Some v # slots) = Some v"

type_synonym 't slots_tally = "'t option list \<times> nat \<times> node_error list"

fun ordered_threshold_loop ::
  "nat \<Rightarrow> 't slots_tally \<Rightarrow> 't ordered_node_response obs list \<Rightarrow> (error + 't) progress" where
  "ordered_threshold_loop k st [] = Waiting"
| "ordered_threshold_loop k st ((True, r) # obs) = Finished (Inl Cancelled)"
| "ordered_threshold_loop k st ((False, Empty) # obs) = ordered_threshold_loop k st obs"
| "ordered_threshold_loop k (slots, cnt, node_errors) ((False, Disconnected) # obs) =
     Finished (Inl (incomplete node_errors))"
| "ordered_threshold_loop k (slots, cnt, node_errors) ((False, Item nr) # obs) =
     (case on_result nr of
        Inl (Transport s) \<Rightarrow>
          ordered_threshold_loop k (slots, cnt, node_errors @ [node_error_of (on_node_id nr) s]) obs
      | Inl _ \<Rightarrow>
          ordered_threshold_loop k (slots, cnt,
            node_errors @ [node_error_of (on_node_id nr) (status_internal ''internal error'')]) obs
      | Inr val \<Rightarrow>
          (if on_position nr < length slots
           then (let slots = slots[on_position nr := Some val];
                     cnt = cnt + 1
                 in if k \<le> cnt
                    then (case take_first slots of
                            Some v \<Rightarrow> Finished (Inr v)
                          | None \<Rightarrow> ordered_threshold_loop k (slots, cnt, node_errors) obs)
                    else ordered_threshold_loop k (slots, cnt, node_errors) obs)
           else Panicked))"

definition ordered_threshold ::
  "nat \<Rightarrow> 'l ordered_responses \<Rightarrow> 't ordered_node_response obs list \<Rightarrow> 'l list \<times> (error + 't) progress" where
  "ordered_threshold k h obs =
     (fst (ordered_send_now h), ordered_threshold_loop k (replicate (ors_size h) None, 0, []) obs)"

definition ordered_first ::
  "'l ordered_responses \<Rightarrow> 't ordered_node_response obs list \<Rightarrow> 'l list \<times> (error + 't) progress" where
  "ordered_first h obs = ordered_threshold 1 h obs"

definition ordered_majority ::
  "'l ordered_responses \<Rightarrow> 't ordered_node_response obs list \<Rightarrow> 'l list \<times> (error + 't) progress" where
  "ordered_majority h obs = (let q = ors_size h div 2 + 1 in ordered_threshold q h obs)"

definition ordered_all ::
  "'l ordered_responses \<Rightarrow> 't ordered_node_response obs list \<Rightarrow> 'l list \<times> (error + 't) progress" where
  "ordered_all h obs = (let n = ors_size h in ordered_threshold n h obs)"

fun ordered_quorum_loop ::
  "('f \<Rightarrow> 't option list \<Rightarrow> 't option \<times> 'f) \<Rightarrow> 'f \<times> 't option list \<times> node_error list
   \<Rightarrow> 't ordered_node_response obs list \<Rightarrow> ((error + 't) \<times> 'f) progress" where
  "ordered_quorum_loop f st [] = Waiting"
| "ordered_quorum_loop f (c, slots, node_errors) ((True, r) # obs) = Finished (Inl Cancelled, c)"
| "ordered_quorum_loop f st ((False, Empty) # obs) = ordered_quorum_loop f st obs"
| "ordered_quorum_loop f (c, slots, node_errors) ((False, Disconnected) # obs) =
     Finished (Inl (incomplete node_errors), c)"
| "ordered_quorum_loop f (c, slots, node_errors) ((False, Item nr) # obs) =
     (case on_result nr of
        Inr val \<Rightarrow>
          (if on_position nr < length slots
           then (let slots = slots[on_position nr := Some val]
                 in case f c slots of
                      (Some result, c') \<Rightarrow> Finished (Inr result, c')
                    | (None, c') \<Rightarrow> ordered_quorum_loop f (c', slots, node_errors) obs)
           else Panicked)
      | Inl (Transport s) \<Rightarrow>
          ordered_quorum_loop f (c, slots, node_errors @ [node_error_of (on_node_id nr) s]) obs
      | Inl _ \<Rightarrow> ordered_quorum_loop f (c, slots, node_errors) obs)"

definition ordered_quorum ::
  "('f \<Rightarrow> 't option list \<Rightarrow> 't option \<times> 'f) \<Rightarrow> 'f \<Rightarrow> 'l ordered_responses
   \<Rightarrow> 't ordered_node_response obs list \<Rightarrow> 'l list \<times> ((error + 't) \<times> 'f) progress" where
  "ordered_quorum f c h obs =
     (fst (ordered_send_now h), ordered_quorum_loop f (c, replicate (ors_size h) None, []) obs)"

section \<open>The loops satisfy the contract\<close>

definition ordered_threshold_body ::
  "nat \<Rightarrow> 't slots_tally \<Rightarrow> 't ordered_node_response \<Rightarrow> ('t slots_tally, error + 't) flow" where
  "ordered_threshold_body k st nr = (case st of (slots, cnt, node_errors) \<Rightarrow>
     case on_result nr of
       Inl e \<Rightarrow> Continue (slots, cnt, node_errors @ [node_error_of (on_node_id nr)
         (case e of Transport s \<Rightarrow> s | _ \<Rightarrow> status_internal ''internal error'')])
     | Inr val \<Rightarrow>
        (if on_position nr < length slots
         then (case (if k \<le> Suc cnt then take_first (slots[on_position nr := Some val]) else None) of
                 Some v \<Rightarrow> Return (Inr v)
               | None \<Rightarrow> Continue (slots[on_position nr := Some val], Suc cnt, node_errors))
         else Panic))"

interpretation ordered_threshold_select: select_loop "ordered_threshold_loop k" "ordered_threshold_body k"
  "\<lambda>_. Inl Cancelled" "\<lambda>(slots, cnt, node_errors). Inl (incomplete node_errors)" for k
  by unfold_locales
    (auto simp: ordered_threshold_body_def Let_def split: sum.splits error.splits option.splits prod.splits)

definition ordered_quorum_body ::
  "('f \<Rightarrow> 't option list \<Rightarrow> 't option \<times> 'f) \<Rightarrow> 'f \<times> 't option list \<times> node_error list
   \<Rightarrow> 't ordered_node_response \<Rightarrow> ('f \<times> 't option list \<times> node_error list, (error + 't) \<times> 'f) flow" where
  "ordered_quorum_body f st nr = (case st of (c, slots, node_errors) \<Rightarrow>
     case on_result nr of
       Inr val \<Rightarrow>
        (if on_position nr < length slots
         then (case f c (slots[on_position nr := Some val]) of
                 (Some result, c') \<Rightarrow> Return (Inr result, c')
               | (None, c') \<Rightarrow> Continue (c', slots[on_position nr := Some val], node_errors))
         else Panic)
     | Inl (Transport s) \<Rightarrow> Continue (c, slots, node_errors @ [node_error_of (on_node_id nr) s])
     | Inl _ \<Rightarrow> Continue (c, slots, node_errors))"

interpretation ordered_quorum_select: select_loop "ordered_quorum_loop f" "ordered_quorum_body f"
  "\<lambda>(c, slots, node_errors). (Inl Cancelled, c)"
  "\<lambda>(c, slots, node_errors). (Inl (incomplete node_errors), c)" for f
  by unfold_locales
    (auto simp: ordered_quorum_body_def Let_def split: sum.splits error.splits option.splits prod.splits)

section \<open>What the loops compute\<close>

text \<open>The successful replies with their positions, and the forgetful view as plain responses.\<close>

definition placed :: "'t ordered_node_response list \<Rightarrow> (nat \<times> 't) list" where
  "placed rs = List.map_filter
     (\<lambda>nr. case on_result nr of Inl _ \<Rightarrow> None | Inr v \<Rightarrow> Some (on_position nr, v)) rs"

definition untagged :: "'t ordered_node_response \<Rightarrow> 't node_response" where
  "untagged nr = \<lparr>nr_node_id = on_node_id nr, nr_result = on_result nr\<rparr>"

definition fill :: "'t option list \<Rightarrow> nat \<times> 't \<Rightarrow> 't option list" where
  "fill slots pv = slots[fst pv := Some (snd pv)]"

lemma placed_simps [simp]:
  "placed [] = []"
  "placed (nr # rs) = (case on_result nr of Inl _ \<Rightarrow> placed rs | Inr v \<Rightarrow> (on_position nr, v) # placed rs)"
  by (auto simp: placed_def List.map_filter_simps split: sum.splits)

lemma untagged_simps [simp]:
  "nr_node_id (untagged nr) = on_node_id nr" "nr_result (untagged nr) = on_result nr"
  by (simp_all add: untagged_def)

lemma take_first_eq_None: "take_first slots = None \<longleftrightarrow> (\<forall>x \<in> set slots. x = None)"
  by (induction slots rule: take_first.induct) auto

lemma take_first_Some:
  "take_first slots = Some v \<longleftrightarrow> (\<exists>i < length slots. slots ! i = Some v \<and> (\<forall>j < i. slots ! j = None))"
proof (induction slots rule: take_first.induct)
  case (2 slots)
  then show ?case by (auto simp: Ex_less_Suc2 All_less_Suc2)
next
  case (3 w slots)
  then show ?case by (auto simp: Ex_less_Suc2 All_less_Suc2)
qed simp

lemma take_first_fill: "p < length slots \<Longrightarrow> take_first (slots[p := Some v]) \<noteq> None"
  by (simp add: take_first_eq_None) (metis length_list_update nth_list_update_eq nth_mem option.distinct(1))

lemma fill_Pair [simp]: "fill slots (p, v) = slots[p := Some v]"
  by (simp add: fill_def)

lemma length_foldl_fill [simp]: "length (foldl fill slots ps) = length slots"
  by (induction ps arbitrary: slots) (auto simp: fill_def)

lemma nth_foldl_fill:
  assumes "distinct (map fst ps)" and "i < length slots"
  shows "foldl fill slots ps ! i = (case map_of ps i of None \<Rightarrow> slots ! i | Some v \<Rightarrow> Some v)"
  using assms
proof (induction ps arbitrary: slots)
  case (Cons pv ps)
  obtain p v where pv: "pv = (p, v)" by fastforce
  with Cons.prems have IH: "foldl fill (slots[p := Some v]) ps ! i =
      (case map_of ps i of None \<Rightarrow> slots[p := Some v] ! i | Some v \<Rightarrow> Some v)"
    by (intro Cons.IH) simp_all
  show ?case
  proof (cases "i = p")
    case True
    with Cons.prems pv have "map_of ps i = None" by (auto simp: map_of_eq_None_iff)
    with IH True pv Cons.prems show ?thesis by simp
  next
    case False
    with IH pv show ?thesis by (simp split: option.splits)
  qed
qed simp

lemma lowest_filled:
  assumes "distinct (map fst ps)" and "ps \<noteq> []" and "\<forall>(p, v) \<in> set ps. p < n"
  obtains p v where "(p, v) \<in> set ps" "\<forall>(q, w) \<in> set ps. p \<le> q"
    "take_first (foldl fill (replicate n None) ps) = Some v"
proof -
  have nth: "foldl fill (replicate n None) ps ! i = map_of ps i" if "i < n" for i
    using nth_foldl_fill [OF assms(1), of i "replicate n None"] that by (simp split: option.splits)
  obtain p v where pv: "(p, v) \<in> set ps" and least: "\<forall>(q, w) \<in> set ps. p \<le> q"
  proof -
    have "Min (fst ` set ps) \<in> fst ` set ps" using assms(2) by simp
    moreover have "\<forall>(q, w) \<in> set ps. Min (fst ` set ps) \<le> q" by (force intro: Min_le)
    ultimately show thesis using that by fastforce
  qed
  have "p < n" using pv assms(3) by auto
  moreover have "foldl fill (replicate n None) ps ! p = Some v"
    using pv assms(1) nth [OF \<open>p < n\<close>] by simp
  moreover have "foldl fill (replicate n None) ps ! j = None" if "j < p" for j
    using that least nth [of j] \<open>p < n\<close> by (force simp: map_of_eq_None_iff)
  ultimately have "take_first (foldl fill (replicate n None) ps) = Some v"
    by (auto simp: take_first_Some)
  with pv least show thesis by (rule that)
qed

lemma ordered_threshold_body_simps:
  "on_result nr = Inl e \<Longrightarrow> ordered_threshold_body k (slots, cnt, es) nr =
     Continue (slots, cnt, es @ [node_error_of (on_node_id nr)
       (case e of Transport s \<Rightarrow> s | _ \<Rightarrow> status_internal ''internal error'')])"
  "on_result nr = Inr v \<Longrightarrow> on_position nr < length slots \<Longrightarrow> ordered_threshold_body k (slots, cnt, es) nr =
     (if k \<le> Suc cnt then Return (Inr (the (take_first (fill slots (on_position nr, v)))))
      else Continue (fill slots (on_position nr, v), Suc cnt, es))"
  using take_first_fill [of "on_position nr" slots v]
  by (auto simp: ordered_threshold_body_def fill_def split: option.splits)

lemma feed_ordered_threshold:
  assumes "cnt < max 1 k" and "\<forall>(p, v) \<in> set (placed rs). p < length slots"
  shows "feed (ordered_threshold_body k) (slots, cnt, es) rs =
    (if max 1 k \<le> cnt + length (placed rs)
     then Return (Inr (the (take_first (foldl fill slots (take (max 1 k - cnt) (placed rs))))))
     else Continue (foldl fill slots (placed rs), cnt + length (placed rs), es @ all_errors (map untagged rs)))"
  using assms
proof (induction rs arbitrary: slots cnt es)
  case (Cons nr rs)
  show ?case
  proof (cases "on_result nr")
    case (Inl e)
    then have p: "placed (nr # rs) = placed rs" by simp
    have "feed (ordered_threshold_body k) (slots, cnt, es) (nr # rs) =
        feed (ordered_threshold_body k) (slots, cnt, es @ [node_error_of (on_node_id nr)
          (case e of Transport s \<Rightarrow> s | _ \<Rightarrow> status_internal ''internal error'')]) rs"
      by (simp add: ordered_threshold_body_simps(1) [OF Inl])
    then show ?thesis
      using Cons.IH [OF Cons.prems(1), of slots] Cons.prems(2) Inl unfolding p by simp
  next
    case (Inr v)
    then have p: "placed (nr # rs) = (on_position nr, v) # placed rs" by simp
    with Cons.prems(2) have pos: "on_position nr < length slots" by simp
    have len: "length (fill slots (on_position nr, v)) = length slots" by (simp add: fill_def)
    show ?thesis
    proof (cases "k \<le> Suc cnt")
      case True
      with Cons.prems(1) have "max 1 k - cnt = 1" by linarith
      with True p show ?thesis
        by (simp add: ordered_threshold_body_simps(2) [OF Inr pos])
    next
      case False
      then have m: "Suc cnt < max 1 k" "max 1 k - cnt = Suc (max 1 k - Suc cnt)" by linarith+
      have "feed (ordered_threshold_body k) (slots, cnt, es) (nr # rs) =
          feed (ordered_threshold_body k) (fill slots (on_position nr, v), Suc cnt, es) rs"
        using False by (simp add: ordered_threshold_body_simps(2) [OF Inr pos])
      also have "\<dots> = (if max 1 k \<le> Suc cnt + length (placed rs)
         then Return (Inr (the (take_first (foldl fill (fill slots (on_position nr, v))
                (take (max 1 k - Suc cnt) (placed rs))))))
         else Continue (foldl fill (fill slots (on_position nr, v)) (placed rs), Suc cnt + length (placed rs),
                es @ all_errors (map untagged rs)))"
        using Cons.prems(2) p by (intro Cons.IH [OF m(1)]) (simp add: len)
      finally show ?thesis
        using p Inr m(2) by simp
    qed
  qed
qed (auto simp: max_def split: if_splits)

section \<open>Properties\<close>

text \<open>
  C34. \<^verbatim>\<open>OrderedResponses::threshold(k)\<close>: when every node of the configuration reports at most once, at
  its own position, the call never panics; it returns exactly when \<open>max 1 k\<close> successes have arrived, and
  then the value of the lowest-position node among those; before that it waits, and on closure or
  cancellation fails with \<^verbatim>\<open>Incomplete\<close> or \<^verbatim>\<open>Cancelled\<close>.
\<close>

theorem ordered_threshold_result:
  assumes "list_all quiet obs" and "distinct (map fst (placed (items obs)))"
    and "\<forall>(p, v) \<in> set (placed (items obs)). p < ors_size h"
  shows "if max 1 k \<le> length (placed (items obs))
    then (\<exists>p v. (p, v) \<in> set (take (max 1 k) (placed (items obs)))
       \<and> (\<forall>(q, w) \<in> set (take (max 1 k) (placed (items obs))). p \<le> q)
       \<and> snd (ordered_threshold k h (obs @ rest)) = Finished (Inr v))
    else snd (ordered_threshold k h obs) = Waiting
       \<and> snd (ordered_threshold k h (obs @ (False, Disconnected) # rest)) =
           Finished (Inl (incomplete (all_errors (map untagged (items obs)))))
       \<and> snd (ordered_threshold k h (obs @ (True, r) # rest)) = Finished (Inl Cancelled)"
proof (cases "max 1 k \<le> length (placed (items obs))")
  case True
  let ?ps = "take (max 1 k) (placed (items obs))"
  have d: "distinct (map fst ?ps)" using assms(2) by (simp add: take_map [symmetric])
  have ne: "?ps \<noteq> []" using True by auto
  have b: "\<forall>(p, v) \<in> set ?ps. p < ors_size h" using assms(3) by (auto dest: in_set_takeD)
  from lowest_filled [OF d ne b] obtain p v where "(p, v) \<in> set ?ps" "\<forall>(q, w) \<in> set ?ps. p \<le> q"
    and v: "take_first (foldl fill (replicate (ors_size h) None) ?ps) = Some v" by blast
  moreover have "snd (ordered_threshold k h (obs @ rest)) = Finished (Inr v)"
    using True v assms
    by (simp add: ordered_threshold_def ordered_threshold_select.loop_quiet feed_ordered_threshold)
  ultimately have "\<exists>p v. (p, v) \<in> set ?ps \<and> (\<forall>(q, w) \<in> set ?ps. p \<le> q)
      \<and> snd (ordered_threshold k h (obs @ rest)) = Finished (Inr v)" by blast
  with True show ?thesis by simp
next
  case False
  have "feed (ordered_threshold_body k) (replicate (ors_size h) None, 0, []) (items obs) =
      Continue (foldl fill (replicate (ors_size h) None) (placed (items obs)), length (placed (items obs)),
        all_errors (map untagged (items obs)))"
    using False assms(3) by (subst feed_ordered_threshold) auto
  with assms(1) show ?thesis
    unfolding if_not_P [OF False]
    by (simp add: ordered_threshold_def ordered_threshold_select.loop_quiet_only
        ordered_threshold_select.loop_until_closed ordered_threshold_select.loop_until_cancelled)
qed

theorem ordered_threshold_result_witness:
  "snd (ordered_threshold 2 \<lparr>ors_size = 3, ors_launch = Some ()\<rparr>
     ([(False, Item \<lparr>on_position = 2, on_node_id = 3, on_result = Inr (30::nat)\<rparr>),
       (False, Item \<lparr>on_position = 0, on_node_id = 1, on_result = Inr 10\<rparr>)] @ []))
   = Finished (Inr 10)"
proof -
  let ?obs = "[(False, Item \<lparr>on_position = 2, on_node_id = 3, on_result = Inr (30::nat)\<rparr>),
       (False, Item \<lparr>on_position = 0, on_node_id = 1, on_result = Inr 10\<rparr>)]"
  let ?h = "\<lparr>ors_size = 3, ors_launch = Some ()\<rparr>"
  have q: "list_all quiet ?obs" by simp
  have d: "distinct (map fst (placed (items ?obs)))" by simp
  have b: "\<forall>(p, v) \<in> set (placed (items ?obs)). p < ors_size ?h" by simp
  have "max 1 2 \<le> length (placed (items ?obs))" by simp
  with ordered_threshold_result [OF q d b, of 2 "[]"] show ?thesis by auto
qed

end
