(* ===== verification/Correctable.thy ===== *)
theory Correctable
  imports Responses
begin

text \<open>
  \<^verbatim>\<open>src/correctable.rs\<close>: the handle of a correctable call, where each node may send several
  responses. Terminal methods count distinct nodes; the handle is also a \<^verbatim>\<open>Stream\<close>.
\<close>

record 'l correctable =
  co_size :: nat
  co_launch :: "'l option"

definition co_send_now :: "'l correctable \<Rightarrow> 'l list \<times> 'l correctable" where
  "co_send_now h = (case co_launch h of Some f \<Rightarrow> ([f], h\<lparr>co_launch := None\<rparr>) | None \<Rightarrow> ([], h))"

section \<open>The stream\<close>

datatype 'a poll = Ready 'a | Pending

text \<open>
  One \<^verbatim>\<open>poll_next\<close> on what it finds: the fan-outs it starts, the handle afterwards, the result, and
  whether it spawned the task that wakes the caller on cancellation.
\<close>

definition poll_next ::
  "'l correctable \<Rightarrow> 't node_response obs
   \<Rightarrow> 'l list \<times> 'l correctable \<times> (error + 't node_response) option poll \<times> bool" where
  "poll_next h ob = (case co_send_now h of (fs, h') \<Rightarrow>
     (if fst ob then (fs, h', Ready (Some (Inl Cancelled)), False)
      else case snd ob of
        Item nr \<Rightarrow> (fs, h', Ready (Some (Inr nr)), False)
      | Disconnected \<Rightarrow> (fs, h', Ready None, False)
      | Empty \<Rightarrow> (fs, h', Pending, True)))"

section \<open>Terminal methods\<close>

type_synonym co_tally = "u32 set \<times> u32 set \<times> node_error list"

text \<open>\<^verbatim>\<open>self.size - k\<close> is evaluated only on a new failure; it panics when \<open>k\<close> exceeds the size.\<close>

fun co_threshold_loop ::
  "nat \<Rightarrow> nat \<Rightarrow> co_tally \<Rightarrow> 't node_response obs list \<Rightarrow> (error + 't) progress" where
  "co_threshold_loop sz k st [] = Waiting"
| "co_threshold_loop sz k st ((True, r) # obs) = Finished (Inl Cancelled)"
| "co_threshold_loop sz k st ((False, Empty) # obs) = co_threshold_loop sz k st obs"
| "co_threshold_loop sz k (responded, failed, node_errors) ((False, Disconnected) # obs) =
     Finished (Inl (incomplete node_errors))"
| "co_threshold_loop sz k (responded, failed, node_errors) ((False, Item nr) # obs) =
     (case nr_result nr of
        Inr val \<Rightarrow>
          (let is_new = nr_node_id nr \<notin> responded;
               responded = insert (nr_node_id nr) responded
           in if is_new \<and> k \<le> card responded then Finished (Inr val)
              else co_threshold_loop sz k (responded, failed, node_errors) obs)
      | Inl (Transport s) \<Rightarrow>
          (if nr_node_id nr \<notin> responded \<and> nr_node_id nr \<notin> failed
           then (let failed = insert (nr_node_id nr) failed;
                     node_errors = node_errors @ [node_error_of (nr_node_id nr) s]
                 in if sz < k then Panicked
                    else if sz - k < card failed then Finished (Inl (incomplete node_errors))
                    else co_threshold_loop sz k (responded, failed, node_errors) obs)
           else co_threshold_loop sz k (responded, failed, node_errors) obs)
      | Inl _ \<Rightarrow> co_threshold_loop sz k (responded, failed, node_errors) obs)"

definition co_threshold ::
  "nat \<Rightarrow> 'l correctable \<Rightarrow> 't node_response obs list \<Rightarrow> 'l list \<times> (error + 't) progress" where
  "co_threshold k h obs = (fst (co_send_now h), co_threshold_loop (co_size h) k ({}, {}, []) obs)"

definition co_first :: "'l correctable \<Rightarrow> 't node_response obs list \<Rightarrow> 'l list \<times> (error + 't) progress" where
  "co_first h obs = co_threshold 1 h obs"

definition co_majority :: "'l correctable \<Rightarrow> 't node_response obs list \<Rightarrow> 'l list \<times> (error + 't) progress" where
  "co_majority h obs = (let q = co_size h div 2 + 1 in co_threshold q h obs)"

definition co_all :: "'l correctable \<Rightarrow> 't node_response obs list \<Rightarrow> 'l list \<times> (error + 't) progress" where
  "co_all h obs = (let n = co_size h in co_threshold n h obs)"

fun co_quorum_loop ::
  "('f \<Rightarrow> 't list \<Rightarrow> 't option \<times> 'f) \<Rightarrow> 'f \<times> 't list \<times> node_error list \<Rightarrow> 't node_response obs list
   \<Rightarrow> ((error + 't) \<times> 'f) progress" where
  "co_quorum_loop f st [] = Waiting"
| "co_quorum_loop f (c, acc, node_errors) ((True, r) # obs) = Finished (Inl Cancelled, c)"
| "co_quorum_loop f st ((False, Empty) # obs) = co_quorum_loop f st obs"
| "co_quorum_loop f (c, acc, node_errors) ((False, Disconnected) # obs) =
     Finished (Inl (incomplete node_errors), c)"
| "co_quorum_loop f (c, acc, node_errors) ((False, Item nr) # obs) =
     (case nr_result nr of
        Inr val \<Rightarrow>
          (let acc = acc @ [val]
           in case f c acc of
                (Some result, c') \<Rightarrow> Finished (Inr result, c')
              | (None, c') \<Rightarrow> co_quorum_loop f (c', acc, node_errors) obs)
      | Inl (Transport s) \<Rightarrow>
          co_quorum_loop f (c, acc, node_errors @ [node_error_of (nr_node_id nr) s]) obs
      | Inl _ \<Rightarrow> co_quorum_loop f (c, acc, node_errors) obs)"

definition co_quorum ::
  "('f \<Rightarrow> 't list \<Rightarrow> 't option \<times> 'f) \<Rightarrow> 'f \<Rightarrow> 'l correctable \<Rightarrow> 't node_response obs list
   \<Rightarrow> 'l list \<times> ((error + 't) \<times> 'f) progress" where
  "co_quorum f c h obs = (fst (co_send_now h), co_quorum_loop f (c, [], []) obs)"

section \<open>The loops satisfy the contract\<close>

definition co_threshold_body ::
  "nat \<Rightarrow> nat \<Rightarrow> co_tally \<Rightarrow> 't node_response \<Rightarrow> (co_tally, error + 't) flow" where
  "co_threshold_body sz k st nr = (case st of (responded, failed, node_errors) \<Rightarrow>
     case nr_result nr of
       Inr val \<Rightarrow>
         if nr_node_id nr \<notin> responded \<and> k \<le> card (insert (nr_node_id nr) responded) then Return (Inr val)
         else Continue (insert (nr_node_id nr) responded, failed, node_errors)
     | Inl (Transport s) \<Rightarrow>
         if nr_node_id nr \<notin> responded \<and> nr_node_id nr \<notin> failed
         then (if sz < k then Panic
               else if sz - k < card (insert (nr_node_id nr) failed)
               then Return (Inl (incomplete (node_errors @ [node_error_of (nr_node_id nr) s])))
               else Continue (responded, insert (nr_node_id nr) failed,
                      node_errors @ [node_error_of (nr_node_id nr) s]))
         else Continue (responded, failed, node_errors)
     | Inl _ \<Rightarrow> Continue (responded, failed, node_errors))"

interpretation co_threshold_select: select_loop "co_threshold_loop sz k" "co_threshold_body sz k"
  "\<lambda>_. Inl Cancelled" "\<lambda>(responded, failed, node_errors). Inl (incomplete node_errors)" for sz k
  by unfold_locales
    (auto simp: co_threshold_body_def Let_def split: sum.splits error.splits option.splits prod.splits)

text \<open>The quorum loop has the body of \<^verbatim>\<open>Responses::quorum\<close>, so all its lemmas apply.\<close>

interpretation co_quorum_select: select_loop "co_quorum_loop f" "quorum_body f"
  "\<lambda>(c, acc, node_errors). (Inl Cancelled, c)"
  "\<lambda>(c, acc, node_errors). (Inl (incomplete node_errors), c)" for f
  by unfold_locales
    (auto simp: quorum_body_def Let_def split: sum.splits error.splits option.splits prod.splits)

section \<open>What the threshold loop computes\<close>

definition ok_nodes :: "'t node_response list \<Rightarrow> u32 set" where
  "ok_nodes rs = {nr_node_id nr | nr. nr \<in> set rs \<and> (\<exists>v. nr_result nr = Inr v)}"

definition err_nodes :: "'t node_response list \<Rightarrow> u32 set" where
  "err_nodes rs = {nr_node_id nr | nr. nr \<in> set rs \<and> (\<exists>s. nr_result nr = Inl (Transport s))}"

lemma node_sets_simps [simp]:
  "ok_nodes [] = {}" "err_nodes [] = {}"
  "ok_nodes (nr # rs) = (case nr_result nr of Inr v \<Rightarrow> insert (nr_node_id nr) (ok_nodes rs) | Inl _ \<Rightarrow> ok_nodes rs)"
  "err_nodes (nr # rs) = (case nr_result nr of Inl (Transport s) \<Rightarrow> insert (nr_node_id nr) (err_nodes rs)
     | _ \<Rightarrow> err_nodes rs)"
  by (auto simp: ok_nodes_def err_nodes_def split: sum.splits error.splits)

lemma finite_ok_nodes [simp]: "finite (ok_nodes rs)"
  by (induction rs) (auto split: sum.splits)

lemma finite_err_nodes [simp]: "finite (err_nodes rs)"
  by (induction rs) (auto split: sum.splits error.splits)

lemma ok_nodes_append [simp]: "ok_nodes (xs @ ys) = ok_nodes xs \<union> ok_nodes ys"
  by (auto simp: ok_nodes_def)

lemma err_nodes_append [simp]: "err_nodes (xs @ ys) = err_nodes xs \<union> err_nodes ys"
  by (auto simp: err_nodes_def)

text \<open>What the loop state means after it has consumed \<open>rs\<close> without returning.\<close>

definition co_state :: "nat \<Rightarrow> nat \<Rightarrow> 't node_response list \<Rightarrow> co_tally \<Rightarrow> bool" where
  "co_state sz k rs st = (case st of (responded, failed, node_errors) \<Rightarrow>
     responded = ok_nodes rs \<and> failed \<subseteq> err_nodes rs \<and> err_nodes rs \<subseteq> responded \<union> failed
     \<and> set (map ne_node_id node_errors) = failed \<and> distinct (map ne_node_id node_errors)
     \<and> (failed \<noteq> {} \<longrightarrow> k \<le> sz \<and> card failed \<le> sz - k)
     \<and> (rs \<noteq> [] \<longrightarrow> ok_nodes rs \<noteq> {} \<longrightarrow> card (ok_nodes rs) < k))"

lemma co_state_step:
  assumes "co_state sz k rs st"
  shows "case co_threshold_body sz k st nr of
      Continue st' \<Rightarrow> co_state sz k (rs @ [nr]) st'
    | Return (Inr v) \<Rightarrow> nr_result nr = Inr v \<and> nr_node_id nr \<notin> ok_nodes rs \<and> card (ok_nodes (rs @ [nr])) = max 1 k
    | Return (Inl e) \<Rightarrow> (\<exists>es. e = incomplete es \<and> k \<le> sz \<and> sz - k < card (err_nodes (rs @ [nr]))
        \<and> set (map ne_node_id es) \<subseteq> err_nodes (rs @ [nr]))
    | Panic \<Rightarrow> sz < k \<and> err_nodes (rs @ [nr]) \<noteq> {}"
proof -
  obtain responded failed es where st: "st = (responded, failed, es)" by (metis prod_cases3)
  note inv = assms [unfolded st co_state_def prod.case]
  have finf: "finite failed" using inv finite_subset by blast
  show ?thesis
  proof (cases "nr_result nr")
    case (Inr v)
    then show ?thesis
      using inv by (auto simp: st co_threshold_body_def co_state_def card_insert_if insert_absorb max_def
          split: if_splits)
  next
    case (Inl e)
    then show ?thesis
    proof (cases e)
      case (Transport s)
      have "card failed \<le> card (err_nodes rs)" using inv by (intro card_mono) auto
      moreover have "card (insert (nr_node_id nr) failed) \<le> card (insert (nr_node_id nr) (err_nodes rs))"
        using inv by (intro card_mono) auto
      ultimately show ?thesis
        using inv Inl Transport finf
        by (auto simp: st co_threshold_body_def co_state_def node_error_of_def)
    qed (use inv in \<open>auto simp: st co_threshold_body_def co_state_def\<close>)
  qed
qed

lemma co_state_start: "co_state sz k [] ({}, {}, [])"
  by (simp add: co_state_def)

lemma feed_co_threshold:
  assumes "co_state sz k pre st"
  shows "case feed (co_threshold_body sz k) st rs of
      Continue st' \<Rightarrow> co_state sz k (pre @ rs) st'
    | Return (Inr v) \<Rightarrow> (\<exists>mid nr post. rs = mid @ nr # post \<and> nr_result nr = Inr v
        \<and> nr_node_id nr \<notin> ok_nodes (pre @ mid) \<and> card (ok_nodes (pre @ mid @ [nr])) = max 1 k)
    | Return (Inl e) \<Rightarrow> (\<exists>es. e = incomplete es \<and> k \<le> sz \<and> sz - k < card (err_nodes (pre @ rs))
        \<and> set (map ne_node_id es) \<subseteq> err_nodes (pre @ rs))
    | Panic \<Rightarrow> sz < k \<and> err_nodes (pre @ rs) \<noteq> {}"
  using assms
proof (induction rs arbitrary: pre st)
  case Nil
  then show ?case by simp
next
  case (Cons nr rs)
  note step = co_state_step [OF Cons.prems, of nr]
  have grow: "card (err_nodes (pre @ [nr])) \<le> card (err_nodes (pre @ nr # rs))"
    by (intro card_mono) (auto split: sum.splits error.splits)
  have sub: "err_nodes (pre @ [nr]) \<subseteq> err_nodes (pre @ nr # rs)"
    by (auto split: sum.splits error.splits)
  show ?case
  proof (cases "co_threshold_body sz k st nr")
    case (Continue st')
    with step have "co_state sz k (pre @ [nr]) st'" by simp
    note IH = Cons.IH [OF this]
    show ?thesis
    proof (cases "\<exists>v. feed (co_threshold_body sz k) st' rs = Return (Inr v)")
      case True
      then obtain v where v: "feed (co_threshold_body sz k) st' rs = Return (Inr v)" by blast
      with IH obtain mid nr' post where "rs = mid @ nr' # post" "nr_result nr' = Inr v"
        "nr_node_id nr' \<notin> ok_nodes (pre @ nr # mid)" "card (ok_nodes (pre @ (nr # mid) @ [nr'])) = max 1 k"
        by (auto simp del: node_sets_simps(3) ok_nodes_append)
      then have "\<exists>mid nr' post. nr # rs = mid @ nr' # post \<and> nr_result nr' = Inr v
          \<and> nr_node_id nr' \<notin> ok_nodes (pre @ mid) \<and> card (ok_nodes (pre @ mid @ [nr'])) = max 1 k"
        by - (rule exI [of _ "nr # mid"], rule exI [of _ nr'], rule exI [of _ post], simp)
      with v Continue show ?thesis by simp
    next
      case False
      with IH Continue show ?thesis
        by (cases "feed (co_threshold_body sz k) st' rs") (auto split: sum.splits)
    qed
  next
    case (Return r)
    show ?thesis
    proof (cases r)
      case (Inl e)
      with Return step grow sub show ?thesis
        by (auto simp del: err_nodes_append intro: less_le_trans)
    next
      case (Inr v)
      with Return step have "nr_result nr = Inr v \<and> nr_node_id nr \<notin> ok_nodes (pre @ [])
          \<and> card (ok_nodes (pre @ [] @ [nr])) = max 1 k" by auto
      then have "\<exists>mid nr' post. nr # rs = mid @ nr' # post \<and> nr_result nr' = Inr v
          \<and> nr_node_id nr' \<notin> ok_nodes (pre @ mid) \<and> card (ok_nodes (pre @ mid @ [nr'])) = max 1 k"
        by - (rule exI [of _ "[]"], rule exI [of _ nr], rule exI [of _ rs], auto)
      with Return Inr show ?thesis by simp
    qed
  next
    case Panic
    with step sub show ?thesis by (auto simp del: err_nodes_append)
  qed
qed

section \<open>Properties\<close>

text \<open>
  C35. \<^verbatim>\<open>Correctable::threshold(k)\<close> is sound: when it returns a value, that value is the successful
  response by which the \<open>max 1 k\<close>-th distinct node has answered; repeated answers of one node never
  count twice.
\<close>

theorem co_threshold_sound:
  assumes "snd (co_threshold k h obs) = Finished (Inr v)"
  shows "\<exists>mid nr post. items obs = mid @ nr # post \<and> nr_result nr = Inr v
     \<and> nr_node_id nr \<notin> ok_nodes mid \<and> card (ok_nodes (mid @ [nr])) = max 1 k"
proof -
  from assms have "co_threshold_loop (co_size h) k ({}, {}, []) obs = Finished (Inr v)"
    by (simp add: co_threshold_def)
  then show ?thesis
  proof (cases rule: co_threshold_select.loop_finished)
    case (returned pre post)
    have "items (pre @ post) = items pre @ items post"
      by (induction pre rule: items.induct) auto
    with feed_co_threshold [OF co_state_start, of "co_size h" k "items pre"] returned show ?thesis
      by force
  qed auto
qed

theorem co_threshold_sound_witness:
  "\<exists>mid nr post. items [(False, Item \<lparr>nr_node_id = 1, nr_result = Inr (5::nat)\<rparr>),
       (False, Item \<lparr>nr_node_id = 1, nr_result = Inr 6\<rparr>), (False, Item \<lparr>nr_node_id = 2, nr_result = Inr 7\<rparr>)]
     = mid @ nr # post \<and> nr_result nr = Inr 7 \<and> nr_node_id nr \<notin> ok_nodes mid
     \<and> card (ok_nodes (mid @ [nr])) = max 1 2"
  by (rule co_threshold_sound [of 2 "\<lparr>co_size = 3, co_launch = Some ()\<rparr>"]) (simp add: co_threshold_def)

text \<open>
  \<^verbatim>\<open>Correctable::threshold(k)\<close> is complete: if a node that reported a transport error never succeeds
  and at most \<open>size\<close> nodes take part, then as soon as \<open>max 1 k\<close> distinct nodes have succeeded the call
  has returned a value; it neither waits on nor gives up early. And if it gives up before the channel
  closes, fewer than \<open>k\<close> of the participating nodes are free of errors.
\<close>

theorem co_threshold_complete:
  assumes q: "list_all quiet obs" and k: "k \<le> co_size h"
    and N: "finite N" "card N \<le> co_size h" "ok_nodes (items obs) \<union> err_nodes (items obs) \<subseteq> N"
    and final: "ok_nodes (items obs) \<inter> err_nodes (items obs) = {}"
  shows "(max 1 k \<le> card (ok_nodes (items obs)) \<longrightarrow> (\<exists>v. snd (co_threshold k h (obs @ rest)) = Finished (Inr v)))
    \<and> (\<forall>e. snd (co_threshold k h obs) = Finished (Inl e) \<longrightarrow> card (N - err_nodes (items obs)) < k)"
proof -
  let ?ok = "ok_nodes (items obs)" and ?err = "err_nodes (items obs)"
  let ?f = "feed (co_threshold_body (co_size h) k) ({}, {}, []) (items obs)"
  note run = feed_co_threshold [OF co_state_start, of "co_size h" k "items obs", simplified append_Nil]
  have "card ?ok + card ?err = card (?ok \<union> ?err)" using final by (simp add: card_Un_disjoint)
  also have "\<dots> \<le> card N" using N by (intro card_mono) auto
  finally have sum: "card ?ok + card ?err \<le> co_size h" using N(2) by simp
  have early: "card (N - ?err) < k" if "co_size h - k < card ?err"
  proof -
    have "card (N - ?err) = card N - card ?err" using N by (simp add: card_Diff_subset)
    with that k N(2) sum show ?thesis by linarith
  qed
  have "\<exists>v. snd (co_threshold k h (obs @ rest)) = Finished (Inr v)" if ge: "max 1 k \<le> card ?ok"
  proof (cases ?f)
    case (Continue st)
    with run have "?ok \<noteq> {} \<longrightarrow> card ?ok < k"
      by (auto simp: co_state_def split: prod.splits)
    with ge show ?thesis by fastforce
  next
    case (Return r)
    with run sum ge obtain v where "r = Inr v" by (cases r) auto
    with Return q show ?thesis
      by (simp add: co_threshold_def co_threshold_select.loop_quiet)
  next
    case Panic
    with run k show ?thesis by simp
  qed
  moreover have "card (N - ?err) < k" if "snd (co_threshold k h obs) = Finished (Inl e)" for e
  proof -
    from that q have "settle ?f = Finished (Inl e)"
      by (simp add: co_threshold_def co_threshold_select.loop_quiet_only)
    then have "?f = Return (Inl e)" by (cases ?f) auto
    with run early show ?thesis by auto
  qed
  ultimately show ?thesis by blast
qed

theorem co_threshold_complete_witness:
  "(\<exists>v. snd (co_threshold 2 \<lparr>co_size = 3, co_launch = Some ()\<rparr>
     ([(False, Item \<lparr>nr_node_id = 1, nr_result = Inr (5::nat)\<rparr>),
       (False, Item \<lparr>nr_node_id = 3, nr_result = Inl (Transport (TonicStatus 13 ''x''))\<rparr>),
       (False, Item \<lparr>nr_node_id = 2, nr_result = Inr 7\<rparr>)] @ [])) = Finished (Inr v))"
proof -
  let ?obs = "[(False, Item \<lparr>nr_node_id = 1, nr_result = Inr (5::nat)\<rparr>),
       (False, Item \<lparr>nr_node_id = 3, nr_result = Inl (Transport (TonicStatus 13 ''x''))\<rparr>),
       (False, Item \<lparr>nr_node_id = 2, nr_result = Inr 7\<rparr>)]"
  have "max 1 2 \<le> card (ok_nodes (items ?obs))" by simp
  moreover have "(max 1 2 \<le> card (ok_nodes (items ?obs)) \<longrightarrow>
      (\<exists>v. snd (co_threshold 2 \<lparr>co_size = 3, co_launch = Some ()\<rparr> (?obs @ [])) = Finished (Inr v)))
    \<and> (\<forall>e. snd (co_threshold 2 \<lparr>co_size = 3, co_launch = Some ()\<rparr> ?obs) = Finished (Inl e) \<longrightarrow>
         card ({1, 2, 3} - err_nodes (items ?obs)) < 2)"
    by (rule co_threshold_complete) simp_all
  ultimately show ?thesis by blast
qed

end
