(* ===== verification/Call_Types.thy ===== *)
theory Call_Types
  imports Channel Interceptors Ordered_Responses Correctable
begin

text \<open>
  \<^verbatim>\<open>src/call_types.rs\<close> and the method handles of \<^verbatim>\<open>src/method.rs\<close>: the six call types. A call is split
  at its suspension points: the part up to the request being queued works on the channels of the
  nodes; the part after it is a function of what the caller's end of the reply channel shows. The
  channels are a store indexed by the channel number of a node. The protobuf codec is a parameter:
  \<open>enc\<close> for \<^verbatim>\<open>encode_payload\<close> and \<open>dec\<close> for \<^verbatim>\<open>decode_payload\<close>, with the text of the decode error
  on the left.
\<close>

text \<open>A method handle: its path and the codecs of its request and response types.\<close>

record ('req, 'resp) method_handle =
  mh_path :: string
  mh_enc :: "'req \<Rightarrow> u8 list"
  mh_dec :: "u8 list \<Rightarrow> string + 'resp"

type_synonym chans = "nat \<Rightarrow> chan"

text \<open>\<^verbatim>\<open>Node::status\<close> and \<^verbatim>\<open>Node::subscribe_status\<close> ask the channel of the node.\<close>

definition node_current_status :: "node \<Rightarrow> chans \<Rightarrow> node_status" where
  "node_current_status nd chs = current_status (chs (nchan nd))"

definition node_subscribe_status :: "node \<Rightarrow> chans \<Rightarrow> chans" where
  "node_subscribe_status nd chs = chs(nchan nd := subscribe_status (chs (nchan nd)))"

definition encode_payload :: "('req, 'resp) method_handle \<Rightarrow> 'req \<Rightarrow> u8 list" where
  "encode_payload m req = mh_enc m req"

definition decode_payload :: "('req, 'resp) method_handle \<Rightarrow> message \<Rightarrow> string + 'resp" where
  "decode_payload m wire = mh_dec m (msg_payload wire)"

definition build_wire_message ::
  "u64 \<Rightarrow> string \<Rightarrow> u8 list \<Rightarrow> (string \<Rightarrow> string option) \<Rightarrow> message" where
  "build_wire_message seq path payload metadata =
     \<lparr>msg_seq_no = seq, msg_method = path, msg_status_code = 0, msg_status_message = [],
      msg_payload = payload, msg_metadata = metadata\<rparr>"

definition metadata_map :: "(string \<times> string) list \<Rightarrow> string \<Rightarrow> string option" where
  "metadata_map entries = collect_last entries"

section \<open>Queueing one request\<close>

text \<open>
  \<^verbatim>\<open>let seq = ch.next_seq(); .. ch.enqueue(..)\<close>: what every call does per node. \<open>None\<close> is the panic
  of \<^verbatim>\<open>next_seq\<close>; on success the result names the reply and the acknowledgement channel.
\<close>

definition dispatch ::
  "string \<Rightarrow> u8 list \<Rightarrow> (string \<Rightarrow> string option) \<Rightarrow> bool \<Rightarrow> bool \<Rightarrow> node \<Rightarrow> chans
   \<Rightarrow> (error + nat option \<times> nat option) option \<times> chans" where
  "dispatch path payload meta want_reply want_ack nd chs =
     (case next_seq (chs (nchan nd)) of
        (None, c) \<Rightarrow> (None, chs(nchan nd := c))
      | (Some seq, c) \<Rightarrow>
          (let wire = build_wire_message seq path payload meta
           in case submit wire want_reply want_ack c of
                (Inl e, rt, ak, c') \<Rightarrow> (Some (Inl e), chs(nchan nd := c'))
              | (Inr _, rt, ak, c') \<Rightarrow> (Some (Inr (rt, ak)), chs(nchan nd := c'))))"

text \<open>What awaiting a \<^verbatim>\<open>oneshot\<close> receiver gives: \<open>None\<close> while nothing was sent.\<close>

fun oneshot_recv :: "(error + 'v) oneshot \<Rightarrow> (error + 'v) option" where
  "oneshot_recv Open = None"
| "oneshot_recv (Sent r) = Some r"
| "oneshot_recv Dropped = Some (Inl NodeClosed)"

definition decode_reply :: "('req, 'resp) method_handle \<Rightarrow> reply \<Rightarrow> error + 'resp" where
  "decode_reply m r =
     (case r of Inl e \<Rightarrow> Inl e
      | Inr wire \<Rightarrow> (case decode_payload m wire of Inl e \<Rightarrow> Inl (error_from_decode e) | Inr v \<Rightarrow> Inr v))"

section \<open>Calls to one node\<close>

definition rpc_call_send ::
  "('tok, 's interceptor) node_context \<Rightarrow> 'req \<Rightarrow> ('req, 'resp) method_handle \<Rightarrow> 's \<times> chans
   \<Rightarrow> (error + nat option) option \<times> 's \<times> chans" where
  "rpc_call_send ctx req m = (\<lambda>(s, chs).
     case run (nc_interceptors ctx)
            \<lparr>ci_method = mh_path m, ci_node_ids = [nid (nc_node ctx)], ci_metadata = nc_metadata ctx\<rparr> s of
       (Inl e, s') \<Rightarrow> (Some (Inl e), s', chs)
     | (Inr _, s') \<Rightarrow>
         (case dispatch (mh_path m) (encode_payload m req) (metadata_map (nc_metadata ctx)) True False (nc_node ctx) chs of
            (None, chs') \<Rightarrow> (None, s', chs')
          | (Some (Inl e), chs') \<Rightarrow> (Some (Inl e), s', chs')
          | (Some (Inr (rt, ak)), chs') \<Rightarrow> (Some (Inr rt), s', chs')))"

text \<open>
  The biased \<^verbatim>\<open>select!\<close> of \<^verbatim>\<open>rpc_call\<close>, over what it finds each time it is polled: whether the token
  has fired, and its end of the reply channel.
\<close>

fun rpc_call_await ::
  "('req, 'resp) method_handle \<Rightarrow> (bool \<times> reply oneshot) list \<Rightarrow> (error + 'resp) progress" where
  "rpc_call_await m [] = Waiting"
| "rpc_call_await m ((cancelled, rx) # obs) =
     (if cancelled then Finished (Inl Cancelled)
      else case oneshot_recv rx of
        None \<Rightarrow> rpc_call_await m obs
      | Some r \<Rightarrow> Finished (decode_reply m r))"

definition unicast_send ::
  "('tok, 's interceptor) node_context \<Rightarrow> 'req \<Rightarrow> ('req, 'resp) method_handle \<Rightarrow> 's \<times> chans
   \<Rightarrow> (error + nat option) option \<times> 's \<times> chans" where
  "unicast_send ctx req m = (\<lambda>(s, chs).
     case run (nc_interceptors ctx)
            \<lparr>ci_method = mh_path m, ci_node_ids = [nid (nc_node ctx)], ci_metadata = nc_metadata ctx\<rparr> s of
       (Inl e, s') \<Rightarrow> (Some (Inl e), s', chs)
     | (Inr _, s') \<Rightarrow>
         (case dispatch (mh_path m) (encode_payload m req) (metadata_map (nc_metadata ctx)) False True (nc_node ctx) chs of
            (None, chs') \<Rightarrow> (None, s', chs')
          | (Some (Inl e), chs') \<Rightarrow> (Some (Inl e), s', chs')
          | (Some (Inr (rt, ak)), chs') \<Rightarrow> (Some (Inr ak), s', chs')))"

fun unicast_await :: "(bool \<times> (error + unit) oneshot) list \<Rightarrow> (error + unit) progress" where
  "unicast_await [] = Waiting"
| "unicast_await ((cancelled, rx) # obs) =
     (if cancelled then Finished (Inl Cancelled)
      else case oneshot_recv rx of None \<Rightarrow> unicast_await obs | Some r \<Rightarrow> Finished r)"

section \<open>Calls to a configuration\<close>

text \<open>What the deferred closure captured; running it spawns one task per node.\<close>

record fanout =
  fo_nodes :: "node list"
  fo_path :: string
  fo_payload :: "u8 list"
  fo_meta :: "string \<Rightarrow> string option"

text \<open>
  The shared head of the calls to a configuration: the interceptors run once, with the IDs of all
  nodes, before any node is contacted.
\<close>

definition config_call_head ::
  "('tok, 's interceptor) config_context \<Rightarrow> 'req \<Rightarrow> ('req, 'resp) method_handle \<Rightarrow> 's
   \<Rightarrow> (error + fanout) \<times> 's" where
  "config_call_head ctx req m s =
     (case run (cc_interceptors ctx)
             \<lparr>ci_method = mh_path m, ci_node_ids = node_ids (cc_config ctx), ci_metadata = cc_metadata ctx\<rparr> s of
        (Inl e, s') \<Rightarrow> (Inl e, s')
      | (Inr _, s') \<Rightarrow> (Inr \<lparr>fo_nodes = cfg_nodes (cc_config ctx), fo_path = mh_path m,
          fo_payload = encode_payload m req, fo_meta = metadata_map (cc_metadata ctx)\<rparr>, s'))"

text \<open>\<^verbatim>\<open>mpsc::channel(n)\<close> panics when the capacity is 0: \<open>None\<close>.\<close>

definition quorum_call ::
  "('tok, 's interceptor) config_context \<Rightarrow> 'req \<Rightarrow> ('req, 'resp) method_handle \<Rightarrow> 's
   \<Rightarrow> (error + fanout responses) option \<times> 's" where
  "quorum_call ctx req m s =
     (case config_call_head ctx req m s of
        (Inl e, s') \<Rightarrow> (Some (Inl e), s')
      | (Inr plan, s') \<Rightarrow>
          (let n = length (fo_nodes plan)
           in if n = 0 then (None, s')
              else (Some (Inr \<lparr>rs_size = n, launch = Some plan\<rparr>), s')))"

definition ordered_quorum_call ::
  "('tok, 's interceptor) config_context \<Rightarrow> 'req \<Rightarrow> ('req, 'resp) method_handle \<Rightarrow> 's
   \<Rightarrow> (error + fanout ordered_responses) option \<times> 's" where
  "ordered_quorum_call ctx req m s =
     (case config_call_head ctx req m s of
        (Inl e, s') \<Rightarrow> (Some (Inl e), s')
      | (Inr plan, s') \<Rightarrow>
          (let n = length (fo_nodes plan)
           in if n = 0 then (None, s')
              else (Some (Inr \<lparr>ors_size = n, ors_launch = Some plan\<rparr>), s')))"

definition correctable_call ::
  "('tok, 's interceptor) config_context \<Rightarrow> 'req \<Rightarrow> ('req, 'resp) method_handle \<Rightarrow> 's
   \<Rightarrow> (error + fanout correctable) \<times> 's" where
  "correctable_call ctx req m s =
     (case config_call_head ctx req m s of
        (Inl e, s') \<Rightarrow> (Inl e, s')
      | (Inr plan, s') \<Rightarrow>
          (let n = length (fo_nodes plan) in (Inr \<lparr>co_size = n, co_launch = Some plan\<rparr>, s')))"

text \<open>The tasks of a quorum call: \<^verbatim>\<open>send_twoway\<close>, then one response on the result channel.\<close>

definition send_twoway_start ::
  "fanout \<Rightarrow> node \<Rightarrow> chans \<Rightarrow> (error + nat option) option \<times> chans" where
  "send_twoway_start plan nd chs =
     (case dispatch (fo_path plan) (fo_payload plan) (fo_meta plan) True False nd chs of
        (None, chs') \<Rightarrow> (None, chs')
      | (Some (Inl e), chs') \<Rightarrow> (Some (Inl e), chs')
      | (Some (Inr (rt, ak)), chs') \<Rightarrow> (Some (Inr rt), chs'))"

definition quorum_task_response ::
  "('req, 'resp) method_handle \<Rightarrow> node \<Rightarrow> reply \<Rightarrow> 'resp node_response" where
  "quorum_task_response m nd r = \<lparr>nr_node_id = nid nd, nr_result = decode_reply m r\<rparr>"

definition ordered_task_response ::
  "('req, 'resp) method_handle \<Rightarrow> nat \<Rightarrow> node \<Rightarrow> reply \<Rightarrow> 'resp ordered_node_response" where
  "ordered_task_response m position nd r =
     \<lparr>on_position = position, on_node_id = nid nd, on_result = decode_reply m r\<rparr>"

text \<open>
  The task of a correctable call: the stream is registered before the request is queued. \<open>Inl\<close> is the
  one response sent when the node is closed; \<open>Inr\<close> names the stream whose items are forwarded.
\<close>

definition correctable_start ::
  "fanout \<Rightarrow> node \<Rightarrow> chans \<Rightarrow> ('resp node_response + nat) option \<times> chans" where
  "correctable_start plan nd chs =
     (case next_seq (chs (nchan nd)) of
        (None, c) \<Rightarrow> (None, chs(nchan nd := c))
      | (Some seq, c) \<Rightarrow>
          (let wire = build_wire_message seq (fo_path plan) (fo_payload plan) (fo_meta plan)
           in case ch_register_stream seq c of (t, c) \<Rightarrow>
              (case submit wire False False c of
                (Inl e, rt, ak, c') \<Rightarrow>
                  (Some (Inl \<lparr>nr_node_id = nid nd, nr_result = Inl NodeClosed\<rparr>), chs(nchan nd := c'))
              | (Inr _, rt, ak, c') \<Rightarrow> (Some (Inr t), chs(nchan nd := c')))))"

fun correctable_forward ::
  "('req, 'resp) method_handle \<Rightarrow> node \<Rightarrow> reply list \<Rightarrow> 'resp node_response list" where
  "correctable_forward m nd [] = []"
| "correctable_forward m nd (wire_result # stream) =
     \<lparr>nr_node_id = nid nd, nr_result = decode_reply m wire_result\<rparr> # correctable_forward m nd stream"

section \<open>Multicast\<close>

definition multicast_start :: "fanout \<Rightarrow> node \<Rightarrow> chans \<Rightarrow> (error + nat option) option \<times> chans" where
  "multicast_start plan nd chs =
     (case dispatch (fo_path plan) (fo_payload plan) (fo_meta plan) False True nd chs of
        (None, chs') \<Rightarrow> (None, chs')
      | (Some (Inl e), chs') \<Rightarrow> (Some (Inl e), chs')
      | (Some (Inr (rt, ak)), chs') \<Rightarrow> (Some (Inr ak), chs'))"

text \<open>What the task of a node reports, from the outcome of queueing and its acknowledgement.\<close>

definition multicast_report :: "node \<Rightarrow> error + unit \<Rightarrow> u32 \<times> (error + unit)" where
  "multicast_report nd r = (nid nd, r)"

fun multicast_loop ::
  "node_error list \<Rightarrow> (u32 \<times> (error + unit)) obs list \<Rightarrow> (error + unit) progress" where
  "multicast_loop node_errors [] = Waiting"
| "multicast_loop node_errors ((True, r) # obs) = Finished (Inl Cancelled)"
| "multicast_loop node_errors ((False, Empty) # obs) = multicast_loop node_errors obs"
| "multicast_loop node_errors ((False, Disconnected) # obs) =
     Finished (if node_errors = [] then Inr ()
       else Inl (QuorumCall \<lparr>qce_cause = SendFailure, qce_node_errors = node_errors\<rparr>))"
| "multicast_loop node_errors ((False, Item (node_id, Inl (Transport s))) # obs) =
     multicast_loop (node_errors @ [node_error_of node_id s]) obs"
| "multicast_loop node_errors ((False, Item _) # obs) = multicast_loop node_errors obs"

definition multicast_head ::
  "('tok, 's interceptor) config_context \<Rightarrow> 'req \<Rightarrow> ('req, 'resp) method_handle \<Rightarrow> 's
   \<Rightarrow> (error + fanout) option \<times> 's" where
  "multicast_head ctx req m s =
     (case config_call_head ctx req m s of
        (Inl e, s') \<Rightarrow> (Some (Inl e), s')
      | (Inr plan, s') \<Rightarrow> if fo_nodes plan = [] then (None, s') else (Some (Inr plan), s'))"

definition multicast_await :: "(u32 \<times> (error + unit)) obs list \<Rightarrow> (error + unit) progress" where
  "multicast_await obs = multicast_loop [] obs"

section \<open>The multicast loop satisfies the contract\<close>

definition multicast_body ::
  "node_error list \<Rightarrow> u32 \<times> (error + unit) \<Rightarrow> (node_error list, error + unit) flow" where
  "multicast_body es it = Continue (case snd it of Inl (Transport s) \<Rightarrow> es @ [node_error_of (fst it) s] | _ \<Rightarrow> es)"

lemma multicast_item:
  "multicast_loop es ((False, Item it) # obs) =
     multicast_loop (case snd it of Inl (Transport s) \<Rightarrow> es @ [node_error_of (fst it) s] | _ \<Rightarrow> es) obs"
  by (cases it; cases "snd it") (auto split: error.splits)

interpretation multicast_select: select_loop multicast_loop multicast_body "\<lambda>_. Inl Cancelled"
  "\<lambda>es. if es = [] then Inr () else Inl (QuorumCall \<lparr>qce_cause = SendFailure, qce_node_errors = es\<rparr>)"
  by unfold_locales (simp_all add: multicast_item multicast_body_def del: multicast_loop.simps(5-))

lemma feed_multicast_ok:
  "(\<And>it. it \<in> set its \<Longrightarrow> \<nexists>s. snd it = Inl (Transport s)) \<Longrightarrow> feed multicast_body es its = Continue es"
proof (induction its)
  case (Cons it its)
  then have "multicast_body es it = Continue es"
    by (auto simp: multicast_body_def split: sum.splits error.splits)
  with Cons show ?case by simp
qed simp

section \<open>What an acknowledgement can be\<close>

definition acks_ok :: "chan \<Rightarrow> bool" where
  "acks_ok c \<longleftrightarrow> (\<forall>t. ch_acks c t \<in> {Open, Sent (Inr ()), Sent (Inl StreamDown), Dropped})"

lemma acks_ok_same: "acks_ok c \<Longrightarrow> ch_acks c' = ch_acks c \<Longrightarrow> acks_ok c'"
  by (simp add: acks_ok_def)

lemma acks_ok_step:
  assumes "chan_step valid_uri from_i32 addr c c'" and ok: "acks_ok c"
  shows "acks_ok c'"
  using assms(1)
proof (cases rule: chan_step.cases)
  case (dial dialled)
  with ok show ?thesis
    by (auto simp: acks_ok_def try_connect_def task_panic_def connect_err_def fold_drop_acks)
next
  case recv
  then have "ch_acks c' = ch_acks c"
    by (auto simp: sender_recv_def Let_def split: list.splits if_splits option.splits)
  with ok show ?thesis by (rule acks_ok_same)
next
  case (wr req)
  with ok show ?thesis
    by (auto simp: acks_ok_def sender_write_def stream_died_def Let_def split: option.splits)
next
  case (call_submit m want_reply want_ack res rt ak)
  with ok show ?thesis
    by (auto simp: acks_ok_def submit_def enqueue_def Let_def split: prod.splits if_splits option.splits)
next
  case (call_stream seq t)
  with ok show ?thesis by (auto simp: ch_register_stream_def acks_ok_def split: prod.splits)
qed (use ok in \<open>auto simp: acks_ok_def run_node_top_def stream_open_def connect_err_def backoff_over_def
      next_seq_def subscribe_status_def Let_def\<close>)

lemma chan_reach_acks: "chan_reach valid_uri from_i32 addr c \<Longrightarrow> acks_ok c"
proof (induction rule: chan_reach.induct)
  case start
  show ?case by (simp add: acks_ok_def connect_def)
qed (blast intro: acks_ok_step)

section \<open>Properties\<close>

text \<open>
  \<^verbatim>\<open>multicast\<close> never reports a send failure: what a node's task can report is the refusal of a
  closed channel or an acknowledgement of its channel, none of those is the transport error the loop
  collects, so the call waits, is cancelled, or succeeds, and when all reports are in it succeeds even
  if every node failed.
\<close>

theorem multicast_never_fails:
  assumes "\<And>ob node_id r. ob \<in> set obs \<Longrightarrow> snd ob = Item (node_id, r) \<Longrightarrow>
      r = Inl NodeClosed \<or> (\<exists>c t. chan_reach valid_uri from_i32 addr c \<and> oneshot_recv (ch_acks c t) = Some r)"
  shows "multicast_await obs \<in> {Waiting, Finished (Inl Cancelled), Finished (Inr ())}
    \<and> (list_all quiet obs \<longrightarrow> multicast_await (obs @ [(False, Disconnected)]) = Finished (Inr ()))"
proof -
  have no: "\<nexists>s. r = Inl (Transport s)" if "ob \<in> set obs" "snd ob = Item (i, r)" for ob i r
  proof -
    from assms [OF that] show ?thesis
    proof
      assume "\<exists>c t. chan_reach valid_uri from_i32 addr c \<and> oneshot_recv (ch_acks c t) = Some r"
      then obtain c t where "chan_reach valid_uri from_i32 addr c" and r: "oneshot_recv (ch_acks c t) = Some r" by blast
      then have "ch_acks c t \<in> {Open, Sent (Inr ()), Sent (Inl StreamDown), Dropped}"
        using chan_reach_acks by (simp add: acks_ok_def)
      with r show ?thesis by auto
    qed simp
  qed
  have items: "\<exists>ob \<in> set obs. snd ob = Item it" if "it \<in> set (items pre)" "set pre \<subseteq> set obs" for it pre
    using that by (induction pre rule: items.induct) force+
  have feed: "feed multicast_body [] (items pre) = Continue []" if "set pre \<subseteq> set obs" for pre
    using items [OF _ that] no by (intro feed_multicast_ok) (metis surjective_pairing)
  have "multicast_await obs = Waiting \<or> multicast_await obs = Finished (Inl Cancelled) \<or> multicast_await obs = Finished (Inr ())"
  proof (cases "multicast_await obs")
    case (Finished res)
    then have "multicast_loop [] obs = Finished res" by (simp add: multicast_await_def)
    then show ?thesis
    proof (cases rule: multicast_select.loop_finished)
      case (returned pre post)
      with feed [of pre] show ?thesis by auto
    next
      case (cancelled pre post s' q)
      with Finished show ?thesis by simp
    next
      case (closed pre post s')
      with feed [of pre] Finished show ?thesis by auto
    qed
  next
    case Panicked
    have "multicast_loop es obs \<noteq> Panicked" for es
      by (induction es obs rule: multicast_loop.induct) auto
    with Panicked show ?thesis by (simp add: multicast_await_def)
  qed simp
  moreover have "multicast_await (obs @ [(False, Disconnected)]) = Finished (Inr ())" if "list_all quiet obs"
    using multicast_select.loop_until_closed [OF that, of "[]" "[]"] feed [of obs] by (simp add: multicast_await_def)
  ultimately show ?thesis by blast
qed

theorem multicast_never_fails_witness:
  "multicast_await ([(False, Item (1, Inl StreamDown)), (False, Item (2, Inl NodeClosed))] @ [(False, Disconnected)])
     = Finished (Inr ())"
proof -
  let ?c = "sender_write demo_req (demo_taken\<lparr>ch_wire_open := False\<rparr>)"
  have "demo_reach (demo_taken\<lparr>ch_wire_open := False\<rparr>)"
    by (rule chan_reach.step [OF demo_taken_reach wire_lost])
  then have "demo_reach ?c"
    by (rule chan_reach.step [OF _ wr]) (simp add: demo_run_defs)
  moreover have "oneshot_recv (ch_acks ?c 0) = Some (Inl StreamDown)"
    by (simp add: sender_write_def stream_died_def demo_req_def Let_def)
  ultimately have down: "\<exists>c t. demo_reach c \<and> oneshot_recv (ch_acks c t) = Some (Inl StreamDown)" by blast
  let ?obs = "[(False, Item (1, Inl StreamDown)), (False, Item (2, Inl NodeClosed))] :: (u32 \<times> (error + unit)) obs list"
  have "multicast_await ?obs \<in> {Waiting, Finished (Inl Cancelled), Finished (Inr ())}
    \<and> (list_all quiet ?obs \<longrightarrow> multicast_await (?obs @ [(False, Disconnected)]) = Finished (Inr ()))"
    by (rule multicast_never_fails [of _ "\<lambda>_. True" nat "''h''"]) (use down in auto)
  then show ?thesis by simp
qed

text \<open>
  C36. A rejected call contacts nobody: if the interceptors of a context up to some point accept and
  the next one rejects with \<open>e\<close>, then each of the six call types returns \<open>e\<close>, no channel changes, and
  no later interceptor runs (the interceptors' state is the one the rejecting interceptor left).
\<close>

theorem rejected_call_contacts_nobody:
  fixes ctx :: "('tok, 's interceptor) node_context" and cctx :: "('tok, 's interceptor) config_context"
  assumes n: "nc_interceptors ctx = pre @ i # post"
    "run pre \<lparr>ci_method = mh_path m, ci_node_ids = [nid (nc_node ctx)], ci_metadata = nc_metadata ctx\<rparr> s = (Inr (), s1)"
    "i \<lparr>ci_method = mh_path m, ci_node_ids = [nid (nc_node ctx)], ci_metadata = nc_metadata ctx\<rparr> s1 = (Inl e, s2)"
    and c: "cc_interceptors cctx = pre' @ i' # post'"
    "run pre' \<lparr>ci_method = mh_path m, ci_node_ids = node_ids (cc_config cctx), ci_metadata = cc_metadata cctx\<rparr> s = (Inr (), s1')"
    "i' \<lparr>ci_method = mh_path m, ci_node_ids = node_ids (cc_config cctx), ci_metadata = cc_metadata cctx\<rparr> s1' = (Inl e', s2')"
  shows "rpc_call_send ctx req m (s, chs) = (Some (Inl e), s2, chs)
    \<and> unicast_send ctx req m (s, chs) = (Some (Inl e), s2, chs)
    \<and> multicast_head cctx req m s = (Some (Inl e'), s2')
    \<and> quorum_call cctx req m s = (Some (Inl e'), s2')
    \<and> ordered_quorum_call cctx req m s = (Some (Inl e'), s2')
    \<and> correctable_call cctx req m s = (Inl e', s2')"
proof -
  have "run (nc_interceptors ctx) \<lparr>ci_method = mh_path m, ci_node_ids = [nid (nc_node ctx)], ci_metadata = nc_metadata ctx\<rparr> s
      = (Inl e, s2)"
    unfolding client_chain.chain_first_error using n by blast
  moreover have "run (cc_interceptors cctx)
      \<lparr>ci_method = mh_path m, ci_node_ids = node_ids (cc_config cctx), ci_metadata = cc_metadata cctx\<rparr> s = (Inl e', s2')"
    unfolding client_chain.chain_first_error using c by blast
  ultimately show ?thesis
    by (simp add: rpc_call_send_def unicast_send_def multicast_head_def quorum_call_def ordered_quorum_call_def
        correctable_call_def config_call_head_def)
qed

definition count_then_reject :: "nat interceptor list" where
  "count_then_reject = [\<lambda>_ k. (Inr (), k + 1), \<lambda>_ k. (Inl Cancelled, k + 1), \<lambda>_ k. (Inr (), k + 1)]"

theorem rejected_call_contacts_nobody_witness:
  "rpc_call_send \<lparr>nc_node = \<lparr>nid = 1, naddr = ''a'', nchan = 0\<rparr>, nc_cancel = (), nc_interceptors = count_then_reject,
       nc_metadata = []\<rparr> True \<lparr>mh_path = ''p'', mh_enc = (\<lambda>_. []), mh_dec = (\<lambda>_. Inr ())\<rparr> (0, \<lambda>_. connect router_new)
     = (Some (Inl Cancelled), 2, \<lambda>_. connect router_new)"
proof -
  let ?m = "\<lparr>mh_path = ''p'', mh_enc = (\<lambda>_. []), mh_dec = (\<lambda>_. Inr ())\<rparr> :: (bool, unit) method_handle"
  let ?cc = "\<lparr>cc_config = \<lparr>cfg_nodes = []\<rparr>, cc_cancel = (), cc_interceptors = count_then_reject, cc_metadata = []\<rparr>"
  let ?nc = "\<lparr>nc_node = \<lparr>nid = 1, naddr = ''a'', nchan = 0\<rparr>, nc_cancel = (), nc_interceptors = count_then_reject,
       nc_metadata = []\<rparr>"
  have "rpc_call_send ?nc True ?m (0, \<lambda>_. connect router_new) = (Some (Inl Cancelled), 2, \<lambda>_. connect router_new)
    \<and> unicast_send ?nc True ?m (0, \<lambda>_. connect router_new) = (Some (Inl Cancelled), 2, \<lambda>_. connect router_new)
    \<and> multicast_head ?cc True ?m 0 = (Some (Inl Cancelled), 2)
    \<and> quorum_call ?cc True ?m 0 = (Some (Inl Cancelled), 2)
    \<and> ordered_quorum_call ?cc True ?m 0 = (Some (Inl Cancelled), 2)
    \<and> correctable_call ?cc True ?m 0 = (Inl Cancelled, 2)"
    by (rule rejected_call_contacts_nobody [where pre = "[\<lambda>_ k. (Inr (), k + 1)]" and i = "\<lambda>_ k. (Inl Cancelled, k + 1)"
          and post = "[\<lambda>_ k. (Inr (), k + 1)]" and ?s1.0 = 1 and pre' = "[\<lambda>_ k. (Inr (), k + 1)]"
          and i' = "\<lambda>_ k. (Inl Cancelled, k + 1)" and post' = "[\<lambda>_ k. (Inr (), k + 1)]" and s1' = 1])
      (simp_all add: count_then_reject_def)
  then show ?thesis by blast
qed

text \<open>
  C15. A two-way call round trip: on a connected channel with an empty queue, \<^verbatim>\<open>rpc_call\<close> puts one
  message on the wire with the next sequence number, the method's path, the encoded request and, for
  every metadata key, the last value given; when the node's reply with that sequence number arrives,
  the caller gets the decoded payload, a failure status becomes a transport error, and an undecodable
  payload a codec error.
\<close>

theorem rpc_round_trip:
  assumes ph: "ch_phase (chs (nchan (nc_node ctx))) = Serving"
    and q: "ch_queue (chs (nchan (nc_node ctx))) = []" and w: "ch_wire_open (chs (nchan (nc_node ctx)))"
    and seq: "ch_seq (chs (nchan (nc_node ctx))) \<noteq> - 1" and i: "nc_interceptors ctx = []"
    and reply: "msg_seq_no reply = ch_seq (chs (nchan (nc_node ctx))) + 1" "msg_status_code reply \<noteq> STATUS_STREAM_DONE"
    and send: "rpc_call_send ctx req m (s, chs) = (res, s', chs')"
  shows "\<exists>t c2 out. res = Some (Inr (Some t)) \<and> sender_recv (chs' (nchan (nc_node ctx))) = Some c2
    \<and> ch_phase c2 = Sending out
    \<and> ch_wire (sender_write out c2) = ch_wire (chs (nchan (nc_node ctx))) @ [or_msg out]
    \<and> msg_seq_no (or_msg out) = msg_seq_no reply \<and> msg_method (or_msg out) = mh_path m
    \<and> msg_payload (or_msg out) = mh_enc m req \<and> msg_metadata (or_msg out) = map_of (rev (nc_metadata ctx))
    \<and> rpc_call_await m [(False, rt_oneshots (receive_msg from_i32 reply (ch_router (sender_write out c2))) t)] =
        Finished (if msg_status_code reply \<noteq> 0
          then Inl (Transport (TonicStatus (from_i32 (sint (msg_status_code reply))) (msg_status_message reply)))
          else case mh_dec m (msg_payload reply) of Inl e \<Rightarrow> Inl (Codec e) | Inr v \<Rightarrow> Inr v)"
proof -
  let ?k = "nchan (nc_node ctx)"
  let ?c = "chs ?k"
  let ?t = "rt_next_oneshot (ch_router ?c)"
  let ?msg = "build_wire_message (ch_seq ?c + 1) (mh_path m) (encode_payload m req) (metadata_map (nc_metadata ctx))"
  let ?out = "\<lparr>or_msg = ?msg, or_response_tx = Some ?t, or_send_ack = None\<rparr>"
  let ?c1 = "?c\<lparr>ch_seq := ch_seq ?c + 1, ch_router := snd (oneshot_channel (ch_router ?c)),
     ch_queue := [?out], ch_accepted := ch_accepted ?c @ [?msg]\<rparr>"
  let ?c2 = "?c1\<lparr>ch_queue := [], ch_router := register_with_sender (ch_seq ?c + 1) ?t (ch_router ?c1), ch_phase := Sending ?out\<rparr>"
  have ns: "next_seq ?c = (Some (ch_seq ?c + 1), ?c\<lparr>ch_seq := ch_seq ?c + 1\<rparr>)"
    using seq by (simp add: next_seq_def checked_inc_def)
  have alive: "task_alive ?c" using ph by (simp add: task_alive_def)
  have sub: "submit ?msg True False (?c\<lparr>ch_seq := ch_seq ?c + 1\<rparr>) = (Inr (), Some ?t, None, ?c1)"
    using alive q by (simp add: submit_def enqueue_def oneshot_channel_def task_alive_def Let_def)
  have r: "res = Some (Inr (Some ?t)) \<and> chs' ?k = ?c1"
    using send sub ns i by (auto simp: rpc_call_send_def dispatch_def Let_def)
  have recv: "sender_recv (chs' ?k) = Some ?c2"
    using r by (simp add: sender_recv_def build_wire_message_def Let_def)
  have wr: "ch_wire (sender_write ?out ?c2) = ch_wire ?c @ [?msg]" "ch_router (sender_write ?out ?c2) = ch_router ?c2"
    using w by (simp_all add: sender_write_def Let_def)
  have "map_of (rt_inner (ch_router ?c2)) (ch_seq ?c + 1) = Some (Response ?t)"
    by (simp add: register_with_sender_def insert_call_def Let_def hashmap_simps)
  then have "rt_oneshots (receive_msg from_i32 reply (ch_router ?c2)) ?t = Sent (receive_result from_i32 reply)"
    using reply by (simp add: receive_msg_def deliver_oneshots Let_def)
  then show ?thesis
    using r recv wr reply(1)
    by (intro exI [of _ ?t] exI [of _ ?c2] exI [of _ ?out])
      (auto simp: build_wire_message_def metadata_map_def collect_last_eq_map_of_rev encode_payload_def
        receive_result_def decode_reply_def decode_payload_def error_from_decode_def split: sum.splits)
qed

theorem rpc_round_trip_witness:
  "\<exists>t c2 out. rpc_call_await \<lparr>mh_path = ''p'', mh_enc = (\<lambda>b. if b then [1] else []), mh_dec = (\<lambda>bs. Inr (length bs))\<rparr>
      [(False, rt_oneshots (receive_msg nat (demo_msg\<lparr>msg_payload := [5, 6]\<rparr>) (ch_router (sender_write out c2))) t)]
     = Finished (Inr 2)
   \<and> msg_payload (or_msg out) = [1] \<and> msg_metadata (or_msg out) ''k'' = Some ''w''"
proof -
  let ?m = "\<lparr>mh_path = ''p'', mh_enc = (\<lambda>b. if b then [1] else []), mh_dec = (\<lambda>bs. Inr (length bs))\<rparr>
    :: (bool, nat) method_handle"
  let ?nc = "\<lparr>nc_node = \<lparr>nid = 1, naddr = ''a'', nchan = 0\<rparr>, nc_cancel = (), nc_interceptors = [],
       nc_metadata = [(''k'', ''v''), (''k'', ''w'')]\<rparr> :: (unit, unit interceptor) node_context"
  obtain res s' chs' where send: "rpc_call_send ?nc True ?m ((), \<lambda>_. demo_open) = (res, s', chs')"
    using prod_cases3 by blast
  let ?reply = "demo_msg\<lparr>msg_payload := [5, 6]\<rparr>"
  obtain t c2 out where "msg_payload (or_msg out) = mh_enc ?m True" "msg_metadata (or_msg out) = map_of (rev (nc_metadata ?nc))"
    "rpc_call_await ?m [(False, rt_oneshots (receive_msg nat ?reply (ch_router (sender_write out c2))) t)] =
        Finished (if msg_status_code ?reply \<noteq> 0
          then Inl (Transport (TonicStatus (nat (sint (msg_status_code ?reply))) (msg_status_message ?reply)))
          else case mh_dec ?m (msg_payload ?reply) of Inl e \<Rightarrow> Inl (Codec e) | Inr v \<Rightarrow> Inr v)"
    using rpc_round_trip [OF _ _ _ _ _ _ _ send, of ?reply nat]
    by (auto simp: demo_run_defs demo_msg_def STATUS_STREAM_DONE_def)
  then show ?thesis
    by - (rule exI [of _ t], rule exI [of _ c2], rule exI [of _ out], simp add: demo_msg_def numeral_2_eq_2)
qed

end
