(* ===== verification/Majorities.thy ===== *)
theory Majorities
  imports Call_Types
begin

text \<open>
  Why majorities: the property of quorum systems that applications of the library rely on, stated for
  any quorum system and instantiated with the majorities of a configuration that the terminal method
  \<^verbatim>\<open>majority\<close> waits for.
\<close>

locale quorum_system =
  fixes members :: "'n set" and is_quorum :: "'n set \<Rightarrow> bool"
  assumes quorum_subset: "is_quorum Q \<Longrightarrow> Q \<subseteq> members"
    and quorum_upward: "is_quorum Q \<Longrightarrow> Q \<subseteq> P \<Longrightarrow> P \<subseteq> members \<Longrightarrow> is_quorum P"
    and quorums_meet: "is_quorum Q \<Longrightarrow> is_quorum P \<Longrightarrow> Q \<inter> P \<noteq> {}"
begin

lemma quorum_nonempty: "is_quorum Q \<Longrightarrow> Q \<noteq> {}"
  using quorums_meet [of Q Q] by simp

lemma common_member:
  assumes "is_quorum Q" "is_quorum P" "Q \<subseteq> A" "P \<subseteq> B"
  obtains n where "n \<in> members" "n \<in> A" "n \<in> B"
  using quorums_meet [OF assms(1,2)] quorum_subset [OF assms(1)] assms(3,4) by blast

end

definition is_majority :: "configuration \<Rightarrow> u32 set \<Rightarrow> bool" where
  "is_majority c Q \<longleftrightarrow> Q \<subseteq> set (node_ids c) \<and> config_size c div 2 + 1 \<le> card Q"

lemma majorities_meet:
  assumes "is_majority c Q" "is_majority c P"
  shows "Q \<inter> P \<noteq> {}"
proof
  assume "Q \<inter> P = {}"
  moreover have "finite Q" "finite P" using assms by (auto simp: is_majority_def intro: finite_subset)
  ultimately have "card Q + card P = card (Q \<union> P)" by (simp add: card_Un_disjoint)
  also have "\<dots> \<le> card (set (node_ids c))" using assms by (intro card_mono) (auto simp: is_majority_def)
  also have "\<dots> \<le> config_size c" using card_length [of "node_ids c"] by (simp add: node_ids_def config_size_def)
  finally have "card Q + card P \<le> config_size c" .
  moreover have "config_size c div 2 + 1 \<le> card Q" "config_size c div 2 + 1 \<le> card P"
    using assms by (simp_all add: is_majority_def)
  ultimately show False using div_mult_mod_eq [of "config_size c" 2] mod_less_divisor [of 2 "config_size c"] by linarith
qed

interpretation majorities: quorum_system "set (node_ids c)" "is_majority c" for c
proof
  show "is_majority c P" if "is_majority c Q" "Q \<subseteq> P" "P \<subseteq> set (node_ids c)" for Q P
  proof -
    have "card Q \<le> card P" using that by (intro card_mono) (auto intro: finite_subset)
    with that show ?thesis by (simp add: is_majority_def)
  qed
  show "Q \<inter> P \<noteq> {}" if "is_majority c Q" "is_majority c P" for Q P
    using that by (rule majorities_meet)
qed (simp add: is_majority_def)

lemma answered_count:
  assumes "distinct (map nr_node_id rs)"
  shows "card (ok_nodes rs) = length (oks rs)"
proof -
  have "ok_nodes rs = nr_node_id ` set (filter (\<lambda>nr. \<exists>v. nr_result nr = Inr v) rs)"
    by (auto simp: ok_nodes_def)
  moreover have "distinct (map nr_node_id (filter (\<lambda>nr. \<exists>v. nr_result nr = Inr v) rs))"
    using assms by (rule distinct_map_filter)
  ultimately show ?thesis using distinct_card by (fastforce simp: length_oks)
qed

text \<open>
  One answer per node: the responses of a quorum call come from its tasks, each node's task at most
  once, in any order.
\<close>

definition task_responses ::
  "('req, 'resp) method_handle \<Rightarrow> configuration \<Rightarrow> 'resp node_response list \<Rightarrow> bool" where
  "task_responses m c rs \<longleftrightarrow>
     (\<exists>ps. rs = map (\<lambda>(nd, r). quorum_task_response m nd r) ps \<and> mset (map fst ps) \<subseteq># mset (cfg_nodes c))"

lemma task_responses_ids:
  assumes "task_responses m c rs" and "distinct_ids c"
  shows "distinct (map nr_node_id rs)" and "nr_node_id ` set rs \<subseteq> set (node_ids c)"
proof -
  from assms(1) obtain ps where rs: "rs = map (\<lambda>(nd, r). quorum_task_response m nd r) ps"
    and sub: "mset (map fst ps) \<subseteq># mset (cfg_nodes c)" by (auto simp: task_responses_def)
  have ids: "map nr_node_id rs = map nid (map fst ps)"
    by (simp add: rs quorum_task_response_def case_prod_beta)
  have "mset (map nid (map fst ps)) \<subseteq># mset (node_ids c)"
    using image_mset_subseteq_mono [OF sub, of nid] by (simp add: node_ids_def multiset.map_comp)
  then have m: "mset (map nr_node_id rs) \<subseteq># mset (node_ids c)" by (simp only: ids)
  then show "nr_node_id ` set rs \<subseteq> set (node_ids c)"
    using set_mset_mono [OF m] by simp
  from m assms(2) show "distinct (map nr_node_id rs)"
    by (auto simp: distinct_ids_def intro: distinct_submset)
qed

lemma majority_answers:
  assumes "quorum_call ctx req m s = (Some (Inr h), s')" and "distinct_ids (cc_config ctx)"
    and "task_responses m (cc_config ctx) (items obs)" and "snd (majority h obs) = Finished (Inr v)"
  shows "is_majority (cc_config ctx) (ok_nodes (items obs))"
proof -
  have sz: "rs_size h = config_size (cc_config ctx)"
    using assms(1) by (auto simp: quorum_call_def config_call_head_def config_size_def Let_def
        split: prod.splits sum.splits if_splits)
  from assms(4) have "snd (threshold (rs_size h div 2 + 1) h obs) = Finished (Inr v)"
    by (simp add: majority_def Let_def)
  from threshold_Ok_count [OF this] obtain pre post where obs: "obs = pre @ post"
    and cnt: "max 1 (rs_size h div 2 + 1) \<le> length (oks (items pre))" by blast
  have split: "items obs = items pre @ items post"
    unfolding obs by (induction pre rule: items.induct) auto
  note ids = task_responses_ids [OF assms(3,2)]
  have "card (ok_nodes (items pre)) \<le> card (ok_nodes (items obs))"
    by (intro card_mono) (auto simp: split)
  moreover have "card (ok_nodes (items pre)) = length (oks (items pre))"
    using ids(1) by (intro answered_count) (simp add: split)
  moreover have "ok_nodes (items obs) \<subseteq> nr_node_id ` set (items obs)" by (auto simp: ok_nodes_def)
  ultimately show ?thesis
    using cnt sz ids(2) unfolding is_majority_def by auto
qed

section \<open>Properties\<close>

text \<open>
  C9. Two quorum calls on the same configuration whose \<^verbatim>\<open>majority\<close> both succeed have heard from a
  common node: some member answered both calls successfully.
\<close>

theorem majority_calls_intersect:
  assumes "distinct_ids cfg"
    and "quorum_call ctx1 req1 m1 s1 = (Some (Inr h1), s1')" "cc_config ctx1 = cfg"
    and "task_responses m1 cfg (items obs1)" "snd (majority h1 obs1) = Finished (Inr v1)"
    and "quorum_call ctx2 req2 m2 s2 = (Some (Inr h2), s2')" "cc_config ctx2 = cfg"
    and "task_responses m2 cfg (items obs2)" "snd (majority h2 obs2) = Finished (Inr v2)"
  shows "\<exists>nr1 \<in> set (items obs1). \<exists>nr2 \<in> set (items obs2). \<exists>w1 w2.
    nr_node_id nr1 = nr_node_id nr2 \<and> nr_node_id nr1 \<in> set (node_ids cfg)
    \<and> nr_result nr1 = Inr w1 \<and> nr_result nr2 = Inr w2"
proof -
  have "is_majority cfg (ok_nodes (items obs1))" "is_majority cfg (ok_nodes (items obs2))"
    using majority_answers [OF assms(2)] majority_answers [OF assms(6)] assms by simp_all
  then obtain n where "n \<in> set (node_ids cfg)" "n \<in> ok_nodes (items obs1)" "n \<in> ok_nodes (items obs2)"
    using majorities.common_member by blast
  then show ?thesis unfolding ok_nodes_def by blast
qed

theorem majority_calls_intersect_witness:
  "\<exists>nr1 \<in> {\<lparr>nr_node_id = 1, nr_result = Inr ()\<rparr>, \<lparr>nr_node_id = 2, nr_result = Inr ()\<rparr>}.
   \<exists>nr2 \<in> {\<lparr>nr_node_id = 3, nr_result = Inr ()\<rparr>, \<lparr>nr_node_id = 2, nr_result = Inr ()\<rparr>}.
     nr_node_id nr1 = (nr_node_id nr2 :: u32)"
proof -
  let ?n = "\<lambda>i::u32. \<lparr>nid = i, naddr = ''a'', nchan = 0\<rparr> :: node"
  let ?cfg = "\<lparr>cfg_nodes = [?n 1, ?n 2, ?n 3]\<rparr>"
  let ?ctx = "\<lparr>cc_config = ?cfg, cc_cancel = (), cc_interceptors = [], cc_metadata = []\<rparr> :: (unit, unit interceptor) config_context"
  let ?m = "\<lparr>mh_path = ''p'', mh_enc = (\<lambda>_. []), mh_dec = (\<lambda>_. Inr ())\<rparr> :: (bool, unit) method_handle"
  let ?a = "\<lambda>i::u32. \<lparr>nr_node_id = i, nr_result = Inr ()\<rparr> :: unit node_response"
  let ?obs1 = "[(False, Item (?a 1)), (False, Item (?a 2))]"
  let ?obs2 = "[(False, Item (?a 3)), (False, Item (?a 2))]"
  let ?h = "\<lparr>rs_size = 3, launch = Some \<lparr>fo_nodes = [?n 1, ?n 2, ?n 3], fo_path = ''p'', fo_payload = [], fo_meta = Map.empty\<rparr>\<rparr>"
  have call: "quorum_call ?ctx True ?m () = (Some (Inr ?h), ())"
    by (simp add: quorum_call_def config_call_head_def encode_payload_def metadata_map_def collect_last_def)
  have "task_responses ?m ?cfg (items ?obs1)"
    unfolding task_responses_def
    by (rule exI [of _ "[(?n 1, Inr demo_msg), (?n 2, Inr demo_msg)]"])
      (simp add: quorum_task_response_def decode_reply_def decode_payload_def)
  moreover have "task_responses ?m ?cfg (items ?obs2)"
    unfolding task_responses_def
    by (rule exI [of _ "[(?n 3, Inr demo_msg), (?n 2, Inr demo_msg)]"])
      (simp add: quorum_task_response_def decode_reply_def decode_payload_def)
  moreover have "snd (majority ?h ?obs1) = Finished (Inr ())" "snd (majority ?h ?obs2) = Finished (Inr ())"
    by (simp_all add: majority_def threshold_def)
  moreover have "distinct_ids ?cfg" by (simp add: distinct_ids_def node_ids_def)
  ultimately have "\<exists>nr1 \<in> set (items ?obs1). \<exists>nr2 \<in> set (items ?obs2). \<exists>w1 w2.
    nr_node_id nr1 = nr_node_id nr2 \<and> nr_node_id nr1 \<in> set (node_ids ?cfg)
    \<and> nr_result nr1 = Inr w1 \<and> nr_result nr2 = Inr w2"
    by (intro majority_calls_intersect [OF _ call _ _ _ call]) simp_all
  then show ?thesis by auto
qed

end
