(* ===== verification/Health.thy ===== *)
theory Health
  imports Call_Types
begin

text \<open>
  \<^verbatim>\<open>src/health.rs\<close>: the active prober of one node. The background task probes with \<^verbatim>\<open>rpc_call\<close> under a
  timeout, publishes a changed status on a watch channel, and then waits for the interval or for the
  checker to be dropped. The theory has the task as a step relation with its owner and its subscribers.
\<close>

section \<open>The checker\<close>

datatype health_status = Unknown | Healthy | Unhealthy

text \<open>Durations in milliseconds.\<close>

record health_config =
  hc_interval :: nat
  hc_timeout :: nat

definition health_config_default :: health_config where
  "health_config_default = \<lparr>hc_interval = 5000, hc_timeout = 2000\<rparr>"

datatype probe_phase = Probing | Sleeping | Ended

text \<open>
  The state behind a \<^verbatim>\<open>NodeHealthChecker\<close>: the watch channel with its value and the number of its
  receivers, the token, the task, and for the statements below the results of the probes so far and the
  values sent.
\<close>

type_synonym 'resp probe_result = "unit + (error + 'resp)"

record 'resp checker =
  hk_value :: health_status
  hk_receivers :: nat
  hk_alive :: bool
  hk_cancelled :: bool
  hk_phase :: probe_phase
  hk_probes :: "'resp probe_result list"
  hk_sent :: "health_status list"

definition check_node :: "'resp checker" where
  "check_node = \<lparr>hk_value = Unknown, hk_receivers = 1, hk_alive = True, hk_cancelled = False, hk_phase = Probing,
     hk_probes = [], hk_sent = []\<rparr>"

definition checker_status :: "'resp checker \<Rightarrow> health_status" where
  "checker_status h = hk_value h"

definition checker_subscribe :: "'resp checker \<Rightarrow> 'resp checker" where
  "checker_subscribe h = h\<lparr>hk_receivers := hk_receivers h + 1\<rparr>"

definition checker_drop :: "'resp checker \<Rightarrow> 'resp checker" where
  "checker_drop h = h\<lparr>hk_alive := False, hk_cancelled := True, hk_receivers := hk_receivers h - 1\<rparr>"

text \<open>The outcome of \<^verbatim>\<open>timeout(.., rpc_call(..))\<close>: \<open>Inl\<close> is the elapsed timeout.\<close>

fun new_status :: "'resp probe_result \<Rightarrow> health_status" where
  "new_status (Inr (Inr _)) = Healthy"
| "new_status _ = Unhealthy"

text \<open>\<^verbatim>\<open>watch::Sender::send\<close> keeps the old value when there is no receiver.\<close>

definition watch_send :: "health_status \<Rightarrow> 'resp checker \<Rightarrow> 'resp checker" where
  "watch_send st h = (if hk_receivers h = 0 then h else h\<lparr>hk_value := st, hk_sent := hk_sent h @ [st]\<rparr>)"

definition probe_done :: "'resp probe_result \<Rightarrow> 'resp checker \<Rightarrow> 'resp checker" where
  "probe_done r h = (let st = new_status r; h = h\<lparr>hk_probes := hk_probes h @ [r]\<rparr>;
     h = (if hk_value h \<noteq> st then watch_send st h else h) in h\<lparr>hk_phase := Sleeping\<rparr>)"

text \<open>The biased \<^verbatim>\<open>select!\<close>: a fired token wins over an elapsed interval.\<close>

definition sleep_poll :: "bool \<Rightarrow> 'resp checker \<Rightarrow> 'resp checker" where
  "sleep_poll elapsed h = (if hk_cancelled h then h\<lparr>hk_phase := Ended\<rparr> else if elapsed then h\<lparr>hk_phase := Probing\<rparr> else h)"

inductive checker_step :: "'resp checker \<Rightarrow> 'resp checker \<Rightarrow> bool" where
  probe: "hk_phase h = Probing \<Longrightarrow> checker_step h (probe_done r h)"
| poll: "hk_phase h = Sleeping \<Longrightarrow> checker_step h (sleep_poll elapsed h)"
| subscribe: "hk_alive h \<Longrightarrow> checker_step h (checker_subscribe h)"
| unsubscribe: "(if hk_alive h then 1 else 0) < hk_receivers h \<Longrightarrow> checker_step h (h\<lparr>hk_receivers := hk_receivers h - 1\<rparr>)"
| drop: "hk_alive h \<Longrightarrow> checker_step h (checker_drop h)"

section \<open>Invariants\<close>

definition last_status :: "'resp probe_result list \<Rightarrow> health_status" where
  "last_status rs = (if rs = [] then Unknown else new_status (last rs))"

definition health_inv :: "'resp checker \<Rightarrow> bool" where
  "health_inv h \<longleftrightarrow> (hk_alive h \<longrightarrow> 0 < hk_receivers h \<and> hk_value h = last_status (hk_probes h))
     \<and> hk_cancelled h = (\<not> hk_alive h) \<and> hk_value h = last (Unknown # hk_sent h) \<and> distinct_adj (Unknown # hk_sent h)"

lemma distinct_adj_snoc: "distinct_adj (xs @ [x]) \<longleftrightarrow> distinct_adj xs \<and> (xs = [] \<or> last xs \<noteq> x)"
  by (induction xs rule: induct_list012) auto

lemma health_inv_send:
  assumes "hk_value h \<noteq> st" "hk_value h = last (Unknown # hk_sent h)" "distinct_adj (Unknown # hk_sent h)"
  shows "hk_value (watch_send st h) = last (Unknown # hk_sent (watch_send st h)) \<and> distinct_adj (Unknown # hk_sent (watch_send st h))"
  using assms distinct_adj_snoc [of "Unknown # hk_sent h" st] by (simp add: watch_send_def)

lemma watch_send_same [simp]:
  "hk_alive (watch_send st h) = hk_alive h" "hk_cancelled (watch_send st h) = hk_cancelled h"
  "hk_receivers (watch_send st h) = hk_receivers h" "hk_probes (watch_send st h) = hk_probes h"
  "0 < hk_receivers h \<Longrightarrow> hk_value (watch_send st h) = st"
  by (simp_all add: watch_send_def)

lemma health_inv_probe:
  assumes "health_inv h"
  shows "health_inv (probe_done r h)"
proof (cases "hk_value h = new_status r")
  case True
  with assms show ?thesis by (simp add: health_inv_def probe_done_def last_status_def Let_def)
next
  case False
  let ?h = "h\<lparr>hk_probes := hk_probes h @ [r]\<rparr>"
  have "hk_value (watch_send (new_status r) ?h) = last (Unknown # hk_sent (watch_send (new_status r) ?h))
    \<and> distinct_adj (Unknown # hk_sent (watch_send (new_status r) ?h))"
    by (rule health_inv_send) (use assms False in \<open>simp_all add: health_inv_def\<close>)
  moreover have "probe_done r h = (watch_send (new_status r) ?h)\<lparr>hk_phase := Sleeping\<rparr>" using False by (simp add: probe_done_def Let_def)
  moreover have "hk_alive h \<longrightarrow> 0 < hk_receivers h" "hk_cancelled h = (\<not> hk_alive h)" using assms unfolding health_inv_def by blast+
  moreover have "last_status (hk_probes h @ [r]) = new_status r" by (simp add: last_status_def)
  ultimately show ?thesis unfolding health_inv_def by (auto simp del: last.simps)
qed

lemma health_inv_step: "checker_step h h' \<Longrightarrow> health_inv h \<Longrightarrow> health_inv h'"
proof (induction rule: checker_step.induct)
  case (probe h r)
  then show ?case by (simp add: health_inv_probe)
qed (auto simp: health_inv_def sleep_poll_def checker_subscribe_def checker_drop_def)

lemma health_inv_steps: "checker_step\<^sup>*\<^sup>* check_node h \<Longrightarrow> health_inv h"
proof (induction rule: rtranclp_induct)
  case base
  show ?case by (simp add: health_inv_def check_node_def last_status_def)
qed (rule health_inv_step)

text \<open>How much the task can still do once the token has fired.\<close>

fun probes_left :: "probe_phase \<Rightarrow> nat" where
  "probes_left Probing = 1"
| "probes_left Sleeping = 0"
| "probes_left Ended = 0"

lemma cancelled_step:
  assumes "checker_step h h'" "hk_cancelled h"
  shows "hk_cancelled h' \<and> length (hk_probes h') + probes_left (hk_phase h') \<le> length (hk_probes h) + probes_left (hk_phase h)"
  using assms
proof (induction rule: checker_step.induct)
  case (probe h r)
  then show ?case by (simp add: probe_done_def Let_def)
qed (auto simp: sleep_poll_def checker_subscribe_def checker_drop_def)

section \<open>Properties\<close>

text \<open>
  C31. A health checker reports the last probe. In every reachable state, while the checker is alive its
  status is \<^verbatim>\<open>Unknown\<close> before the first probe has completed and otherwise \<^verbatim>\<open>Healthy\<close> exactly when the
  last probe got a response within the timeout; subscribers are woken by changes only, every value sent
  differs from the one before.
\<close>

theorem health_reports_last_probe:
  assumes "checker_step\<^sup>*\<^sup>* check_node h"
  shows "(hk_alive h \<longrightarrow> checker_status h = (if hk_probes h = [] then Unknown else new_status (last (hk_probes h))))
    \<and> distinct_adj (Unknown # hk_sent h)"
  using health_inv_steps [OF assms] unfolding health_inv_def checker_status_def last_status_def by blast

text \<open>
  A dropped checker stops. After the drop at most one more probe completes, whatever happens, and
  as soon as the task is polled in its wait it ends; an ended task stays ended.
\<close>

theorem health_stops_after_drop:
  assumes "checker_step\<^sup>*\<^sup>* (checker_drop h) h'"
  shows "length (hk_probes h') \<le> length (hk_probes h) + 1
    \<and> (hk_phase h' = Sleeping \<longrightarrow> hk_phase (sleep_poll elapsed h') = Ended)
    \<and> (hk_phase h = Ended \<longrightarrow> hk_phase h' = Ended \<and> hk_probes h' = hk_probes h)"
proof -
  have "hk_cancelled h' \<and> length (hk_probes h') + probes_left (hk_phase h') \<le> length (hk_probes h) + probes_left (hk_phase h)"
    using assms
  proof (induction rule: rtranclp_induct)
    case base
    show ?case by (simp add: checker_drop_def)
  next
    case (step y z)
    with cancelled_step [OF step.hyps(2)] show ?case by linarith
  qed
  moreover have "probes_left (hk_phase h) \<le> 1" by (cases "hk_phase h") auto
  moreover have "hk_phase h = Ended \<longrightarrow> hk_phase h' = Ended \<and> hk_probes h' = hk_probes h"
    using assms
  proof (induction rule: rtranclp_induct)
    case base
    show ?case by (simp add: checker_drop_def)
  next
    case (step y z)
    from step.hyps(2) step.IH show ?case
      by (cases rule: checker_step.cases) (auto simp: checker_subscribe_def checker_drop_def)
  qed
  ultimately show ?thesis by (simp add: sleep_poll_def)
qed

definition demo_probed :: "unit checker" where
  "demo_probed = probe_done (Inr (Inr ())) check_node"

lemma demo_probed_steps: "checker_step\<^sup>*\<^sup>* check_node demo_probed"
  unfolding demo_probed_def by (rule r_into_rtranclp, rule probe) (simp add: check_node_def)

theorem health_reports_last_probe_witness: "checker_status demo_probed = Healthy"
  using health_reports_last_probe [OF demo_probed_steps]
  by (simp add: demo_probed_def probe_done_def watch_send_def check_node_def Let_def)

theorem health_stops_after_drop_witness:
  "checker_step\<^sup>*\<^sup>* (checker_drop demo_probed) (sleep_poll True (checker_drop demo_probed))
   \<and> length (hk_probes (sleep_poll True (checker_drop demo_probed))) \<le> length (hk_probes demo_probed) + 1"
proof -
  have "hk_phase (checker_drop demo_probed) = Sleeping"
    by (simp add: demo_probed_def checker_drop_def probe_done_def watch_send_def check_node_def Let_def)
  then have "checker_step\<^sup>*\<^sup>* (checker_drop demo_probed) (sleep_poll True (checker_drop demo_probed))"
    by (intro r_into_rtranclp poll)
  from this health_stops_after_drop [OF this, of True] show ?thesis by blast
qed

end
