(* ===== verification/Server.thy ===== *)
theory Server
  imports Call_Types
begin

text \<open>
  \<^verbatim>\<open>src/server.rs\<close>: the context a handler gets, the registry of handlers, and the task that reads one
  client stream and dispatches its messages. A handler is an asynchronous function of the application;
  it is modelled by what it does with its context until it is ready: it may release the ordering lock
  and it may send responses, learning each time whether the stream was still open. The effects of a
  handler on the application's own state are not part of this theory.
\<close>

section \<open>Contexts and handlers\<close>

text \<open>
  The context of a call. The guard of the ordering lock and the sending end of the response stream,
  which the context also carries, are part of the state of the stream below.
\<close>

record server_ctx =
  sc_seq_no :: u64
  sc_method :: string
  sc_metadata :: "(string \<times> string) list"

definition ctx_metadata :: "server_ctx \<Rightarrow> (string \<times> string) list" where
  "ctx_metadata ctx = sc_metadata ctx"

definition metadata_get :: "server_ctx \<Rightarrow> string \<Rightarrow> string option" where
  "metadata_get ctx key = map_option snd (find (\<lambda>(k, v). k = key) (sc_metadata ctx))"

text \<open>The three kinds of messages a server sends.\<close>

definition ok_message :: "u64 \<Rightarrow> string \<Rightarrow> u8 list \<Rightarrow> message" where
  "ok_message seq path payload = \<lparr>msg_seq_no = seq, msg_method = path, msg_status_code = 0, msg_status_message = [],
     msg_payload = payload, msg_metadata = Map.empty\<rparr>"

definition status_message :: "u64 \<Rightarrow> string \<Rightarrow> tonic_status \<Rightarrow> message" where
  "status_message seq path st = \<lparr>msg_seq_no = seq, msg_method = path, msg_status_code = of_nat (code st),
     msg_status_message = msg_text st, msg_payload = [], msg_metadata = Map.empty\<rparr>"

definition done_message :: "u64 \<Rightarrow> string \<Rightarrow> message" where
  "done_message seq path = \<lparr>msg_seq_no = seq, msg_method = path, msg_status_code = STATUS_STREAM_DONE,
     msg_status_message = [], msg_payload = [], msg_metadata = Map.empty\<rparr>"

text \<open>
  The future of a handler, as far as its context is concerned: \<open>Release_then\<close> is \<^verbatim>\<open>ctx.release()\<close>,
  \<open>Send_then\<close> is \<^verbatim>\<open>ctx.send(resp)\<close> with what the handler does for each outcome.
\<close>

datatype ('resp, 'r) fut =
    Ready 'r
  | Release_then "('resp, 'r) fut"
  | Send_then 'resp "tonic_status + unit \<Rightarrow> ('resp, 'r) fut"

text \<open>The future behind a \<^verbatim>\<open>HandlerFn\<close>; \<open>Emit\<close> puts a message on the response stream if it is open.\<close>

datatype wire_fut =
    Completed "message option"
  | Unlock wire_fut
  | Emit message "bool \<Rightarrow> wire_fut"

type_synonym handler_fn = "server_ctx \<Rightarrow> message \<Rightarrow> wire_fut"

text \<open>
  Running a handler's future on its context: \<^verbatim>\<open>send\<close> stamps the number and the method of the request,
  \<^verbatim>\<open>release\<close> drops the guard, and so does the end of the handler, which owns the context.
\<close>

primrec with_ctx :: "('resp \<Rightarrow> u8 list) \<Rightarrow> server_ctx \<Rightarrow> ('r \<Rightarrow> wire_fut) \<Rightarrow> ('resp, 'r) fut \<Rightarrow> wire_fut" where
  "with_ctx enc ctx k (Ready r) = Unlock (k r)"
| "with_ctx enc ctx k (Release_then f) = Unlock (with_ctx enc ctx k f)"
| "with_ctx enc ctx k (Send_then resp f) = Emit (ok_message (sc_seq_no ctx) (sc_method ctx) (enc resp))
     (\<lambda>open. with_ctx enc ctx k (f (if open then Inr () else Inl (status_unavailable ''stream closed''))))"

section \<open>The server\<close>

record 's server =
  sv_handlers :: "(string \<times> handler_fn) list"
  sv_interceptors :: "'s server_interceptor list"

type_synonym ('req, 'resp) unary = "server_ctx \<Rightarrow> 'req \<Rightarrow> ('resp, tonic_status + 'resp option) fut"
type_synonym ('req, 'resp) streaming = "server_ctx \<Rightarrow> 'req \<Rightarrow> ('resp, tonic_status + unit) fut"

definition erased_handler :: "(u8 list \<Rightarrow> string + 'req) \<Rightarrow> ('resp \<Rightarrow> u8 list) \<Rightarrow> ('req, 'resp) unary \<Rightarrow> handler_fn" where
  "erased_handler dec enc handler ctx wire =
     (case dec (msg_payload wire) of
        Inl e \<Rightarrow> Unlock (Completed None)
      | Inr req \<Rightarrow> with_ctx enc ctx (\<lambda>r. case r of
            Inr None \<Rightarrow> Completed None
          | Inr (Some resp) \<Rightarrow> Completed (Some (ok_message (msg_seq_no wire) (msg_method wire) (enc resp)))
          | Inl status \<Rightarrow> Completed (Some (status_message (msg_seq_no wire) (msg_method wire) status)))
          (handler ctx req))"

definition register_handler ::
  "string \<Rightarrow> (u8 list \<Rightarrow> string + 'req) \<Rightarrow> ('resp \<Rightarrow> u8 list) \<Rightarrow> ('req, 'resp) unary \<Rightarrow> 's server \<Rightarrow> 's server" where
  "register_handler path dec enc handler sv = sv\<lparr>sv_handlers := hm_insert path (erased_handler dec enc handler) (sv_handlers sv)\<rparr>"

definition erased_streaming :: "(u8 list \<Rightarrow> string + 'req) \<Rightarrow> ('resp \<Rightarrow> u8 list) \<Rightarrow> ('req, 'resp) streaming \<Rightarrow> handler_fn" where
  "erased_streaming dec enc handler ctx wire =
     (case dec (msg_payload wire) of
        Inl e \<Rightarrow> Unlock (Completed None)
      | Inr req \<Rightarrow>
          (let finish = Emit (done_message (sc_seq_no ctx) (sc_method ctx)) (\<lambda>_. Completed None)
           in with_ctx enc ctx (\<lambda>r. case r of
                Inl status \<Rightarrow> Emit (status_message (sc_seq_no ctx) (sc_method ctx) status) (\<lambda>_. finish)
              | Inr _ \<Rightarrow> finish) (handler ctx req)))"

definition register_streaming_handler ::
  "string \<Rightarrow> (u8 list \<Rightarrow> string + 'req) \<Rightarrow> ('resp \<Rightarrow> u8 list) \<Rightarrow> ('req, 'resp) streaming \<Rightarrow> 's server \<Rightarrow> 's server" where
  "register_streaming_handler path dec enc handler sv = sv\<lparr>sv_handlers := hm_insert path (erased_streaming dec enc handler) (sv_handlers sv)\<rparr>"

definition sv_with_interceptor :: "'s server_interceptor \<Rightarrow> 's server \<Rightarrow> 's server" where
  "sv_with_interceptor i sv = sv\<lparr>sv_interceptors := sv_interceptors sv @ [i]\<rparr>"

definition HEALTH_METHOD :: string where
  "HEALTH_METHOD = ''/_gorums/health''"

text \<open>\<^verbatim>\<open>Server::new\<close>; the codec of the health messages is a parameter, its reply carries the flag \<^verbatim>\<open>ok\<close>.\<close>

definition server_new :: "(u8 list \<Rightarrow> string + 'req) \<Rightarrow> (bool \<Rightarrow> u8 list) \<Rightarrow> 's server" where
  "server_new dec enc = register_handler HEALTH_METHOD dec enc (\<lambda>ctx req. Ready (Inr (Some True)))
     \<lparr>sv_handlers = [], sv_interceptors = []\<rparr>"

section \<open>One client stream\<close>

datatype reader = Locking | Reading | Stopped

datatype task_phase = Intercepting | Running wire_fut | Responding message | Over

record task =
  t_msg :: message
  t_guard :: bool
  t_phase :: task_phase

text \<open>
  The state of \<^verbatim>\<open>node_stream\<close>: the reading task, the mutex, the tasks it spawned in order, the messages
  that arrived and are not yet read, and the response channel, each message with the task that sent it.
\<close>

record 's stream =
  st_reader :: reader
  st_locked :: bool
  st_arrived :: "message list"
  st_inbound :: "message list"
  st_tasks :: "task list"
  st_out :: "(nat \<times> message) list"
  st_open :: bool
  st_istate :: 's

definition stream_new :: "'s \<Rightarrow> 's stream" where
  "stream_new s = \<lparr>st_reader = Locking, st_locked = False, st_arrived = [], st_inbound = [], st_tasks = [], st_out = [],
     st_open = True, st_istate = s\<rparr>"

definition set_phase :: "nat \<Rightarrow> task_phase \<Rightarrow> 's stream \<Rightarrow> 's stream" where
  "set_phase t p s = s\<lparr>st_tasks := (st_tasks s)[t := (st_tasks s ! t)\<lparr>t_phase := p\<rparr>]\<rparr>"

text \<open>Dropping the guard unlocks the mutex; a task that no longer has it changes nothing.\<close>

definition drop_guard :: "nat \<Rightarrow> 's stream \<Rightarrow> 's stream" where
  "drop_guard t s = (if t_guard (st_tasks s ! t)
     then s\<lparr>st_locked := False, st_tasks := (st_tasks s)[t := (st_tasks s ! t)\<lparr>t_guard := False\<rparr>]\<rparr> else s)"

definition resp_send :: "nat \<Rightarrow> message \<Rightarrow> 's stream \<Rightarrow> 's stream" where
  "resp_send t m s = (if st_open s then s\<lparr>st_out := st_out s @ [(t, m)]\<rparr> else s)"

text \<open>
  The head of the spawned task: the interceptors, then the handler. The metadata of the message is a
  \<^verbatim>\<open>HashMap\<close>, \<open>entries\<close> is the order in which it is iterated.
\<close>

definition start_task ::
  "'s server \<Rightarrow> ((string \<Rightarrow> string option) \<Rightarrow> (string \<times> string) list) \<Rightarrow> string option \<Rightarrow> nat \<Rightarrow> 's stream \<Rightarrow> 's stream" where
  "start_task sv entries peer t s = (let msg = t_msg (st_tasks s ! t) in
     case run_server (sv_interceptors sv) \<lparr>sci_method = msg_method msg, sci_peer_addr = peer\<rparr> (st_istate s) of
       (Inl status, is) \<Rightarrow>
         set_phase t Over (drop_guard t (resp_send t (status_message (msg_seq_no msg) (msg_method msg) status) (s\<lparr>st_istate := is\<rparr>)))
     | (Inr _, is) \<Rightarrow>
         (let ctx = \<lparr>sc_seq_no = msg_seq_no msg, sc_method = msg_method msg, sc_metadata = entries (msg_metadata msg)\<rparr>
          in case map_of (sv_handlers sv) (msg_method msg) of
               None \<Rightarrow> set_phase t Over (drop_guard t (s\<lparr>st_istate := is\<rparr>))
             | Some h \<Rightarrow> set_phase t (Running (h ctx msg)) (s\<lparr>st_istate := is\<rparr>)))"

text \<open>The next step of a spawned task; \<open>None\<close> when it is over.\<close>

definition run_task ::
  "'s server \<Rightarrow> ((string \<Rightarrow> string option) \<Rightarrow> (string \<times> string) list) \<Rightarrow> string option \<Rightarrow> nat \<Rightarrow> 's stream \<Rightarrow> 's stream option" where
  "run_task sv entries peer t s =
     (case t_phase (st_tasks s ! t) of
        Intercepting \<Rightarrow> Some (start_task sv entries peer t s)
      | Running (Unlock f) \<Rightarrow> Some (set_phase t (Running f) (drop_guard t s))
      | Running (Emit m k) \<Rightarrow> Some (set_phase t (Running (k (st_open s))) (resp_send t m s))
      | Running (Completed None) \<Rightarrow> Some (set_phase t Over (drop_guard t s))
      | Running (Completed (Some m)) \<Rightarrow> Some (set_phase t (Responding m) (drop_guard t s))
      | Responding m \<Rightarrow> Some (set_phase t Over (resp_send t m s))
      | Over \<Rightarrow> None)"

inductive stream_step ::
  "'s server \<Rightarrow> ((string \<Rightarrow> string option) \<Rightarrow> (string \<times> string) list) \<Rightarrow> string option \<Rightarrow> 's stream \<Rightarrow> 's stream \<Rightarrow> bool"
  for sv entries peer where
  lock: "st_reader s = Locking \<Longrightarrow> \<not> st_locked s \<Longrightarrow> stream_step sv entries peer s (s\<lparr>st_reader := Reading, st_locked := True\<rparr>)"
| read: "st_reader s = Reading \<Longrightarrow> st_inbound s = m # ms \<Longrightarrow> stream_step sv entries peer s
    (s\<lparr>st_reader := Locking, st_inbound := ms, st_tasks := st_tasks s @ [\<lparr>t_msg = m, t_guard = True, t_phase = Intercepting\<rparr>]\<rparr>)"
| stop: "st_reader s = Reading \<Longrightarrow> stream_step sv entries peer s (s\<lparr>st_reader := Stopped, st_locked := False\<rparr>)"
| task: "t < length (st_tasks s) \<Longrightarrow> run_task sv entries peer t s = Some s' \<Longrightarrow> stream_step sv entries peer s s'"
| arrive: "stream_step sv entries peer s (s\<lparr>st_arrived := st_arrived s @ [m], st_inbound := st_inbound s @ [m]\<rparr>)"
| hang_up: "stream_step sv entries peer s (s\<lparr>st_open := False\<rparr>)"

inductive_cases stream_stepE: "stream_step sv entries peer s s'"

abbreviation stream_steps ::
  "'s server \<Rightarrow> ((string \<Rightarrow> string option) \<Rightarrow> (string \<times> string) list) \<Rightarrow> string option \<Rightarrow> 's stream \<Rightarrow> 's stream \<Rightarrow> bool" where
  "stream_steps sv entries peer \<equiv> (stream_step sv entries peer)\<^sup>*\<^sup>*"

section \<open>The effect of a step\<close>

text \<open>What a task may do in one step, as far as the lock and the other tasks are concerned.\<close>

lemma run_task_effect:
  assumes "run_task sv entries peer t s = Some s'" "t < length (st_tasks s)"
  shows "st_tasks s' = (st_tasks s)[t := st_tasks s' ! t] \<and> t_msg (st_tasks s' ! t) = t_msg (st_tasks s ! t)
    \<and> (t_guard (st_tasks s' ! t) = t_guard (st_tasks s ! t) \<and> st_locked s' = st_locked s
       \<or> \<not> t_guard (st_tasks s' ! t) \<and> t_guard (st_tasks s ! t) \<and> \<not> st_locked s')
    \<and> (t_phase (st_tasks s' ! t) = Over \<or> (\<exists>m. t_phase (st_tasks s' ! t) = Responding m) \<longrightarrow>
         (\<exists>m. t_phase (st_tasks s ! t) = Responding m) \<or> \<not> t_guard (st_tasks s' ! t))
    \<and> st_reader s' = st_reader s \<and> st_arrived s' = st_arrived s \<and> st_inbound s' = st_inbound s \<and> st_open s' = st_open s
    \<and> (st_out s' = st_out s \<or> (\<exists>m. st_out s' = st_out s @ [(t, m)]))"
proof -
  obtain m g p where task: "st_tasks s ! t = \<lparr>t_msg = m, t_guard = g, t_phase = p\<rparr>" by (metis task.surjective old.unit.exhaust)
  note defs = run_task_def start_task_def set_phase_def drop_guard_def resp_send_def Let_def
  show ?thesis
  proof (cases p)
    case Intercepting
    obtain v i where rs: "run_server (sv_interceptors sv) \<lparr>sci_method = msg_method m, sci_peer_addr = peer\<rparr> (st_istate s) = (v, i)"
      by fastforce
    show ?thesis
    proof (cases v)
      case (Inl st)
      then show ?thesis using assms Intercepting by (cases g; cases "st_open s"; clarsimp simp: defs task rs)
    next
      case (Inr u)
      then show ?thesis using assms Intercepting
        by (cases g; cases "map_of (sv_handlers sv) (msg_method m)"; clarsimp simp: defs task rs)
    qed
  next
    case (Running f)
    show ?thesis
    proof (cases f)
      case (Completed r)
      then show ?thesis using assms Running by (cases g; cases r; clarsimp simp: defs task)
    next
      case (Unlock f')
      then show ?thesis using assms Running by (cases g; clarsimp simp: defs task)
    next
      case (Emit m' k)
      then show ?thesis using assms Running by (cases "st_open s"; clarsimp simp: defs task)
    qed
  next
    case (Responding m')
    then show ?thesis using assms by (cases "st_open s"; clarsimp simp: defs task)
  next
    case Over
    then show ?thesis using assms by (simp add: defs task)
  qed
qed

section \<open>The ordering lock\<close>

definition lock_inv :: "'s stream \<Rightarrow> bool" where
  "lock_inv s \<longleftrightarrow> (st_locked s \<longleftrightarrow> st_reader s = Reading \<or> (\<exists>t < length (st_tasks s). t_guard (st_tasks s ! t)))
     \<and> (\<forall>t < length (st_tasks s). t_guard (st_tasks s ! t) \<longrightarrow> st_reader s = Locking \<and> Suc t = length (st_tasks s))
     \<and> (\<forall>t < length (st_tasks s). t_phase (st_tasks s ! t) = Over \<or> (\<exists>m. t_phase (st_tasks s ! t) = Responding m) \<longrightarrow> \<not> t_guard (st_tasks s ! t))
     \<and> map t_msg (st_tasks s) @ st_inbound s = st_arrived s"

lemma lock_inv_new: "lock_inv (stream_new s)"
  by (simp add: lock_inv_def stream_new_def)

lemma lock_inv_task:
  assumes inv: "lock_inv s" and run: "run_task sv entries peer t s = Some s'" and t: "t < length (st_tasks s)"
  shows "lock_inv s'"
proof -
  define new where "new = st_tasks s' ! t"
  have ts: "st_tasks s' = (st_tasks s)[t := new]" and msg: "t_msg new = t_msg (st_tasks s ! t)"
    and lk: "t_guard new = t_guard (st_tasks s ! t) \<and> st_locked s' = st_locked s \<or> \<not> t_guard new \<and> t_guard (st_tasks s ! t) \<and> \<not> st_locked s'"
    and ov: "t_phase new = Over \<or> (\<exists>m. t_phase new = Responding m) \<longrightarrow> (\<exists>m. t_phase (st_tasks s ! t) = Responding m) \<or> \<not> t_guard new"
    and same: "st_reader s' = st_reader s" "st_arrived s' = st_arrived s" "st_inbound s' = st_inbound s"
    using run_task_effect [OF run t] unfolding new_def by blast+
  have g: "t_guard new \<longrightarrow> t_guard (st_tasks s ! t)" using lk by blast
  have "map t_msg (st_tasks s') = map t_msg (st_tasks s)" using t by (simp add: ts map_update msg list_update_same_conv)
  moreover have "st_locked s' \<longleftrightarrow> st_reader s' = Reading \<or> (\<exists>t' < length (st_tasks s'). t_guard (st_tasks s' ! t'))"
    using lk
  proof
    assume "t_guard new = t_guard (st_tasks s ! t) \<and> st_locked s' = st_locked s"
    moreover from this have "t_guard (st_tasks s' ! t') = t_guard (st_tasks s ! t')" if "t' < length (st_tasks s)" for t'
      using t that by (simp add: ts nth_list_update)
    ultimately show ?thesis using inv by (auto simp: lock_inv_def same ts)
  next
    assume a: "\<not> t_guard new \<and> t_guard (st_tasks s ! t) \<and> \<not> st_locked s'"
    then have "st_reader s = Locking" and last: "Suc t = length (st_tasks s)" using inv t by (auto simp: lock_inv_def)
    moreover have "\<not> t_guard (st_tasks s' ! t')" if "t' < length (st_tasks s')" for t'
    proof (cases "t' = t")
      case True
      then show ?thesis using a t by (simp add: ts)
    next
      case False
      have "t_guard (st_tasks s ! t') \<longrightarrow> Suc t' = length (st_tasks s)" using that inv by (simp add: lock_inv_def ts)
      with last False show ?thesis by (auto simp: ts)
    qed
    ultimately show ?thesis using a same by auto
  qed
  moreover have "\<forall>t' < length (st_tasks s'). t_guard (st_tasks s' ! t') \<longrightarrow> st_reader s' = Locking \<and> Suc t' = length (st_tasks s')"
    using inv t g by (auto simp: ts same lock_inv_def nth_list_update)
  moreover have "\<forall>t' < length (st_tasks s'). t_phase (st_tasks s' ! t') = Over \<or> (\<exists>m. t_phase (st_tasks s' ! t') = Responding m)
      \<longrightarrow> \<not> t_guard (st_tasks s' ! t')"
    using inv t g ov by (auto simp: ts lock_inv_def nth_list_update)
  ultimately show ?thesis using inv same by (simp add: lock_inv_def)
qed

lemma lock_inv_step:
  assumes "stream_step sv entries peer s s'" "lock_inv s"
  shows "lock_inv s'"
  using assms(1)
proof (cases rule: stream_step.cases)
  case (task t)
  then show ?thesis using lock_inv_task [OF assms(2)] by blast
qed (use assms(2) in \<open>auto simp: lock_inv_def nth_append less_Suc_eq\<close>)

lemma lock_inv_steps: "stream_steps sv entries peer (stream_new i) s \<Longrightarrow> lock_inv s"
  by (induction rule: rtranclp_induct) (auto intro: lock_inv_new lock_inv_step)

section \<open>What a task sends\<close>

text \<open>The messages of a handler's future on a stream that stays open.\<close>

primrec wire_trace :: "wire_fut \<Rightarrow> message list" where
  "wire_trace (Completed r) = (case r of None \<Rightarrow> [] | Some m \<Rightarrow> [m])"
| "wire_trace (Unlock f) = wire_trace f"
| "wire_trace (Emit m k) = m # wire_trace (k True)"

primrec fut_run :: "('resp, 'r) fut \<Rightarrow> 'resp list \<times> 'r" where
  "fut_run (Ready r) = ([], r)"
| "fut_run (Release_then f) = fut_run f"
| "fut_run (Send_then resp k) = (resp # fst (fut_run (k (Inr ()))), snd (fut_run (k (Inr ()))))"

lemma wire_trace_with_ctx:
  "wire_trace (with_ctx enc ctx k f) =
     map (\<lambda>resp. ok_message (sc_seq_no ctx) (sc_method ctx) (enc resp)) (fst (fut_run f)) @ wire_trace (k (snd (fut_run f)))"
  by (induction f) simp_all

definition task_ctx :: "((string \<Rightarrow> string option) \<Rightarrow> (string \<times> string) list) \<Rightarrow> message \<Rightarrow> server_ctx" where
  "task_ctx entries msg = \<lparr>sc_seq_no = msg_seq_no msg, sc_method = msg_method msg, sc_metadata = entries (msg_metadata msg)\<rparr>"

definition sent_by :: "nat \<Rightarrow> 's stream \<Rightarrow> message list" where
  "sent_by t s = map snd (filter (\<lambda>(t', m). t' = t) (st_out s))"

text \<open>What the finished task of a message may have sent.\<close>

definition outcome :: "'s server \<Rightarrow> ((string \<Rightarrow> string option) \<Rightarrow> (string \<times> string) list) \<Rightarrow> string option \<Rightarrow> message \<Rightarrow> message list \<Rightarrow> bool" where
  "outcome sv entries peer msg sent \<longleftrightarrow>
     (\<exists>i status i'. run_server (sv_interceptors sv) \<lparr>sci_method = msg_method msg, sci_peer_addr = peer\<rparr> i = (Inl status, i')
        \<and> sent = [status_message (msg_seq_no msg) (msg_method msg) status])
     \<or> (\<exists>i i'. run_server (sv_interceptors sv) \<lparr>sci_method = msg_method msg, sci_peer_addr = peer\<rparr> i = (Inr (), i')
        \<and> sent = (case map_of (sv_handlers sv) (msg_method msg) of None \<Rightarrow> [] | Some h \<Rightarrow> wire_trace (h (task_ctx entries msg) msg)))"

definition task_ok :: "'s server \<Rightarrow> ((string \<Rightarrow> string option) \<Rightarrow> (string \<times> string) list) \<Rightarrow> string option \<Rightarrow> task \<Rightarrow> message list \<Rightarrow> bool" where
  "task_ok sv entries peer tk sent = (case t_phase tk of
     Intercepting \<Rightarrow> sent = []
   | Running f \<Rightarrow> outcome sv entries peer (t_msg tk) (sent @ wire_trace f)
   | Responding m \<Rightarrow> outcome sv entries peer (t_msg tk) (sent @ [m])
   | Over \<Rightarrow> outcome sv entries peer (t_msg tk) sent)"

definition out_inv :: "'s server \<Rightarrow> ((string \<Rightarrow> string option) \<Rightarrow> (string \<times> string) list) \<Rightarrow> string option \<Rightarrow> 's stream \<Rightarrow> bool" where
  "out_inv sv entries peer s \<longleftrightarrow> (\<forall>p \<in> set (st_out s). fst p < length (st_tasks s))
     \<and> (st_open s \<longrightarrow> (\<forall>t < length (st_tasks s). task_ok sv entries peer (st_tasks s ! t) (sent_by t s)))"

lemma sent_by_send: "sent_by t (resp_send t' m s) = sent_by t s @ (if st_open s \<and> t = t' then [m] else [])"
  by (simp add: sent_by_def resp_send_def)

lemma task_ok_run:
  assumes ok: "task_ok sv entries peer (st_tasks s ! t) (sent_by t s)" and op: "st_open s" and t: "t < length (st_tasks s)"
    and run: "run_task sv entries peer t s = Some s'"
  shows "task_ok sv entries peer (st_tasks s' ! t) (sent_by t s')"
proof -
  obtain m g p where task: "st_tasks s ! t = \<lparr>t_msg = m, t_guard = g, t_phase = p\<rparr>" by (metis task.surjective old.unit.exhaust)
  note defs = run_task_def start_task_def set_phase_def drop_guard_def resp_send_def Let_def task_ok_def sent_by_def
  show ?thesis
  proof (cases p)
    case Intercepting
    obtain v i where rs: "run_server (sv_interceptors sv) \<lparr>sci_method = msg_method m, sci_peer_addr = peer\<rparr> (st_istate s) = (v, i)"
      by fastforce
    show ?thesis
    proof (cases v)
      case (Inl st)
      with rs have "outcome sv entries peer m [status_message (msg_seq_no m) (msg_method m) st]" unfolding outcome_def by blast
      then show ?thesis using assms Intercepting Inl by (cases g; clarsimp simp: defs task rs)
    next
      case (Inr u)
      with rs have o: "outcome sv entries peer m (case map_of (sv_handlers sv) (msg_method m) of None \<Rightarrow> []
          | Some h \<Rightarrow> wire_trace (h (task_ctx entries m) m))" by (auto simp: outcome_def)
      show ?thesis using o assms Intercepting Inr
        by (cases g; cases "map_of (sv_handlers sv) (msg_method m)"; clarsimp simp: defs task rs task_ctx_def)
    qed
  next
    case (Running f)
    show ?thesis
    proof (cases f)
      case (Completed r)
      then show ?thesis using assms Running by (cases g; cases r; clarsimp simp: defs task)
    next
      case (Unlock f')
      then show ?thesis using assms Running by (cases g; clarsimp simp: defs task)
    next
      case (Emit m' k)
      then show ?thesis using assms Running by (clarsimp simp: defs task)
    qed
  next
    case (Responding m')
    then show ?thesis using assms by (clarsimp simp: defs task)
  next
    case Over
    then show ?thesis using assms by (simp add: defs task)
  qed
qed

lemma out_inv_step:
  assumes "stream_step sv entries peer s s'" "out_inv sv entries peer s"
  shows "out_inv sv entries peer s'"
  using assms(1)
proof (cases rule: stream_step.cases)
  case (read m ms)
  have "sent_by (length (st_tasks s)) s = []" using assms(2) by (auto simp: out_inv_def sent_by_def filter_empty_conv)
  with read assms(2) show ?thesis
    by (auto simp: out_inv_def nth_append less_Suc_eq sent_by_def task_ok_def)
next
  case (task t)
  note eff = run_task_effect [OF task(2,1)]
  have "task_ok sv entries peer (st_tasks s' ! t') (sent_by t' s')" if "st_open s'" "t' < length (st_tasks s')" for t'
  proof (cases "t' = t")
    case True
    with that task_ok_run [OF _ _ task] assms(2) eff show ?thesis by (auto simp: out_inv_def task(1))
  next
    case False
    then have "st_tasks s' ! t' = st_tasks s ! t'" "length (st_tasks s') = length (st_tasks s)"
      using eff by (metis nth_list_update_neq, metis length_list_update)
    moreover have "sent_by t' s' = sent_by t' s" using eff False by (auto simp: sent_by_def)
    ultimately show ?thesis using that assms(2) eff by (auto simp: out_inv_def)
  qed
  moreover have "length (st_tasks s') = length (st_tasks s)" using eff by (metis length_list_update)
  moreover have "\<forall>p \<in> set (st_out s'). fst p < length (st_tasks s)"
    using assms(2) eff task(1) unfolding out_inv_def by (metis Un_iff empty_iff empty_set fst_conv list.simps(15) set_append singletonD)
  ultimately show ?thesis by (simp add: out_inv_def)
qed (use assms(2) in \<open>auto simp: out_inv_def sent_by_def\<close>)

lemma out_inv_steps: "stream_steps sv entries peer (stream_new i) s \<Longrightarrow> out_inv sv entries peer s"
proof (induction rule: rtranclp_induct)
  case base
  show ?case by (simp add: out_inv_def stream_new_def)
qed (rule out_inv_step)

section \<open>Progress\<close>

lemma task_step_phase:
  assumes "t < length (st_tasks s)"
  shows "t_phase (st_tasks s ! t) = Running (Unlock f) \<Longrightarrow> \<exists>s'. run_task sv entries peer t s = Some s' \<and> t_phase (st_tasks s' ! t) = Running f"
    "t_phase (st_tasks s ! t) = Running (Emit m k) \<Longrightarrow> \<exists>s'. run_task sv entries peer t s = Some s' \<and> t_phase (st_tasks s' ! t) = Running (k (st_open s))"
    "t_phase (st_tasks s ! t) = Running (Completed None) \<Longrightarrow> \<exists>s'. run_task sv entries peer t s = Some s' \<and> t_phase (st_tasks s' ! t) = Over"
    "t_phase (st_tasks s ! t) = Running (Completed (Some m)) \<Longrightarrow> \<exists>s'. run_task sv entries peer t s = Some s' \<and> t_phase (st_tasks s' ! t) = Responding m"
    "t_phase (st_tasks s ! t) = Responding m \<Longrightarrow> \<exists>s'. run_task sv entries peer t s = Some s' \<and> t_phase (st_tasks s' ! t) = Over"
    "t_phase (st_tasks s ! t) = Intercepting \<Longrightarrow> \<exists>s'. run_task sv entries peer t s = Some s' \<and> (t_phase (st_tasks s' ! t) = Over \<or> (\<exists>f. t_phase (st_tasks s' ! t) = Running f))"
  using assms by (simp_all add: run_task_def set_phase_def drop_guard_def resp_send_def start_task_def Let_def split: prod.splits sum.splits option.splits)

text \<open>Everything but task \<open>t\<close> and the response stream is as before.\<close>

definition only_task :: "nat \<Rightarrow> 's stream \<Rightarrow> 's stream \<Rightarrow> bool" where
  "only_task t s s' \<longleftrightarrow> st_reader s' = st_reader s \<and> st_arrived s' = st_arrived s \<and> st_inbound s' = st_inbound s \<and> st_open s' = st_open s
     \<and> length (st_tasks s') = length (st_tasks s) \<and> (\<forall>t'. t' \<noteq> t \<longrightarrow> st_tasks s' ! t' = st_tasks s ! t')"

lemma only_task_run:
  assumes "run_task sv entries peer t s = Some s'" "t < length (st_tasks s)"
  shows "stream_steps sv entries peer s s' \<and> only_task t s s'"
proof -
  note eff = run_task_effect [OF assms]
  have "length (st_tasks s') = length (st_tasks s)" using eff by (metis length_list_update)
  moreover have "st_tasks s' ! t' = st_tasks s ! t'" if "t' \<noteq> t" for t' using eff that by (metis nth_list_update_neq)
  moreover have "stream_steps sv entries peer s s'" by (rule r_into_rtranclp, rule task [OF assms(2,1)])
  ultimately show ?thesis using eff by (simp add: only_task_def)
qed

lemma only_task_trans: "only_task t s s1 \<Longrightarrow> only_task t s1 s2 \<Longrightarrow> only_task t s s2"
  by (simp add: only_task_def)

text \<open>Every task can be run to its end, whatever the others do.\<close>

lemma finish_running:
  "t < length (st_tasks s) \<Longrightarrow> t_phase (st_tasks s ! t) = Running f \<Longrightarrow>
     \<exists>s'. stream_steps sv entries peer s s' \<and> only_task t s s' \<and> t_phase (st_tasks s' ! t) = Over"
proof (induction f arbitrary: s)
  case (Completed r)
  show ?case
  proof (cases r)
    case None
    with Completed task_step_phase(3) [OF Completed(1)] only_task_run show ?thesis by metis
  next
    case (Some m)
    with Completed obtain s1 where s1: "run_task sv entries peer t s = Some s1" "t_phase (st_tasks s1 ! t) = Responding m"
      using task_step_phase(4) by metis
    note one = only_task_run [OF s1(1) Completed(1)]
    then have t1: "t < length (st_tasks s1)" using Completed(1) by (simp add: only_task_def)
    obtain s2 where s2: "run_task sv entries peer t s1 = Some s2" "t_phase (st_tasks s2 ! t) = Over"
      using task_step_phase(5) [OF t1 s1(2)] by blast
    note two = only_task_run [OF s2(1) t1]
    with one have "stream_steps sv entries peer s s2" "only_task t s s2" by (auto intro: only_task_trans rtranclp_trans)
    with s2(2) show ?thesis by blast
  qed
next
  case (Unlock f)
  obtain s1 where s1: "run_task sv entries peer t s = Some s1" "t_phase (st_tasks s1 ! t) = Running f"
    using task_step_phase(1) [OF Unlock(2,3)] by blast
  note one = only_task_run [OF s1(1) Unlock(2)]
  then have "t < length (st_tasks s1)" using Unlock(2) by (simp add: only_task_def)
  from Unlock.IH [OF this s1(2)] one show ?case by (blast intro: only_task_trans rtranclp_trans)
next
  case (Emit m k)
  obtain s1 where s1: "run_task sv entries peer t s = Some s1" "t_phase (st_tasks s1 ! t) = Running (k (st_open s))"
    using task_step_phase(2) [OF Emit(2,3)] by blast
  note one = only_task_run [OF s1(1) Emit(2)]
  then have "t < length (st_tasks s1)" using Emit(2) by (simp add: only_task_def)
  from Emit.IH [OF _ this s1(2)] one show ?case by (blast intro: only_task_trans rtranclp_trans)
qed

lemma finish_task:
  assumes "t < length (st_tasks s)"
  shows "\<exists>s'. stream_steps sv entries peer s s' \<and> only_task t s s' \<and> t_phase (st_tasks s' ! t) = Over"
proof (cases "t_phase (st_tasks s ! t)")
  case Intercepting
  obtain s1 where s1: "run_task sv entries peer t s = Some s1" "t_phase (st_tasks s1 ! t) = Over \<or> (\<exists>f. t_phase (st_tasks s1 ! t) = Running f)"
    using task_step_phase(6) [OF assms Intercepting] by blast
  note one = only_task_run [OF s1(1) assms]
  then have t1: "t < length (st_tasks s1)" using assms by (simp add: only_task_def)
  show ?thesis
    using s1(2)
  proof
    assume "\<exists>f. t_phase (st_tasks s1 ! t) = Running f"
    then obtain f where "t_phase (st_tasks s1 ! t) = Running f" by blast
    from finish_running [OF t1 this] one show ?thesis by (blast intro: only_task_trans rtranclp_trans)
  qed (use one in blast)
next
  case (Running f)
  then show ?thesis by (rule finish_running [OF assms])
next
  case (Responding m)
  then show ?thesis using task_step_phase(5) [OF assms] only_task_run [OF _ assms] by metis
next
  case Over
  then show ?thesis by (auto simp: only_task_def)
qed

lemma finish_all:
  assumes "n \<le> length (st_tasks s)"
  shows "\<exists>s'. stream_steps sv entries peer s s' \<and> st_reader s' = st_reader s \<and> st_arrived s' = st_arrived s \<and> st_inbound s' = st_inbound s
    \<and> length (st_tasks s') = length (st_tasks s) \<and> (\<forall>t < n. t_phase (st_tasks s' ! t) = Over)"
  using assms
proof (induction n)
  case (Suc n)
  then obtain s1 where s1: "stream_steps sv entries peer s s1" "st_reader s1 = st_reader s" "st_arrived s1 = st_arrived s"
    "st_inbound s1 = st_inbound s" "length (st_tasks s1) = length (st_tasks s)" "\<forall>t < n. t_phase (st_tasks s1 ! t) = Over" by auto
  then have "n < length (st_tasks s1)" using Suc.prems by simp
  from finish_task [OF this] obtain s2 where s2: "stream_steps sv entries peer s1 s2" "only_task n s1 s2" "t_phase (st_tasks s2 ! n) = Over" by blast
  have "stream_steps sv entries peer s s2" using s1(1) s2(1) by (rule rtranclp_trans)
  moreover have "\<forall>t < Suc n. t_phase (st_tasks s2 ! t) = Over" using s1(6) s2(2,3) by (auto simp: only_task_def less_Suc_eq)
  ultimately show ?case using s1 s2(2) by (auto simp: only_task_def)
qed auto

lemma dispatch_one:
  assumes inv: "lock_inv s" and r: "st_reader s \<noteq> Stopped" and over: "\<forall>t < length (st_tasks s). t_phase (st_tasks s ! t) = Over"
    and ib: "st_inbound s = m # ms"
  shows "\<exists>s'. stream_steps sv entries peer s s' \<and> st_reader s' = Locking \<and> st_inbound s' = ms \<and> st_arrived s' = st_arrived s
    \<and> (\<forall>t < length (st_tasks s'). t_phase (st_tasks s' ! t) = Over)"
proof -
  have "\<exists>s1. stream_steps sv entries peer s s1 \<and> st_reader s1 = Reading \<and> st_inbound s1 = m # ms \<and> st_arrived s1 = st_arrived s"
  proof (cases "st_reader s = Reading")
    case True
    with ib show ?thesis by blast
  next
    case False
    with r have l: "st_reader s = Locking" by (cases "st_reader s") auto
    have "\<not> t_guard (st_tasks s ! t)" if "t < length (st_tasks s)" for t
      using inv over that by (simp add: lock_inv_def)
    with False inv have "\<not> st_locked s" by (auto simp: lock_inv_def)
    from lock [OF l this] ib have "stream_steps sv entries peer s (s\<lparr>st_reader := Reading, st_locked := True\<rparr>)" by blast
    with ib show ?thesis by - (rule exI [of _ "s\<lparr>st_reader := Reading, st_locked := True\<rparr>"], simp)
  qed
  then obtain s1 where s1: "stream_steps sv entries peer s s1" "st_reader s1 = Reading" "st_inbound s1 = m # ms" "st_arrived s1 = st_arrived s" by blast
  let ?s2 = "s1\<lparr>st_reader := Locking, st_inbound := ms, st_tasks := st_tasks s1 @ [\<lparr>t_msg = m, t_guard = True, t_phase = Intercepting\<rparr>]\<rparr>"
  have "stream_steps sv entries peer s ?s2" using s1(1) read [OF s1(2,3)] by (rule rtranclp.rtrancl_into_rtrancl)
  moreover obtain s3 where s3: "stream_steps sv entries peer ?s2 s3" "st_reader s3 = st_reader ?s2" "st_arrived s3 = st_arrived ?s2"
    "st_inbound s3 = st_inbound ?s2" "length (st_tasks s3) = length (st_tasks ?s2)" "\<forall>t < length (st_tasks ?s2). t_phase (st_tasks s3 ! t) = Over"
    using finish_all [of "length (st_tasks ?s2)" ?s2] by blast
  ultimately have "stream_steps sv entries peer s s3" by (meson rtranclp_trans)
  with s3 s1(4) show ?thesis by (intro exI [of _ s3]) simp
qed

lemma drain:
  assumes "lock_inv s" "st_reader s \<noteq> Stopped" "\<forall>t < length (st_tasks s). t_phase (st_tasks s ! t) = Over"
  shows "\<exists>s'. stream_steps sv entries peer s s' \<and> st_inbound s' = [] \<and> st_arrived s' = st_arrived s
    \<and> (\<forall>t < length (st_tasks s'). t_phase (st_tasks s' ! t) = Over)"
  using assms
proof (induction "st_inbound s" arbitrary: s)
  case Nil
  then show ?case by (intro exI [of _ s]) simp
next
  case (Cons m ms)
  obtain s1 where s1: "stream_steps sv entries peer s s1" "st_reader s1 = Locking" "st_inbound s1 = ms" "st_arrived s1 = st_arrived s"
    "\<forall>t < length (st_tasks s1). t_phase (st_tasks s1 ! t) = Over"
    using dispatch_one [OF Cons.prems Cons.hyps(2) [symmetric]] by blast
  have "lock_inv s1" using s1(1) Cons.prems(1) by (induction rule: rtranclp_induct) (auto intro: lock_inv_step)
  then obtain s2 where "stream_steps sv entries peer s1 s2" "st_inbound s2 = []" "st_arrived s2 = st_arrived s1"
    "\<forall>t < length (st_tasks s2). t_phase (st_tasks s2 ! t) = Over"
    using Cons.hyps(1) [of s1] s1 by auto
  with s1(1,4) show ?case by (metis rtranclp_trans)
qed

section \<open>Properties\<close>

text \<open>
  C27. The ordering lock of a stream. In every state a stream can reach, whatever arrives, whatever the
  handlers do and however the tasks interleave: messages are dispatched in the order of their arrival,
  none is lost or dispatched twice; at most one task holds the lock, the last one dispatched, and while
  it does nothing is read from the stream; the lock is taken exactly while the reader or a task holds
  it, and a finished task does not hold it.
\<close>

theorem stream_lock_discipline:
  assumes "stream_steps sv entries peer (stream_new i) s"
  shows "map t_msg (st_tasks s) @ st_inbound s = st_arrived s
    \<and> (\<forall>t < length (st_tasks s). t_guard (st_tasks s ! t) \<longrightarrow> Suc t = length (st_tasks s) \<and> st_reader s = Locking
         \<and> t_phase (st_tasks s ! t) \<noteq> Over)
    \<and> (st_locked s \<longleftrightarrow> st_reader s = Reading \<or> (\<exists>t < length (st_tasks s). t_guard (st_tasks s ! t)))"
  using lock_inv_steps [OF assms] unfolding lock_inv_def by blast

text \<open>
  What a finished task has sent, on a stream that is still open: the status an interceptor rejected
  the call with, and nothing else; or nothing, when no handler is registered for the method; or exactly
  the messages of the handler's future. Only tasks send.
\<close>

theorem task_outputs:
  assumes "stream_steps sv entries peer (stream_new i) s" "st_open s" "t < length (st_tasks s)" "t_phase (st_tasks s ! t) = Over"
  shows "outcome sv entries peer (t_msg (st_tasks s ! t)) (sent_by t s) \<and> (\<forall>p \<in> set (st_out s). fst p < length (st_tasks s))"
  using out_inv_steps [OF assms(1)] assms(2-4) unfolding out_inv_def task_ok_def by fastforce

text \<open>
  C28. Nothing blocks a stream for good. From every reachable state in which the reader has not stopped,
  whatever the handlers did with the lock, there is a run after which every message that had arrived
  has been dispatched and every task is over.
\<close>

theorem stream_drains:
  assumes "stream_steps sv entries peer (stream_new i) s" "st_reader s \<noteq> Stopped"
  shows "\<exists>s'. stream_steps sv entries peer s s' \<and> map t_msg (st_tasks s') = st_arrived s
    \<and> (\<forall>t < length (st_tasks s'). t_phase (st_tasks s' ! t) = Over)"
proof -
  have inv: "lock_inv s" by (rule lock_inv_steps [OF assms(1)])
  obtain s1 where s1: "stream_steps sv entries peer s s1" "st_reader s1 = st_reader s" "st_arrived s1 = st_arrived s"
    "length (st_tasks s1) = length (st_tasks s)" "\<forall>t < length (st_tasks s). t_phase (st_tasks s1 ! t) = Over"
    using finish_all [of "length (st_tasks s)" s] by blast
  have i1: "lock_inv s1" using s1(1) inv by (induction rule: rtranclp_induct) (auto intro: lock_inv_step)
  obtain s2 where s2: "stream_steps sv entries peer s1 s2" "st_inbound s2 = []" "st_arrived s2 = st_arrived s1"
    "\<forall>t < length (st_tasks s2). t_phase (st_tasks s2 ! t) = Over"
    using drain [OF i1] s1 assms(2) by metis
  have "lock_inv s2" using s2(1) i1 by (induction rule: rtranclp_induct) (auto intro: lock_inv_step)
  then have "map t_msg (st_tasks s2) = st_arrived s" using s2 s1(3) by (simp add: lock_inv_def)
  with s1(1) s2 show ?thesis by (meson rtranclp_trans)
qed

section \<open>Client and server together\<close>

text \<open>What is documented of the parts the source does not contain: status codes, the codec, iteration of a map.\<close>

definition codes_ok :: "(int \<Rightarrow> nat) \<Rightarrow> bool" where
  "codes_ok from_i32 \<longleftrightarrow> (\<forall>c \<le> 16. from_i32 (int c) = c)"

definition lists_map :: "((string \<Rightarrow> string option) \<Rightarrow> (string \<times> string) list) \<Rightarrow> (string \<Rightarrow> string option) \<Rightarrow> bool" where
  "lists_map entries md \<longleftrightarrow> map_of (entries md) = md"

lemma status_code_bounds:
  assumes "0 < code st" "code st \<le> 16"
  shows "(of_nat (code st) :: u32) \<noteq> 0" "(of_nat (code st) :: u32) \<noteq> STATUS_STREAM_DONE" "sint (of_nat (code st) :: u32) = int (code st)"
proof -
  have u: "unat (of_nat (code st) :: u32) = code st"
    using assms(2) by (simp add: unsigned_of_nat take_bit_nat_eq_self)
  then show "(of_nat (code st) :: u32) \<noteq> 0" using assms(1) by (metis neq0_conv unat_0)
  have "unat STATUS_STREAM_DONE = 0xFFFFFFFE" by (simp add: STATUS_STREAM_DONE_def)
  then show "(of_nat (code st) :: u32) \<noteq> STATUS_STREAM_DONE" using u assms(2) by auto
  have "signed_take_bit 31 (int (code st)) = int (code st)" using assms(2) by (simp add: signed_take_bit_int_eq_self)
  then show "sint (of_nat (code st) :: u32) = int (code st)" by (simp add: signed_of_nat)
qed

lemma receive_ok: "receive_result from_i32 (ok_message seq path payload) = Inr (ok_message seq path payload)"
  by (simp add: receive_result_def ok_message_def)

lemma receive_status:
  assumes "0 < code st" "code st \<le> 16" "codes_ok from_i32"
  shows "receive_result from_i32 (status_message seq path st) = Inl (Transport st)"
  using status_code_bounds [OF assms(1,2)] assms by (cases st) (simp add: receive_result_def status_message_def codes_ok_def)

lemma metadata_get_map: "metadata_get ctx key = map_of (sc_metadata ctx) key"
proof -
  have "map_option snd (find (\<lambda>(k, v). k = key) es) = map_of es key" for es :: "(string \<times> string) list"
    by (induction es) auto
  then show ?thesis by (simp add: metadata_get_def)
qed

lemma outcome_no_interceptors:
  "sv_interceptors sv = [] \<Longrightarrow> map_of (sv_handlers sv) (msg_method msg) = Some h \<Longrightarrow>
     outcome sv entries peer msg sent \<longleftrightarrow> sent = wire_trace (h (task_ctx entries msg) msg)"
  by (auto simp: outcome_def)

text \<open>What the client decodes of a result of a handler.\<close>

fun client_view :: "tonic_status + 'resp option \<Rightarrow> (error + 'resp) list" where
  "client_view (Inr None) = []"
| "client_view (Inr (Some resp)) = [Inr resp]"
| "client_view (Inl st) = [Inl (Transport st)]"

lemma erased_handler_trace:
  assumes "dec (msg_payload wire) = Inr req" "fut_run (h ctx req) = ([], r)"
  shows "wire_trace (erased_handler dec enc h ctx wire) = (case r of Inr None \<Rightarrow> []
    | Inr (Some resp) \<Rightarrow> [ok_message (msg_seq_no wire) (msg_method wire) (enc resp)]
    | Inl st \<Rightarrow> [status_message (msg_seq_no wire) (msg_method wire) st])"
  using assms by (simp add: erased_handler_def wire_trace_with_ctx split: sum.splits option.splits)

lemma erased_streaming_trace:
  assumes "dec (msg_payload wire) = Inr req" "fut_run (h ctx req) = (rs, r)"
  shows "wire_trace (erased_streaming dec enc h ctx wire) =
    map (\<lambda>resp. ok_message (sc_seq_no ctx) (sc_method ctx) (enc resp)) rs
    @ (case r of Inl st \<Rightarrow> [status_message (sc_seq_no ctx) (sc_method ctx) st] | Inr _ \<Rightarrow> [])
    @ [done_message (sc_seq_no ctx) (sc_method ctx)]"
  using assms by (simp add: erased_streaming_def wire_trace_with_ctx Let_def split: sum.splits)

lemma fold_receive_stream:
  assumes "map_of (rt_inner r) seq = Some (Stream t)" "st_rx_live (rt_streams r t)"
    and "\<forall>m \<in> set ms. msg_seq_no m = seq \<and> msg_status_code m \<noteq> STATUS_STREAM_DONE"
  shows "rt_streams (fold (receive_msg from_i32) ms r) t = (rt_streams r t)\<lparr>st_queue := st_queue (rt_streams r t) @ map (receive_result from_i32) ms\<rparr>
    \<and> map_of (rt_inner (fold (receive_msg from_i32) ms r)) seq = Some (Stream t)"
  using assms
proof (induction ms arbitrary: r)
  case (Cons m ms)
  let ?r = "receive_msg from_i32 m r"
  have r: "?r = r\<lparr>rt_streams := (rt_streams r)(t := (rt_streams r t)\<lparr>st_queue := st_queue (rt_streams r t) @ [receive_result from_i32 m]\<rparr>)\<rparr>"
    using Cons.prems by (simp add: receive_msg_def deliver_def stream_send_def Let_def)
  from Cons.IH [of ?r] Cons.prems show ?case by (simp add: r)
qed simp

section \<open>Properties of the composition\<close>

text \<open>
  C29. A two-way call, end to end. A request built by the client arrives on a stream of a server without
  interceptors whose handler for the method returns \<open>r\<close> without streaming; when the task is over, the
  server has sent one message for an \<open>Ok(Some(..))\<close> or an error and none for \<open>Ok(None)\<close>, every one under the request's
  number and method, and what the client makes of it is the handler's response or status. The handler
  sees, for each metadata key, the last value the client gave.
\<close>

theorem unary_round_trip:
  assumes run: "stream_steps sv entries peer (stream_new i) s" "st_open s" "t < length (st_tasks s)" "t_phase (st_tasks s ! t) = Over"
    and wire: "t_msg (st_tasks s ! t) = wire" "wire = build_wire_message seq (mh_path m) (encode_payload m req) (metadata_map md)"
    and sv: "sv_interceptors sv = []" "map_of (sv_handlers sv) (mh_path m) = Some (erased_handler dec enc h)"
    and codec: "dec (mh_enc m req) = Inr req" "\<And>resp. mh_dec m (enc resp) = Inr resp"
    and lib: "lists_map entries (metadata_map md)" "codes_ok from_i32"
    and h: "fut_run (h (task_ctx entries wire) req) = ([], r)" "\<And>st. r = Inl st \<Longrightarrow> 0 < code st \<and> code st \<le> 16"
  shows "map (\<lambda>reply. decode_reply m (receive_result from_i32 reply)) (sent_by t s) = client_view r
    \<and> (\<forall>reply \<in> set (sent_by t s). msg_seq_no reply = seq \<and> msg_method reply = mh_path m)
    \<and> (\<forall>key. metadata_get (task_ctx entries wire) key = map_of (rev md) key)"
proof -
  have meth: "msg_method wire = mh_path m" "msg_seq_no wire = seq" "msg_payload wire = mh_enc m req" "msg_metadata wire = collect_last md"
    by (simp_all add: wire(2) build_wire_message_def encode_payload_def metadata_map_def)
  have "outcome sv entries peer wire (sent_by t s)"
    using out_inv_steps [OF run(1)] run(2-4) wire(1) unfolding out_inv_def task_ok_def by fastforce
  then have sent: "sent_by t s = wire_trace (erased_handler dec enc h (task_ctx entries wire) wire)"
    using sv by (simp add: outcome_no_interceptors meth)
  have "dec (msg_payload wire) = Inr req" using codec(1) meth by simp
  note tr = erased_handler_trace [where dec = dec and wire = wire and h = h and ctx = "task_ctx entries wire" and enc = enc, OF this h(1)]
  have "map (\<lambda>reply. decode_reply m (receive_result from_i32 reply)) (sent_by t s) = client_view r
    \<and> (\<forall>reply \<in> set (sent_by t s). msg_seq_no reply = seq \<and> msg_method reply = mh_path m)"
  proof (cases r)
    case (Inl st)
    then show ?thesis using h(2) lib(2) by (simp add: sent tr receive_status decode_reply_def meth) (simp add: status_message_def)
  next
    case (Inr v)
    then show ?thesis
      by (cases v) (simp_all add: sent tr receive_ok decode_reply_def decode_payload_def meth, simp_all add: ok_message_def codec(2))
  qed
  moreover have "metadata_get (task_ctx entries wire) key = map_of (rev md) key" for key
    using lib(1) by (simp add: metadata_get_map task_ctx_def meth lists_map_def metadata_map_def collect_last_eq_map_of_rev)
  ultimately show ?thesis by blast
qed

text \<open>
  C30. A correctable call, end to end. A handler registered for streaming sends \<open>rs\<close> and returns \<open>r\<close>.
  When its task is over and the client has received what it sent, the caller's stream holds exactly the
  responses, in order, then the error if \<open>r\<close> is one, and it is closed: the end marker is always sent and
  ends the stream.
\<close>

theorem streaming_round_trip:
  assumes run: "stream_steps sv entries peer (stream_new i) s" "st_open s" "t < length (st_tasks s)" "t_phase (st_tasks s ! t) = Over"
    and wire: "t_msg (st_tasks s ! t) = wire" "wire = build_wire_message seq (mh_path m) (encode_payload m req) (metadata_map md)"
    and sv: "sv_interceptors sv = []" "map_of (sv_handlers sv) (mh_path m) = Some (erased_streaming dec enc h)"
    and codec: "dec (mh_enc m req) = Inr req" "\<And>resp. mh_dec m (enc resp) = Inr resp"
    and lib: "codes_ok from_i32"
    and h: "fut_run (h (task_ctx entries wire) req) = (rs, r)" "\<And>st. r = Inl st \<Longrightarrow> 0 < code st \<and> code st \<le> 16"
    and rt: "map_of (rt_inner rt) seq = Some (Stream q)" "rt_streams rt q = \<lparr>st_queue = [], st_tx_live = True, st_rx_live = True\<rparr>"
  shows "let rt' = fold (receive_msg from_i32) (sent_by t s) rt in
    map (decode_reply m) (st_queue (rt_streams rt' q)) = map Inr rs @ (case r of Inl st \<Rightarrow> [Inl (Transport st)] | Inr _ \<Rightarrow> [])
    \<and> \<not> st_tx_live (rt_streams rt' q) \<and> map_of (rt_inner rt') seq = None"
proof -
  have meth: "msg_method wire = mh_path m" "msg_seq_no wire = seq" "msg_payload wire = mh_enc m req"
    by (simp_all add: wire(2) build_wire_message_def encode_payload_def)
  have ctx: "sc_seq_no (task_ctx entries wire) = seq" "sc_method (task_ctx entries wire) = mh_path m" by (simp_all add: task_ctx_def meth)
  have "outcome sv entries peer wire (sent_by t s)"
    using out_inv_steps [OF run(1)] run(2-4) wire(1) unfolding out_inv_def task_ok_def by fastforce
  then have sent: "sent_by t s = wire_trace (erased_streaming dec enc h (task_ctx entries wire) wire)"
    using sv by (simp add: outcome_no_interceptors meth)
  define ms where "ms = map (\<lambda>resp. ok_message seq (mh_path m) (enc resp)) rs
    @ (case r of Inl st \<Rightarrow> [status_message seq (mh_path m) st] | Inr _ \<Rightarrow> [])"
  have "dec (msg_payload wire) = Inr req" using codec(1) meth by simp
  from erased_streaming_trace [where dec = dec and wire = wire and h = h and ctx = "task_ctx entries wire" and enc = enc, OF this h(1)] have tr: "sent_by t s = ms @ [done_message seq (mh_path m)]"
    by (simp add: sent ms_def ctx cong: sum.case_cong)
  have plain: "\<forall>x \<in> set ms. msg_seq_no x = seq \<and> msg_status_code x \<noteq> STATUS_STREAM_DONE"
    using h(2) status_code_bounds(2) by (auto simp: ms_def ok_message_def status_message_def STATUS_STREAM_DONE_def split: sum.splits)
  have got: "map (decode_reply m) (map (receive_result from_i32) ms) = map Inr rs @ (case r of Inl st \<Rightarrow> [Inl (Transport st)] | Inr _ \<Rightarrow> [])"
    using h(2) lib codec(2)
    by (auto simp: ms_def receive_ok receive_status decode_reply_def decode_payload_def split: sum.splits) (simp_all add: ok_message_def)
  define r1 where "r1 = fold (receive_msg from_i32) ms rt"
  have r1: "rt_streams r1 q = \<lparr>st_queue = map (receive_result from_i32) ms, st_tx_live = True, st_rx_live = True\<rparr>" "map_of (rt_inner r1) seq = Some (Stream q)"
    using fold_receive_stream [OF rt(1) _ plain] rt(2) by (auto simp: r1_def)
  have "receive_msg from_i32 (done_message seq (mh_path m)) r1 = close_stream seq r1"
    by (simp add: receive_msg_def done_message_def)
  then have "fold (receive_msg from_i32) (sent_by t s) rt = close_stream seq r1" by (simp add: tr r1_def)
  moreover have "rt_streams (close_stream seq r1) q = (rt_streams r1 q)\<lparr>st_tx_live := False\<rparr>"
    using r1(2) by (simp add: close_stream_def remove_call_def stream_drop_def Let_def)
  ultimately show ?thesis using r1(1) got by (simp add: Let_def close_stream_def remove_call_absent)
qed

section \<open>Example streams\<close>

text \<open>A server that echoes, and one that counts up to the length of the request before it fails.\<close>

definition echo_server :: "unit server" where
  "echo_server = register_handler ''/e'' (\<lambda>bs. Inr bs) (\<lambda>bs. bs) (\<lambda>ctx bs. Ready (Inr (Some bs))) (server_new (\<lambda>bs. Inr bs) (\<lambda>b. []))"

definition twice_server :: "unit server" where
  "twice_server = register_streaming_handler ''/e'' (\<lambda>bs. Inr bs) (\<lambda>bs. bs)
     (\<lambda>ctx bs. Release_then (Send_then bs (\<lambda>_. Send_then (bs @ bs) (\<lambda>_. Ready (Inl (TonicStatus 5 ''end'')))))) (server_new (\<lambda>bs. Inr bs) (\<lambda>b. []))"

definition demo_method :: "(u8 list, u8 list) method_handle" where
  "demo_method = \<lparr>mh_path = ''/e'', mh_enc = (\<lambda>bs. bs), mh_dec = (\<lambda>bs. Inr bs)\<rparr>"

definition demo_wire :: message where
  "demo_wire = build_wire_message 7 ''/e'' [4] (metadata_map [(''k'', ''v''), (''k'', ''w'')])"

definition demo_dispatched :: "unit stream" where
  "demo_dispatched = (stream_new ())\<lparr>st_arrived := [demo_wire], st_locked := True,
     st_tasks := [\<lparr>t_msg = demo_wire, t_guard = True, t_phase = Intercepting\<rparr>]\<rparr>"

text \<open>An iteration of the one-entry maps of the example.\<close>

definition demo_entries :: "(string \<Rightarrow> string option) \<Rightarrow> (string \<times> string) list" where
  "demo_entries m = (case m ''k'' of Some v \<Rightarrow> [(''k'', v)] | None \<Rightarrow> [])"

lemma demo_entries_ok: "lists_map demo_entries (metadata_map [(''k'', ''v''), (''k'', ''w'')])"
  by (auto simp: lists_map_def demo_entries_def metadata_map_def collect_last_def)

fun drive :: "'s server \<Rightarrow> nat \<Rightarrow> 's stream \<Rightarrow> 's stream" where
  "drive sv 0 s = s"
| "drive sv (Suc k) s = (case run_task sv demo_entries None 0 s of Some s' \<Rightarrow> drive sv k s' | None \<Rightarrow> s)"

lemma drive_steps: "0 < length (st_tasks s) \<Longrightarrow> stream_steps sv demo_entries None s (drive sv k s)"
proof (induction k arbitrary: s)
  case (Suc k)
  show ?case
  proof (cases "run_task sv demo_entries None 0 s")
    case (Some s')
    note one = only_task_run [OF Some Suc.prems]
    then have "0 < length (st_tasks s')" using Suc.prems by (simp add: only_task_def)
    from Suc.IH [OF this] one Some show ?thesis by (auto intro: rtranclp_trans)
  qed simp
qed simp

lemma demo_dispatched_steps: "stream_steps sv demo_entries None (stream_new ()) demo_dispatched"
proof -
  let ?s0 = "stream_new ()"
  let ?s1 = "?s0\<lparr>st_arrived := [demo_wire], st_inbound := [demo_wire]\<rparr>"
  let ?s2 = "?s1\<lparr>st_reader := Reading, st_locked := True\<rparr>"
  have "stream_step sv demo_entries None ?s0 ?s1" using arrive [of sv demo_entries None ?s0 demo_wire] by (simp add: stream_new_def)
  moreover have "stream_step sv demo_entries None ?s1 ?s2" by (rule lock) (simp_all add: stream_new_def)
  moreover have "stream_step sv demo_entries None ?s2 demo_dispatched"
    using read [of ?s2 demo_wire "[]" sv demo_entries None] by (simp add: demo_dispatched_def stream_new_def)
  ultimately show ?thesis by (meson converse_rtranclp_into_rtranclp rtranclp.rtrancl_refl)
qed

lemma driven_steps: "stream_steps sv demo_entries None (stream_new ()) (drive sv k demo_dispatched)"
  using demo_dispatched_steps by (rule rtranclp_trans) (rule drive_steps, simp add: demo_dispatched_def)

lemmas demo_stream_defs = demo_dispatched_def stream_new_def demo_wire_def build_wire_message_def echo_server_def twice_server_def
  register_handler_def register_streaming_handler_def server_new_def HEALTH_METHOD_def run_task_def start_task_def set_phase_def
  drop_guard_def resp_send_def erased_handler_def erased_streaming_def

lemma echo_driven:
  "st_open (drive echo_server 4 demo_dispatched)" "length (st_tasks (drive echo_server 4 demo_dispatched)) = 1"
  "t_phase (st_tasks (drive echo_server 4 demo_dispatched) ! 0) = Over" "t_msg (st_tasks (drive echo_server 4 demo_dispatched) ! 0) = demo_wire"
  by (simp_all add: numeral_eq_Suc demo_stream_defs Let_def)

lemma twice_driven:
  "st_open (drive twice_server 8 demo_dispatched)" "length (st_tasks (drive twice_server 8 demo_dispatched)) = 1"
  "t_phase (st_tasks (drive twice_server 8 demo_dispatched) ! 0) = Over" "t_msg (st_tasks (drive twice_server 8 demo_dispatched) ! 0) = demo_wire"
  by (simp_all add: numeral_eq_Suc demo_stream_defs Let_def)

theorem stream_lock_discipline_witness:
  "st_locked demo_dispatched \<and> t_guard (st_tasks demo_dispatched ! 0) \<and> map t_msg (st_tasks demo_dispatched) = st_arrived demo_dispatched"
  using stream_lock_discipline [OF demo_dispatched_steps [of echo_server]] by (simp add: demo_dispatched_def stream_new_def)

theorem task_outputs_witness:
  "outcome echo_server demo_entries None demo_wire (sent_by 0 (drive echo_server 4 demo_dispatched))"
  using task_outputs [OF driven_steps [of echo_server 4], of 0] echo_driven by simp

theorem stream_drains_witness:
  "\<exists>s'. stream_steps echo_server demo_entries None demo_dispatched s' \<and> map t_msg (st_tasks s') = [demo_wire]
     \<and> (\<forall>t < length (st_tasks s'). t_phase (st_tasks s' ! t) = Over)"
proof -
  have "st_reader demo_dispatched \<noteq> Stopped" "st_arrived demo_dispatched = [demo_wire]" by (simp_all add: demo_dispatched_def stream_new_def)
  with stream_drains [OF demo_dispatched_steps [of echo_server]] show ?thesis by metis
qed

lemma demo_codes: "codes_ok nat" by (simp add: codes_ok_def)

lemma demo_wire_built: "demo_wire = build_wire_message 7 (mh_path demo_method) (encode_payload demo_method [4]) (metadata_map [(''k'', ''v''), (''k'', ''w'')])"
  by (simp add: demo_wire_def demo_method_def encode_payload_def)

theorem unary_round_trip_witness:
  "map (\<lambda>reply. decode_reply demo_method (receive_result nat reply)) (sent_by 0 (drive echo_server 4 demo_dispatched)) = [Inr [4]]
     \<and> metadata_get (task_ctx demo_entries demo_wire) ''k'' = Some ''w''"
proof -
  have "0 < length (st_tasks (drive echo_server 4 demo_dispatched))" by (simp add: echo_driven)
  moreover have "map_of (sv_handlers echo_server) (mh_path demo_method) = Some (erased_handler (\<lambda>bs. Inr bs) (\<lambda>bs. bs) (\<lambda>ctx bs. Ready (Inr (Some bs))))"
    "sv_interceptors echo_server = []"
    by (simp_all add: echo_server_def demo_method_def register_handler_def server_new_def HEALTH_METHOD_def)
  ultimately show ?thesis
    using unary_round_trip [OF driven_steps [of echo_server 4] echo_driven(1) _ echo_driven(3,4) demo_wire_built _ _ _ _ demo_entries_ok demo_codes,
        where dec = "\<lambda>bs. Inr bs" and enc = "\<lambda>bs. bs" and h = "\<lambda>ctx bs. Ready (Inr (Some bs))" and r = "Inr (Some [4])"]
    by (simp add: demo_method_def)
qed

theorem streaming_round_trip_witness:
  "let rt' = fold (receive_msg nat) (sent_by 0 (drive twice_server 8 demo_dispatched)) (snd (register_stream 7 router_new)) in
    map (decode_reply demo_method) (st_queue (rt_streams rt' 0)) = [Inr [4], Inr [4, 4], Inl (Transport (TonicStatus 5 ''end''))]
    \<and> \<not> st_tx_live (rt_streams rt' 0) \<and> map_of (rt_inner rt') 7 = None"
proof -
  let ?h = "\<lambda>(ctx :: server_ctx) bs. Release_then (Send_then bs (\<lambda>_. Send_then (bs @ bs) (\<lambda>_. Ready (Inl (TonicStatus 5 ''end'')))))"
  have "0 < length (st_tasks (drive twice_server 8 demo_dispatched))" by (simp add: twice_driven)
  moreover have "map_of (sv_handlers twice_server) (mh_path demo_method) = Some (erased_streaming (\<lambda>bs. Inr bs) (\<lambda>bs. bs) ?h)"
    "sv_interceptors twice_server = []"
    by (simp_all add: twice_server_def demo_method_def register_handler_def register_streaming_handler_def server_new_def HEALTH_METHOD_def)
  moreover have "map_of (rt_inner (snd (register_stream 7 router_new))) 7 = Some (Stream 0)"
    "rt_streams (snd (register_stream 7 router_new)) 0 = \<lparr>st_queue = [], st_tx_live = True, st_rx_live = True\<rparr>"
    by (simp_all add: register_stream_def insert_call_def router_new_def)
  ultimately show ?thesis
    using streaming_round_trip [OF driven_steps [of twice_server 8] twice_driven(1) _ twice_driven(3,4) demo_wire_built _ _ _ _ demo_codes,
        where dec = "\<lambda>bs. Inr bs" and enc = "\<lambda>bs. bs" and h = ?h and r = "Inl (TonicStatus 5 ''end'')" and rs = "[[4], [4, 4]]"
        and q = 0 and rt = "snd (register_stream 7 router_new)"]
    by (simp add: demo_method_def)
qed

end
