(* ===== verification/Health_Probe.thy ===== *)
theory Health_Probe
  imports Health Server
begin

text \<open>
  One probe of \<^verbatim>\<open>src/health.rs\<close>, end to end: \<^verbatim>\<open>rpc_call\<close> with the built-in method under a timeout, the handler
  that \<^verbatim>\<open>Server::new\<close> registers for it, and the status the checker publishes.
\<close>

section \<open>The probe\<close>

definition HealthMethod :: "(unit \<Rightarrow> u8 list) \<Rightarrow> (u8 list \<Rightarrow> string + bool) \<Rightarrow> (unit, bool) method_handle" where
  "HealthMethod enc dec = \<lparr>mh_path = HEALTH_METHOD, mh_enc = enc, mh_dec = dec\<rparr>"

text \<open>The request, on a fresh context of the node, and what is queued on the node's channel.\<close>

definition probe_send :: "(unit, bool) method_handle \<Rightarrow> node \<Rightarrow> chans \<Rightarrow> (error + nat option) option \<times> chans" where
  "probe_send m nd chs = (case rpc_call_send (node_context False nd :: (bool, unit interceptor) node_context) () m ((), chs) of
     (r, _, chs') \<Rightarrow> (r, chs'))"

text \<open>The timeout, over what \<^verbatim>\<open>rpc_call\<close> finds until it elapses; \<open>None\<close> is a panic.\<close>

definition probe_await :: "(unit, bool) method_handle \<Rightarrow> reply oneshot list \<Rightarrow> bool probe_result option" where
  "probe_await m rxs = (case rpc_call_await m (map (Pair False) rxs) of
     Finished r \<Rightarrow> Some (Inr r) | Waiting \<Rightarrow> Some (Inl ()) | Panicked \<Rightarrow> None)"

lemma probe_await_open: "probe_await m (replicate k Open @ rxs) = probe_await m rxs"
  by (induction k) (simp_all add: probe_await_def)

section \<open>The handler\<close>

text \<open>A server answers health probes: its built-in handler is registered and its interceptors let the call pass.\<close>

definition answers_probes :: "(u8 list \<Rightarrow> string + unit) \<Rightarrow> (bool \<Rightarrow> u8 list) \<Rightarrow> string option \<Rightarrow> 's server \<Rightarrow> bool" where
  "answers_probes dec enc peer sv \<longleftrightarrow> map_of (sv_handlers sv) HEALTH_METHOD = Some (erased_handler dec enc (\<lambda>ctx req. Ready (Inr (Some True))))
     \<and> (\<forall>i. fst (run_server (sv_interceptors sv) \<lparr>sci_method = HEALTH_METHOD, sci_peer_addr = peer\<rparr> i) = Inr ())"

text \<open>\<^verbatim>\<open>Server::new\<close> gives such a server, and registering other methods keeps it.\<close>

lemma answers_new: "answers_probes dec enc peer (server_new dec enc)"
  by (simp add: answers_probes_def server_new_def register_handler_def)

lemma answers_register:
  assumes "answers_probes dec enc peer sv" "path \<noteq> HEALTH_METHOD"
  shows "answers_probes dec enc peer (register_handler path d e h sv)"
    and "answers_probes dec enc peer (register_streaming_handler path d e h' sv)"
  using assms by (auto simp: answers_probes_def register_handler_def register_streaming_handler_def lookup_hm_insert)

lemma run_server_append: "run_server (is @ js) info s = (case run_server is info s of (Inl st, s') \<Rightarrow> (Inl st, s') | (Inr _, s') \<Rightarrow> run_server js info s')"
  by (induction "is" arbitrary: s) (auto split: prod.splits sum.splits)

lemma answers_interceptor:
  assumes "answers_probes dec enc peer sv" "\<And>s. fst (f \<lparr>sci_method = HEALTH_METHOD, sci_peer_addr = peer\<rparr> s) = Inr ()"
  shows "answers_probes dec enc peer (sv_with_interceptor f sv)"
proof -
  let ?info = "\<lparr>sci_method = HEALTH_METHOD, sci_peer_addr = peer\<rparr>"
  have "fst (run_server (sv_interceptors sv @ [f]) ?info s) = Inr ()" for s
  proof -
    obtain s' where "run_server (sv_interceptors sv) ?info s = (Inr (), s')"
      using assms(1) unfolding answers_probes_def by (metis prod.collapse)
    moreover obtain s'' where "f ?info s' = (Inr (), s'')" using assms(2) by (metis prod.collapse)
    ultimately show ?thesis by (simp add: run_server_append)
  qed
  with assms(1) show ?thesis by (simp add: answers_probes_def sv_with_interceptor_def)
qed

lemma probe_outcome:
  assumes "answers_probes dec enc peer sv" "outcome sv entries peer wire sent" "msg_method wire = HEALTH_METHOD" "dec (msg_payload wire) = Inr ()"
  shows "sent = [ok_message (msg_seq_no wire) HEALTH_METHOD (enc True)]"
proof -
  have pass: "fst (run_server (sv_interceptors sv) \<lparr>sci_method = HEALTH_METHOD, sci_peer_addr = peer\<rparr> i) = Inr ()" for i
    using assms(1) by (simp add: answers_probes_def)
  have "sent = wire_trace (erased_handler dec enc (\<lambda>ctx req. Ready (Inr (Some True))) (task_ctx entries wire) wire)"
    using assms(1-3) pass unfolding outcome_def answers_probes_def by (metis Inl_Inr_False fst_conv option.simps(5))
  then show ?thesis using assms(3,4) by (simp add: erased_handler_def)
qed

section \<open>Properties\<close>

text \<open>
  C32. A probe of a live server reports \<^verbatim>\<open>Healthy\<close>. The request queued by the probe carries the built-in
  method; when a server with the built-in handler has handled it, it has sent one message, the client
  makes a successful reply of it, and if that arrives before the timeout the checker's status is
  \<^verbatim>\<open>Healthy\<close>. If nothing arrives in time, it is \<^verbatim>\<open>Unhealthy\<close>.
\<close>

theorem probe_round_trip:
  assumes send: "probe_send (HealthMethod cenc cdec) nd chs = (Some (Inr rt), chs')" and wire: "wire = last (ch_accepted (chs' (nchan nd)))"
    and run: "stream_steps sv entries peer (stream_new i) s" "st_open s" "t < length (st_tasks s)" "t_phase (st_tasks s ! t) = Over" "t_msg (st_tasks s ! t) = wire"
    and sv: "answers_probes sdec senc peer sv" and codec: "sdec (cenc ()) = Inr ()" "cdec (senc True) = Inr True"
  shows "\<exists>reply. sent_by t s = [reply] \<and> msg_seq_no reply = msg_seq_no wire
    \<and> probe_await (HealthMethod cenc cdec) (replicate k Open @ [Sent (receive_result codes reply)]) = Some (Inr (Inr True))
    \<and> probe_await (HealthMethod cenc cdec) (replicate k Open) = Some (Inl ())
    \<and> (0 < hk_receivers h \<longrightarrow> checker_status (probe_done (Inr (Inr True)) h) = Healthy \<and> checker_status (probe_done (Inl ()) h) = Unhealthy)"
proof -
  obtain seq where w: "wire = build_wire_message seq HEALTH_METHOD (cenc ()) (metadata_map [])"
    using send unfolding wire
    by (auto simp: probe_send_def rpc_call_send_def HealthMethod_def node_context_def dispatch_def submit_def enqueue_def encode_payload_def
        Let_def oneshot_channel_def split: prod.splits option.splits sum.splits if_splits)
  have "outcome sv entries peer wire (sent_by t s)"
    using out_inv_steps [OF run(1)] run(2-5) unfolding out_inv_def task_ok_def by fastforce
  then have sent: "sent_by t s = [ok_message seq HEALTH_METHOD (senc True)]"
    using probe_outcome [OF sv, of entries wire "sent_by t s"] codec(1) by (simp add: w build_wire_message_def)
  have "probe_await (HealthMethod cenc cdec) (replicate k Open @ [Sent (receive_result codes (ok_message seq HEALTH_METHOD (senc True)))]) = Some (Inr (Inr True))"
    "probe_await (HealthMethod cenc cdec) (replicate k Open @ []) = Some (Inl ())"
    unfolding probe_await_open using codec(2)
    by (simp_all add: probe_await_def receive_ok decode_reply_def decode_payload_def HealthMethod_def) (simp add: ok_message_def)
  moreover have "checker_status (probe_done r h) = new_status r" if "0 < hk_receivers h" for r
    using that by (simp add: checker_status_def probe_done_def Let_def)
  ultimately show ?thesis
    using sent by (intro exI [of _ "ok_message seq HEALTH_METHOD (senc True)"]) (simp add: w build_wire_message_def, simp add: ok_message_def)
qed

text \<open>A node of the connected client probes a fresh server over a new stream.\<close>

definition demo_node :: node where
  "demo_node = \<lparr>nid = 1, naddr = ''a'', nchan = 0\<rparr>"

definition demo_health :: "(unit, bool) method_handle" where
  "demo_health = HealthMethod (\<lambda>_. []) (\<lambda>bs. Inr (bs = [1]))"

definition demo_probe :: "(error + nat option) option \<times> chans" where
  "demo_probe = probe_send demo_health demo_node (\<lambda>_. connect router_new)"

definition demo_request :: message where
  "demo_request = build_wire_message 1 HEALTH_METHOD [] (metadata_map [])"

lemma demo_probe_sent: "fst demo_probe = Some (Inr (Some 0))" "last (ch_accepted (snd demo_probe 0)) = demo_request"
  by (simp_all add: demo_probe_def probe_send_def rpc_call_send_def demo_health_def HealthMethod_def demo_node_def node_context_def dispatch_def
      next_seq_def checked_inc_def submit_def enqueue_def encode_payload_def connect_def router_new_def task_alive_def oneshot_channel_def
      Let_def demo_request_def)

definition demo_server :: "unit server" where
  "demo_server = server_new (\<lambda>_. Inr ()) (\<lambda>b. if b then [1] else [])"

definition demo_arrived :: "unit stream" where
  "demo_arrived = (stream_new ())\<lparr>st_arrived := [demo_request], st_locked := True,
     st_tasks := [\<lparr>t_msg = demo_request, t_guard = True, t_phase = Intercepting\<rparr>]\<rparr>"

lemma demo_arrived_steps: "stream_steps sv entries peer (stream_new ()) demo_arrived"
proof -
  let ?s0 = "stream_new ()"
  let ?s1 = "?s0\<lparr>st_arrived := [demo_request], st_inbound := [demo_request]\<rparr>"
  let ?s2 = "?s1\<lparr>st_reader := Reading, st_locked := True\<rparr>"
  have "stream_step sv entries peer ?s0 ?s1" using arrive [of sv entries peer ?s0 demo_request] by (simp add: stream_new_def)
  moreover have "stream_step sv entries peer ?s1 ?s2" by (rule lock) (simp_all add: stream_new_def)
  moreover have "stream_step sv entries peer ?s2 demo_arrived"
    using read [of ?s2 demo_request "[]" sv entries peer] by (simp add: demo_arrived_def stream_new_def)
  ultimately show ?thesis by (meson converse_rtranclp_into_rtranclp rtranclp.rtrancl_refl)
qed

lemma demo_served:
  "st_open (drive demo_server 4 demo_arrived)" "length (st_tasks (drive demo_server 4 demo_arrived)) = 1"
  "t_phase (st_tasks (drive demo_server 4 demo_arrived) ! 0) = Over" "t_msg (st_tasks (drive demo_server 4 demo_arrived) ! 0) = demo_request"
  by (simp_all add: numeral_eq_Suc demo_server_def demo_arrived_def demo_request_def demo_stream_defs Let_def)

theorem probe_round_trip_witness:
  "\<exists>reply. sent_by 0 (drive demo_server 4 demo_arrived) = [reply]
    \<and> probe_await demo_health [Open, Sent (receive_result nat reply)] = Some (Inr (Inr True))
    \<and> checker_status (probe_done (Inr (Inr True)) check_node) = Healthy"
proof -
  have "stream_steps demo_server demo_entries None (stream_new ()) (drive demo_server 4 demo_arrived)"
    using demo_arrived_steps by (rule rtranclp_trans) (rule drive_steps, simp add: demo_arrived_def)
  moreover have "probe_send demo_health demo_node (\<lambda>_. connect router_new) = (Some (Inr (Some 0)), snd demo_probe)"
    using demo_probe_sent(1) by (metis demo_probe_def prod.collapse)
  moreover have "demo_request = last (ch_accepted (snd demo_probe (nchan demo_node)))"
    using demo_probe_sent(2) by (simp add: demo_node_def)
  ultimately show ?thesis
    using probe_round_trip [where k = 1 and h = check_node and codes = nat and cenc = "\<lambda>_. []" and cdec = "\<lambda>bs. Inr (bs = [1])"
        and sdec = "\<lambda>_. Inr ()" and senc = "\<lambda>b. if b then [1] else []" and sv = demo_server and t = 0, folded demo_health_def]
      demo_served answers_new [of "\<lambda>_. Inr ()" "\<lambda>b. if b then [1] else []" None]
    by (fastforce simp: demo_server_def check_node_def)
qed

end
