(* ===== verification/Codegen.thy ===== *)
theory Codegen
  imports Quorums_Prelude
begin

text \<open>
  The build-time code generator, \<open>quorums-build/src/lib.rs\<close> and
  \<open>quorums-build/src/codegen.rs\<close>.

  A builder maps method paths to call types; prost-build parses the proto files and calls
  \<open>generate\<close> once per service with a description of it and the text generated so far.  The
  service description is the part of \<open>prost_build::Service\<close> and \<open>prost_build::Method\<close> that the
  generator reads.  Text is a list of bytes, a \<open>&mut String\<close> argument is threaded through
  the emitters, and \<open>writelns\<close> stands for a run of \<open>writeln!\<close> calls; its format strings
  are spelled out with the doubled braces resolved.

  Two small readers of the generated text, \<open>registered\<close> and \<open>implements\<close> with
  \<open>const_paths\<close>, say what the text declares: which paths the server side registers and how,
  and which call traits the client handles implement and for which path.  The properties say
  that these agree with the annotations, so that a generated client and a generated server
  speak about the same methods.
\<close>

section \<open>The builder\<close>

datatype CallType = RpcCall | Unicast | Multicast | QuorumCall | OrderedQuorumCall | Correctable

record builder =
  b_methods :: "(string, CallType) map"

definition configure :: builder where
  "configure = \<lparr>b_methods = Map.empty\<rparr>"

definition builder_method :: "string \<Rightarrow> CallType \<Rightarrow> builder \<Rightarrow> builder" where
  "builder_method path call_type b = b\<lparr>b_methods := (b_methods b)(path \<mapsto> call_type)\<rparr>"

section \<open>The service description\<close>

record proto_method =
  pm_name :: string
  pm_proto_name :: string
  pm_input_type :: string
  pm_output_type :: string

record service =
  sv_name :: string
  sv_proto_name :: string
  sv_package :: string
  sv_methods :: "proto_method list"

section \<open>Text\<close>

abbreviation newline :: char where
  "newline \<equiv> CHR 0x0A"

fun writelns :: "string \<Rightarrow> string list \<Rightarrow> string" where
  "writelns out [] = out"
| "writelns out (l # ls) = writelns (out @ l @ [newline]) ls"

definition is_uppercase :: "char \<Rightarrow> bool" where
  "is_uppercase ch \<longleftrightarrow> 65 \<le> (of_char ch :: nat) \<and> (of_char ch :: nat) \<le> 90"

definition to_ascii_lowercase :: "char \<Rightarrow> char" where
  "to_ascii_lowercase ch = (if is_uppercase ch then char_of ((of_char ch :: nat) + 32) else ch)"

fun snake_loop :: "nat \<Rightarrow> string \<Rightarrow> string \<Rightarrow> string" where
  "snake_loop i result [] = result"
| "snake_loop i result (ch # s) =
    (let result = (if is_uppercase ch \<and> i > 0 then result @ [CHR ''_''] else result);
         result = result @ [to_ascii_lowercase ch]
     in snake_loop (Suc i) result s)"

definition to_snake_case :: "string \<Rightarrow> string" where
  "to_snake_case s = snake_loop 0 [] s"

section \<open>Method handles\<close>

definition const_path_line :: "string \<Rightarrow> string" where
  \<open>const_path_line path = ''    const PATH: &'static str = "'' @ path @ ''";''\<close>

definition emit_rpc_call_impl :: "string \<Rightarrow> string \<Rightarrow> string \<Rightarrow> string \<Rightarrow> string \<Rightarrow> string" where
  "emit_rpc_call_impl out handle req resp path = writelns out
    [''impl ::quorums::RpcCallMethod for '' @ handle @ '' {'',
     ''    type Req = '' @ req @ '';'',
     ''    type Resp = '' @ resp @ '';'',
     const_path_line path,
     ''}'']"

definition emit_unicast_impl :: "string \<Rightarrow> string \<Rightarrow> string \<Rightarrow> string \<Rightarrow> string" where
  "emit_unicast_impl out handle req path = writelns out
    [''impl ::quorums::UnicastMethod for '' @ handle @ '' {'',
     ''    type Req = '' @ req @ '';'',
     const_path_line path,
     ''}'']"

definition emit_multicast_impl :: "string \<Rightarrow> string \<Rightarrow> string \<Rightarrow> string \<Rightarrow> string" where
  "emit_multicast_impl out handle req path = writelns out
    [''impl ::quorums::MulticastMethod for '' @ handle @ '' {'',
     ''    type Req = '' @ req @ '';'',
     const_path_line path,
     ''}'']"

definition emit_qc_impl :: "string \<Rightarrow> string \<Rightarrow> string \<Rightarrow> string \<Rightarrow> string \<Rightarrow> string" where
  "emit_qc_impl out handle req resp path = writelns out
    [''impl ::quorums::QuorumCallMethod for '' @ handle @ '' {'',
     ''    type Req = '' @ req @ '';'',
     ''    type Resp = '' @ resp @ '';'',
     const_path_line path,
     ''}'']"

definition emit_oqc_impl :: "string \<Rightarrow> string \<Rightarrow> string \<Rightarrow> string \<Rightarrow> string \<Rightarrow> string" where
  "emit_oqc_impl out handle req resp path = writelns out
    [''impl ::quorums::OrderedQuorumCallMethod for '' @ handle @ '' {'',
     ''    type Req = '' @ req @ '';'',
     ''    type Resp = '' @ resp @ '';'',
     const_path_line path,
     ''}'']"

definition emit_correctable_impl :: "string \<Rightarrow> string \<Rightarrow> string \<Rightarrow> string \<Rightarrow> string \<Rightarrow> string" where
  "emit_correctable_impl out handle req resp path = writelns out
    [''impl ::quorums::CorrectableMethod for '' @ handle @ '' {'',
     ''    type Req = '' @ req @ '';'',
     ''    type Resp = '' @ resp @ '';'',
     const_path_line path,
     ''}'']"

definition emit_handle :: "string \<Rightarrow> string \<Rightarrow> CallType \<Rightarrow> string \<Rightarrow> string \<Rightarrow> string \<Rightarrow> string" where
  "emit_handle out handle_name call_type req_ty resp_ty path =
    (let out = writelns out
           [''/// Typed method handle for `'' @ path @ ''`.'',
            ''#[derive(Clone, Copy)]'',
            ''pub struct '' @ handle_name @ '';'']
     in case call_type of
          RpcCall \<Rightarrow> emit_rpc_call_impl out handle_name req_ty resp_ty path
        | Unicast \<Rightarrow> emit_unicast_impl out handle_name req_ty path
        | Multicast \<Rightarrow>
            let out = emit_multicast_impl out handle_name req_ty path
            in emit_unicast_impl out handle_name req_ty path
        | QuorumCall \<Rightarrow>
            let out = emit_qc_impl out handle_name req_ty resp_ty path;
                out = emit_oqc_impl out handle_name req_ty resp_ty path
            in emit_rpc_call_impl out handle_name req_ty resp_ty path
        | OrderedQuorumCall \<Rightarrow>
            let out = emit_oqc_impl out handle_name req_ty resp_ty path;
                out = emit_qc_impl out handle_name req_ty resp_ty path
            in emit_rpc_call_impl out handle_name req_ty resp_ty path
        | Correctable \<Rightarrow> emit_correctable_impl out handle_name req_ty resp_ty path)"

section \<open>Client functions\<close>

definition client_fn_rpc :: "string \<Rightarrow> string \<Rightarrow> string \<Rightarrow> string \<Rightarrow> string \<Rightarrow> string" where
  "client_fn_rpc out fn_name req_ty resp_ty handle = writelns out
    [''    pub async fn '' @ fn_name @ ''(ctx: &::quorums::node::NodeContext, req: &'' @ req_ty @ '')'',
     ''        -> ::core::result::Result<'' @ resp_ty @ '', ::quorums::Error>'',
     ''    {'',
     ''        ::quorums::call_types::rpc_call(ctx, req, super::'' @ handle @ '').await'',
     ''    }'']"

definition client_fn_unicast :: "string \<Rightarrow> string \<Rightarrow> string \<Rightarrow> string \<Rightarrow> string" where
  "client_fn_unicast out fn_name req_ty handle = writelns out
    [''    pub async fn '' @ fn_name @ ''(ctx: &::quorums::node::NodeContext, req: &'' @ req_ty @ '')'',
     ''        -> ::core::result::Result<(), ::quorums::Error>'',
     ''    {'',
     ''        ::quorums::call_types::unicast(ctx, req, super::'' @ handle @ '').await'',
     ''    }'']"

definition client_fn_multicast :: "string \<Rightarrow> string \<Rightarrow> string \<Rightarrow> string \<Rightarrow> string" where
  "client_fn_multicast out fn_name req_ty handle = writelns out
    [''    pub async fn '' @ fn_name @ ''(ctx: &::quorums::config::ConfigContext, req: &'' @ req_ty @ '')'',
     ''        -> ::core::result::Result<(), ::quorums::Error>'',
     ''    {'',
     ''        ::quorums::call_types::multicast(ctx, req, super::'' @ handle @ '').await'',
     ''    }'']"

definition client_fn_qc :: "string \<Rightarrow> string \<Rightarrow> string \<Rightarrow> string \<Rightarrow> string \<Rightarrow> string" where
  "client_fn_qc out fn_name req_ty resp_ty handle = writelns out
    [''    pub async fn '' @ fn_name @ ''(ctx: &::quorums::config::ConfigContext, req: &'' @ req_ty @ '')'',
     ''        -> ::core::result::Result<::quorums::Responses<'' @ resp_ty @ ''>, ::quorums::Error>'',
     ''    {'',
     ''        ::quorums::call_types::quorum_call(ctx, req, super::'' @ handle @ '').await'',
     ''    }'']"

definition client_fn_oqc :: "string \<Rightarrow> string \<Rightarrow> string \<Rightarrow> string \<Rightarrow> string \<Rightarrow> string" where
  "client_fn_oqc out fn_name req_ty resp_ty handle = writelns out
    [''    pub async fn '' @ fn_name @ ''(ctx: &::quorums::config::ConfigContext, req: &'' @ req_ty @ '')'',
     ''        -> ::core::result::Result<::quorums::OrderedResponses<'' @ resp_ty @ ''>, ::quorums::Error>'',
     ''    {'',
     ''        ::quorums::call_types::ordered_quorum_call(ctx, req, super::'' @ handle @ '').await'',
     ''    }'']"

definition client_fn_correctable :: "string \<Rightarrow> string \<Rightarrow> string \<Rightarrow> string \<Rightarrow> string \<Rightarrow> string" where
  "client_fn_correctable out fn_name req_ty resp_ty handle = writelns out
    [''    pub async fn '' @ fn_name @ ''(ctx: &::quorums::config::ConfigContext, req: &'' @ req_ty @ '')'',
     ''        -> ::core::result::Result<::quorums::Correctable<'' @ resp_ty @ ''>, ::quorums::Error>'',
     ''    {'',
     ''        ::quorums::call_types::correctable_call(ctx, req, super::'' @ handle @ '').await'',
     ''    }'']"

section \<open>Server trait functions and registration\<close>

definition server_trait_fn_twoway :: "string \<Rightarrow> string \<Rightarrow> string \<Rightarrow> string \<Rightarrow> string" where
  "server_trait_fn_twoway out fn_name req_ty resp_ty = writelns out
    [''        fn '' @ fn_name @ ''(&self, ctx: ::quorums::server::ServerCtx, req: '' @ req_ty @ '')'',
     ''            -> impl ::std::future::Future<Output = ::core::result::Result<'' @
       ''::core::option::Option<'' @ resp_ty @ ''>, ::tonic::Status>> + Send;'']"

definition server_trait_fn_oneway :: "string \<Rightarrow> string \<Rightarrow> string \<Rightarrow> string" where
  "server_trait_fn_oneway out fn_name req_ty = writelns out
    [''        fn '' @ fn_name @ ''(&self, ctx: ::quorums::server::ServerCtx, req: '' @ req_ty @ '')'',
     ''            -> impl ::std::future::Future<Output = ::core::result::Result<'' @
       ''::core::option::Option<()>, ::tonic::Status>> + Send;'']"

definition server_trait_fn_correctable :: "string \<Rightarrow> string \<Rightarrow> string \<Rightarrow> string" where
  "server_trait_fn_correctable out fn_name req_ty = writelns out
    [''        fn '' @ fn_name @ ''(&self, ctx: ::quorums::server::ServerCtx, req: '' @ req_ty @ '')'',
     ''            -> impl ::std::future::Future<Output = ::core::result::Result<'' @
       ''(), ::tonic::Status>> + Send;'']"

definition emit_register_handler :: "string \<Rightarrow> string \<Rightarrow> string \<Rightarrow> string \<Rightarrow> bool \<Rightarrow> string" where
  \<open>emit_register_handler out path fn_name req_bare streaming =
    (let register_fn = (if streaming then ''register_streaming_handler'' else ''register_handler'')
     in writelns out
          [''        {'',
           ''            let s = ::std::sync::Arc::clone(&svc);'',
           ''            server.'' @ register_fn @ ''("'' @ path @ ''", move |ctx, req: super::'' @ req_bare @ ''| {'',
           ''                let s = ::std::sync::Arc::clone(&s);'',
           ''                async move { s.'' @ fn_name @ ''(ctx, req).await }'',
           ''            });'',
           ''        }''])\<close>

section \<open>The generator\<close>

record sections =
  se_handles :: string
  se_client_fns :: string
  se_server_trait_fns :: string
  se_register_calls :: string
  se_any_annotated :: bool

definition full_path :: "service \<Rightarrow> proto_method \<Rightarrow> string" where
  "full_path service method =
    ''/'' @ sv_package service @ ''.'' @ sv_proto_name service @ ''/'' @ pm_proto_name method"

definition generate_method ::
  "(string, CallType) map \<Rightarrow> service \<Rightarrow> proto_method \<Rightarrow> string \<times> sections \<Rightarrow> string \<times> sections" where
  "generate_method methods service method st =
    (let (buf, se) = st; path = full_path service method in
     case methods path of
       None \<Rightarrow>
         (writelns buf [''// [quorums] no annotation for '' @ path @ '' '' @
            [CHR 0xE2, CHR 0x80, CHR 0x94] @ '' skipped''], se)
     | Some call_type \<Rightarrow>
         let fn_name = pm_name method;
             req_ty = ''super::'' @ pm_input_type method;
             resp_ty = ''super::'' @ pm_output_type method;
             req_bare = pm_input_type method;
             resp_bare = pm_output_type method;
             handle_name = sv_name service @ pm_proto_name method @ ''Method'';
             handles = emit_handle (se_handles se) handle_name call_type req_bare resp_bare path;
             client_fns = se_client_fns se;
             trait_fns = se_server_trait_fns se;
             calls = se_register_calls se;
             (client_fns, trait_fns, calls) =
               (case call_type of
                  RpcCall \<Rightarrow>
                    (client_fn_rpc client_fns fn_name req_ty resp_ty handle_name,
                     server_trait_fn_twoway trait_fns fn_name req_ty resp_ty,
                     emit_register_handler calls path fn_name req_bare False)
                | Unicast \<Rightarrow>
                    (client_fn_unicast client_fns fn_name req_ty handle_name,
                     server_trait_fn_oneway trait_fns fn_name req_ty,
                     emit_register_handler calls path fn_name req_bare False)
                | Multicast \<Rightarrow>
                    (client_fn_multicast client_fns fn_name req_ty handle_name,
                     server_trait_fn_oneway trait_fns fn_name req_ty,
                     emit_register_handler calls path fn_name req_bare False)
                | QuorumCall \<Rightarrow>
                    (client_fn_qc client_fns fn_name req_ty resp_ty handle_name,
                     server_trait_fn_twoway trait_fns fn_name req_ty resp_ty,
                     emit_register_handler calls path fn_name req_bare False)
                | OrderedQuorumCall \<Rightarrow>
                    (client_fn_oqc client_fns fn_name req_ty resp_ty handle_name,
                     server_trait_fn_twoway trait_fns fn_name req_ty resp_ty,
                     emit_register_handler calls path fn_name req_bare False)
                | Correctable \<Rightarrow>
                    (client_fn_correctable client_fns fn_name req_ty resp_ty handle_name,
                     server_trait_fn_correctable trait_fns fn_name req_ty,
                     emit_register_handler calls path fn_name req_bare True))
         in (buf, \<lparr>se_handles = handles, se_client_fns = client_fns, se_server_trait_fns = trait_fns,
                   se_register_calls = calls, se_any_annotated = True\<rparr>))"

definition generate :: "(string, CallType) map \<Rightarrow> service \<Rightarrow> string \<Rightarrow> string" where
  "generate methods service buf =
    (let svc_name = sv_name service;
         module_base = to_snake_case svc_name;
         client_mod = module_base @ ''_client'';
         server_mod = module_base @ ''_server'';
         (buf, se) = fold (generate_method methods service) (sv_methods service)
           (buf, \<lparr>se_handles = [], se_client_fns = [], se_server_trait_fns = [],
                  se_register_calls = [], se_any_annotated = False\<rparr>)
     in if \<not> se_any_annotated se then buf
        else
          let buf = writelns (buf @ se_handles se) [''''];
              buf = writelns buf
                [''pub mod '' @ client_mod @ '' {'',
                 ''    //! Generated gorums client for `'' @ svc_name @ ''`.''];
              buf = writelns (buf @ se_client_fns se) [''}'', ''''];
              buf = writelns buf
                [''pub mod '' @ server_mod @ '' {'',
                 ''    //! Generated gorums server trait for `'' @ svc_name @ ''`.'',
                 ''    pub trait '' @ svc_name @ ''Server: ::core::marker::Send + ::core::marker::Sync + 'static {''];
              buf = writelns (buf @ se_server_trait_fns se)
                [''    }'',
                 '''',
                 ''    pub fn register_'' @ module_base @ ''<S: '' @ svc_name @ ''Server>('',
                 ''        server: &mut ::quorums::server::Server,'',
                 ''        svc: ::std::sync::Arc<S>,'',
                 ''    ) {'']
          in writelns (buf @ se_register_calls se) [''    }'', ''}''])"

definition compile ::
  "((service \<Rightarrow> string \<Rightarrow> string) \<Rightarrow> string list \<Rightarrow> string list \<Rightarrow> 'e + 'a) \<Rightarrow>
   builder \<Rightarrow> string list \<Rightarrow> string list \<Rightarrow> 'e + unit" where
  "compile compile_protos b protos includes =
    (case compile_protos (generate (b_methods b)) protos includes of
       Inl e \<Rightarrow> Inl e
     | Inr _ \<Rightarrow> Inr ())"

section \<open>Reading generated text\<close>

fun split_lines :: "string \<Rightarrow> string list" where
  "split_lines [] = []"
| "split_lines (c # s) =
    (if c = newline then [] # split_lines s
     else case split_lines s of [] \<Rightarrow> [[c]] | l # ls \<Rightarrow> (c # l) # ls)"

definition read_with :: "(string \<Rightarrow> 'a list) \<Rightarrow> string \<Rightarrow> 'a list" where
  "read_with f s = concat (map f (split_lines s))"

fun strip_prefix :: "string \<Rightarrow> string \<Rightarrow> string option" where
  "strip_prefix [] s = Some s"
| "strip_prefix (p # ps) [] = None"
| "strip_prefix (p # ps) (c # s) = (if p = c then strip_prefix ps s else None)"

definition quoted :: "string \<Rightarrow> string" where
  "quoted s = takeWhile (\<lambda>c. c \<noteq> CHR 0x22) s"

definition word_of :: "string \<Rightarrow> string" where
  "word_of s = takeWhile (\<lambda>c. c \<noteq> CHR '' '') s"

text \<open>A line that registers a handler: its path, and whether the handler is a streaming one.\<close>

definition registered_line :: "string \<Rightarrow> (string \<times> bool) list" where
  \<open>registered_line l =
    (case strip_prefix ''            server.register_handler("'' l of
       Some r \<Rightarrow> [(quoted r, False)]
     | None \<Rightarrow> (case strip_prefix ''            server.register_streaming_handler("'' l of
         Some r \<Rightarrow> [(quoted r, True)]
       | None \<Rightarrow> []))\<close>

text \<open>A line that opens an implementation of a method trait: the trait and the handle.\<close>

definition impl_line :: "string \<Rightarrow> (string \<times> string) list" where
  "impl_line l =
    (case strip_prefix ''impl ::quorums::'' l of
       Some r \<Rightarrow> [(word_of r, word_of (drop (length (word_of r) + 5) r))]
     | None \<Rightarrow> [])"

text \<open>A line that defines the path of a handle.\<close>

definition path_line :: "string \<Rightarrow> string list" where
  \<open>path_line l =
    (case strip_prefix ''    const PATH: &'static str = "'' l of Some r \<Rightarrow> [quoted r] | None \<Rightarrow> [])\<close>

definition registered :: "string \<Rightarrow> (string \<times> bool) list" where
  "registered = read_with registered_line"

definition implements :: "string \<Rightarrow> (string \<times> string) list" where
  "implements = read_with impl_line"

definition const_paths :: "string \<Rightarrow> string list" where
  "const_paths = read_with path_line"

section \<open>What the annotations ask for\<close>

definition annotated :: "(string, CallType) map \<Rightarrow> service \<Rightarrow> (proto_method \<times> CallType) list" where
  "annotated methods service =
    concat (map (\<lambda>m. case methods (full_path service m) of None \<Rightarrow> [] | Some ct \<Rightarrow> [(m, ct)])
      (sv_methods service))"

fun method_traits :: "CallType \<Rightarrow> string list" where
  "method_traits RpcCall = [''RpcCallMethod'']"
| "method_traits Unicast = [''UnicastMethod'']"
| "method_traits Multicast = [''MulticastMethod'', ''UnicastMethod'']"
| "method_traits QuorumCall = [''QuorumCallMethod'', ''OrderedQuorumCallMethod'', ''RpcCallMethod'']"
| "method_traits OrderedQuorumCall = [''OrderedQuorumCallMethod'', ''QuorumCallMethod'', ''RpcCallMethod'']"
| "method_traits Correctable = [''CorrectableMethod'']"

definition method_handle_name :: "service \<Rightarrow> proto_method \<Rightarrow> string" where
  "method_handle_name service m = sv_name service @ pm_proto_name m @ ''Method''"

definition clean :: "string \<Rightarrow> bool" where
  "clean s \<longleftrightarrow> newline \<notin> set s \<and> CHR 0x22 \<notin> set s \<and> CHR '' '' \<notin> set s"

definition clean_method :: "proto_method \<Rightarrow> bool" where
  "clean_method m \<longleftrightarrow> clean (pm_name m) \<and> clean (pm_proto_name m) \<and>
    clean (pm_input_type m) \<and> clean (pm_output_type m)"

definition clean_service :: "service \<Rightarrow> bool" where
  "clean_service s \<longleftrightarrow> clean (sv_name s) \<and> clean (sv_proto_name s) \<and> clean (sv_package s) \<and>
    list_all clean_method (sv_methods s)"

section \<open>Lemmas on text\<close>

definition complete_text :: "string \<Rightarrow> bool" where
  "complete_text s \<longleftrightarrow> s = [] \<or> last s = newline"

lemma complete_text_simps [simp]:
  "complete_text []" "complete_text [newline]"
  "complete_text (c # d # s) \<longleftrightarrow> complete_text (d # s)"
  by (auto simp: complete_text_def)

lemma complete_text_append:
  "complete_text b \<Longrightarrow> complete_text a \<Longrightarrow> complete_text (a @ b)"
  by (cases "b = []") (auto simp: complete_text_def)

lemma split_lines_append:
  "complete_text a \<Longrightarrow> split_lines (a @ b) = split_lines a @ split_lines b"
proof (induction a rule: split_lines.induct)
  case (2 c s)
  show ?case
  proof (cases "c = newline")
    case True
    have "complete_text s"
      using 2(3) by (cases s) auto
    then show ?thesis
      using 2(1) True by simp
  next
    case False
    then obtain d s' where s: "s = d # s'"
      using 2(3) by (cases s) (auto simp: complete_text_def)
    have "split_lines s \<noteq> []"
      unfolding s by (auto split: list.splits)
    moreover have "split_lines (s @ b) = split_lines s @ split_lines b"
      using 2(2,3) False s by simp
    ultimately show ?thesis
      using False by (cases "split_lines s") auto
  qed
qed simp

lemma read_with_append:
  "complete_text a \<Longrightarrow> read_with f (a @ b) = read_with f a @ read_with f b"
  by (simp add: read_with_def split_lines_append)

lemma split_lines_line [simp]:
  "newline \<notin> set l \<Longrightarrow> split_lines (l @ newline # r) = l # split_lines r"
  by (induction l) auto

definition unlines :: "string list \<Rightarrow> string" where
  "unlines ls = concat (map (\<lambda>l. l @ [newline]) ls)"

lemma writelns_unlines: "writelns out ls = out @ unlines ls"
  by (induction ls arbitrary: out) (auto simp: unlines_def)

lemma complete_unlines [simp]: "complete_text (unlines ls)"
  by (induction ls rule: rev_induct) (auto simp: complete_text_def unlines_def)

lemma read_unlines [simp]:
  "list_all (\<lambda>l. newline \<notin> set l) ls \<Longrightarrow> read_with f (unlines ls) = concat (map f ls)"
  by (induction ls) (auto simp: read_with_def unlines_def)

lemma read_unlines_append [simp]:
  "list_all (\<lambda>l. newline \<notin> set l) ls \<Longrightarrow>
    read_with f (unlines ls @ s) = concat (map f ls) @ read_with f s"
  by (simp add: read_with_append)

lemma takeWhile_upto:
  "x \<notin> set s \<Longrightarrow> takeWhile (\<lambda>c. c \<noteq> x) (s @ x # r) = s"
  by (induction s) auto

lemma quoted_simp [simp]: "CHR 0x22 \<notin> set s \<Longrightarrow> quoted (s @ CHR 0x22 # r) = s"
  unfolding quoted_def by (rule takeWhile_upto)

lemma word_of_simp [simp]: "CHR '' '' \<notin> set s \<Longrightarrow> word_of (s @ CHR '' '' # r) = s"
  unfolding word_of_def by (rule takeWhile_upto)

lemma clean_append [simp]: "clean (a @ b) \<longleftrightarrow> clean a \<and> clean b"
  by (auto simp: clean_def)

lemma cleanD:
  assumes "clean s"
  shows "newline \<notin> set s" "CHR 0x22 \<notin> set s" "CHR '' '' \<notin> set s"
  using assms by (simp_all add: clean_def)

section \<open>The text of one method\<close>

fun handle_text :: "service \<Rightarrow> proto_method \<times> CallType \<Rightarrow> string" where
  "handle_text service (m, ct) =
    emit_handle [] (method_handle_name service m) ct (pm_input_type m) (pm_output_type m)
      (full_path service m)"

fun client_text :: "service \<Rightarrow> proto_method \<times> CallType \<Rightarrow> string" where
  "client_text service (m, ct) =
    (let fn = pm_name m; req = ''super::'' @ pm_input_type m; resp = ''super::'' @ pm_output_type m;
         handle = method_handle_name service m
     in case ct of
          RpcCall \<Rightarrow> client_fn_rpc [] fn req resp handle
        | Unicast \<Rightarrow> client_fn_unicast [] fn req handle
        | Multicast \<Rightarrow> client_fn_multicast [] fn req handle
        | QuorumCall \<Rightarrow> client_fn_qc [] fn req resp handle
        | OrderedQuorumCall \<Rightarrow> client_fn_oqc [] fn req resp handle
        | Correctable \<Rightarrow> client_fn_correctable [] fn req resp handle)"

fun trait_text :: "proto_method \<times> CallType \<Rightarrow> string" where
  "trait_text (m, ct) =
    (let fn = pm_name m; req = ''super::'' @ pm_input_type m; resp = ''super::'' @ pm_output_type m
     in if ct \<in> {Unicast, Multicast} then server_trait_fn_oneway [] fn req
        else if ct = Correctable then server_trait_fn_correctable [] fn req
        else server_trait_fn_twoway [] fn req resp)"

fun register_text :: "service \<Rightarrow> proto_method \<times> CallType \<Rightarrow> string" where
  "register_text service (m, ct) =
    emit_register_handler [] (full_path service m) (pm_name m) (pm_input_type m) (ct = Correctable)"

definition skip_text :: "service \<Rightarrow> proto_method \<Rightarrow> string" where
  "skip_text service m =
    writelns [] [''// [quorums] no annotation for '' @ full_path service m @ '' '' @
      [CHR 0xE2, CHR 0x80, CHR 0x94] @ '' skipped'']"

lemmas emitter_defs =
  emit_rpc_call_impl_def emit_unicast_impl_def emit_multicast_impl_def emit_qc_impl_def
  emit_oqc_impl_def emit_correctable_impl_def client_fn_rpc_def client_fn_unicast_def
  client_fn_multicast_def client_fn_qc_def client_fn_oqc_def client_fn_correctable_def
  server_trait_fn_twoway_def server_trait_fn_oneway_def server_trait_fn_correctable_def
  emit_register_handler_def

lemma emit_handle_append: "emit_handle out h ct req resp path = out @ emit_handle [] h ct req resp path"
  by (cases ct) (simp_all only: emit_handle_def Let_def emitter_defs writelns_unlines CallType.case
      append_assoc append_Nil)

definition grow :: "service \<Rightarrow> proto_method \<times> CallType \<Rightarrow> sections \<Rightarrow> sections" where
  "grow service mc se =
    \<lparr>se_handles = se_handles se @ handle_text service mc,
     se_client_fns = se_client_fns se @ client_text service mc,
     se_server_trait_fns = se_server_trait_fns se @ trait_text mc,
     se_register_calls = se_register_calls se @ register_text service mc,
     se_any_annotated = True\<rparr>"

lemma generate_method_None:
  "methods (full_path service m) = None \<Longrightarrow>
    generate_method methods service m (buf, se) = (buf @ skip_text service m, se)"
  by (simp only: generate_method_def Let_def prod.case option.case skip_text_def writelns_unlines append_Nil)

lemma generate_method_Some:
  assumes "methods (full_path service m) = Some ct"
  shows "generate_method methods service m (buf, se) = (buf, grow service (m, ct) se)"
proof (cases ct)
qed (simp_all only: assms generate_method_def Let_def prod.case option.case CallType.case grow_def
    handle_text.simps client_text.simps trait_text.simps register_text.simps method_handle_name_def
    emit_handle_append [of "se_handles se"] emitter_defs writelns_unlines append_Nil append_assoc
    CallType.distinct if_False if_True insert_iff empty_iff simp_thms)

definition skipped :: "(string, CallType) map \<Rightarrow> service \<Rightarrow> proto_method list" where
  "skipped methods service =
    filter (\<lambda>m. methods (full_path service m) = None) (sv_methods service)"

lemma grow_simps [simp]:
  "se_handles (grow service mc se) = se_handles se @ handle_text service mc"
  "se_client_fns (grow service mc se) = se_client_fns se @ client_text service mc"
  "se_server_trait_fns (grow service mc se) = se_server_trait_fns se @ trait_text mc"
  "se_register_calls (grow service mc se) = se_register_calls se @ register_text service mc"
  "se_any_annotated (grow service mc se)"
  by (simp_all add: grow_def)

lemma fold_grow:
  "se_handles (fold (grow service) mcs se) = se_handles se @ concat (map (handle_text service) mcs)"
  "se_client_fns (fold (grow service) mcs se) = se_client_fns se @ concat (map (client_text service) mcs)"
  "se_server_trait_fns (fold (grow service) mcs se) = se_server_trait_fns se @ concat (map trait_text mcs)"
  "se_register_calls (fold (grow service) mcs se) =
     se_register_calls se @ concat (map (register_text service) mcs)"
  "se_any_annotated (fold (grow service) mcs se) \<longleftrightarrow> se_any_annotated se \<or> mcs \<noteq> []"
  by (induction mcs arbitrary: se) (simp_all del: handle_text.simps client_text.simps trait_text.simps
      register_text.simps)

lemma fold_generate_method:
  "fold (generate_method methods service) ms (buf, se) =
    (buf @ concat (map (skip_text service) (filter (\<lambda>m. methods (full_path service m) = None) ms)),
     fold (grow service)
       (concat (map (\<lambda>m. case methods (full_path service m) of None \<Rightarrow> [] | Some ct \<Rightarrow> [(m, ct)]) ms)) se)"
proof (induction ms arbitrary: buf se)
  case (Cons m ms)
  show ?case
    by (cases "methods (full_path service m)")
      (simp_all add: generate_method_None generate_method_Some Cons)
qed simp

text \<open>The two modules around the texts of the methods.\<close>

definition client_open :: "service \<Rightarrow> string list" where
  "client_open service =
    ['''',
     ''pub mod '' @ to_snake_case (sv_name service) @ ''_client {'',
     ''    //! Generated gorums client for `'' @ sv_name service @ ''`.'']"

definition server_open :: "service \<Rightarrow> string list" where
  "server_open service =
    [''}'',
     '''',
     ''pub mod '' @ to_snake_case (sv_name service) @ ''_server {'',
     ''    //! Generated gorums server trait for `'' @ sv_name service @ ''`.'',
     ''    pub trait '' @ sv_name service @ ''Server: ::core::marker::Send + ::core::marker::Sync + 'static {'']"

definition register_open :: "service \<Rightarrow> string list" where
  "register_open service =
    [''    }'',
     '''',
     ''    pub fn register_'' @ to_snake_case (sv_name service) @ ''<S: '' @ sv_name service @ ''Server>('',
     ''        server: &mut ::quorums::server::Server,'',
     ''        svc: ::std::sync::Arc<S>,'',
     ''    ) {'']"

definition service_text :: "service \<Rightarrow> (proto_method \<times> CallType) list \<Rightarrow> string" where
  "service_text service mcs =
    concat (map (handle_text service) mcs) @ unlines (client_open service) @
    concat (map (client_text service) mcs) @ unlines (server_open service) @
    concat (map trait_text mcs) @ unlines (register_open service) @
    concat (map (register_text service) mcs) @ unlines [''    }'', ''}'']"

lemma unlines_simps: "unlines [] = []" "unlines (l # ls) = l @ newline # unlines ls"
  by (simp_all add: unlines_def)

text \<open>
  Generating a service appends to the text so far one comment per method without an
  annotation and, unless no method is annotated, the handles, the client module and the server
  module, each with the texts of the annotated methods in the order of the service: the single
  pass over the methods with its five accumulators does the same as four passes over the
  annotated methods.
\<close>

lemma generate_output:
  "generate methods service buf =
    buf @ concat (map (skip_text service) (skipped methods service)) @
    (if annotated methods service = [] then [] else service_text service (annotated methods service))"
  by (simp only: generate_def Let_def fold_generate_method prod.case fold_grow sections.simps
      append_Nil skipped_def annotated_def [symmetric] simp_thms writelns_unlines
      service_text_def client_open_def server_open_def register_open_def append_assoc)
    (simp add: unlines_simps)

section \<open>What the generated text declares\<close>

lemma snake_loop_append:
  "snake_loop i result s = result @ snake_loop i [] s"
proof (induction s arbitrary: i result)
  case (Cons c s)
  show ?case
    unfolding snake_loop.simps Let_def
    by (subst (1 2) Cons) simp
qed simp

lemma clean_lower: "clean [c] \<Longrightarrow> clean [to_ascii_lowercase c]"
  by (auto simp: clean_def to_ascii_lowercase_def is_uppercase_def dest: arg_cong [where f = "of_char :: char \<Rightarrow> nat"])

lemma clean_snake_loop: "clean s \<Longrightarrow> clean (snake_loop i [] s)"
proof (induction s arbitrary: i)
  case (Cons c s)
  have "clean [to_ascii_lowercase c]"
    using Cons.prems by (intro clean_lower) (simp add: clean_def)
  then show ?case
    using Cons unfolding snake_loop.simps Let_def
    by (subst snake_loop_append) (simp add: clean_def)
qed simp

lemma clean_snake [simp]: "clean s \<Longrightarrow> clean (to_snake_case s)"
  unfolding to_snake_case_def by (rule clean_snake_loop)

lemmas line_defs = registered_line_def impl_line_def path_line_def const_path_line_def

lemma read_emit_handle:
  assumes "clean h" "clean req" "clean resp" "clean path"
  shows "read_with registered_line (emit_handle [] h ct req resp path) = []"
    "read_with impl_line (emit_handle [] h ct req resp path) = map (\<lambda>t. (t, h)) (method_traits ct)"
    "read_with path_line (emit_handle [] h ct req resp path) = map (\<lambda>_. path) (method_traits ct)"
  using assms [THEN cleanD(1)] assms [THEN cleanD(2)] assms [THEN cleanD(3)]
  by (cases ct; simp add: emit_handle_def emitter_defs writelns_unlines line_defs word_of_def takeWhile_upto)+

lemma read_client_text:
  assumes "clean_method m" "clean (method_handle_name service m)"
  shows "read_with registered_line (client_text service (m, ct)) = []"
    "read_with impl_line (client_text service (m, ct)) = []"
    "read_with path_line (client_text service (m, ct)) = []"
  using assms by (cases ct; simp add: clean_method_def cleanD emitter_defs writelns_unlines line_defs)+

lemma read_trait_text:
  assumes "clean_method m"
  shows "read_with registered_line (trait_text (m, ct)) = []"
    "read_with impl_line (trait_text (m, ct)) = []"
    "read_with path_line (trait_text (m, ct)) = []"
  using assms by (cases ct; simp add: clean_method_def cleanD emitter_defs writelns_unlines line_defs)+

lemma read_emit_register:
  assumes "clean path" "clean fn" "clean req"
  shows "read_with registered_line (emit_register_handler [] path fn req b) = [(path, b)]"
    "read_with impl_line (emit_register_handler [] path fn req b) = []"
    "read_with path_line (emit_register_handler [] path fn req b) = []"
  using assms by (cases b; simp add: cleanD emitter_defs writelns_unlines line_defs)+

lemma read_skip_text:
  assumes "clean (full_path service m)"
  shows "read_with registered_line (skip_text service m) = []"
    "read_with impl_line (skip_text service m) = []"
    "read_with path_line (skip_text service m) = []"
  using assms by (simp_all add: skip_text_def cleanD writelns_unlines line_defs)

lemma read_module_lines:
  assumes "clean (sv_name service)"
  shows "concat (map registered_line (client_open service @ server_open service @ register_open service)) = []"
    "concat (map impl_line (client_open service @ server_open service @ register_open service)) = []"
    "concat (map path_line (client_open service @ server_open service @ register_open service)) = []"
    "list_all (\<lambda>l. newline \<notin> set l) (client_open service @ server_open service @ register_open service)"
  using assms by (simp_all add: client_open_def server_open_def register_open_def line_defs cleanD)

lemma clean_service_names:
  assumes "clean_service s" "m \<in> set (sv_methods s)"
  shows "clean_method m" "clean (full_path s m)" "clean (method_handle_name s m)"
proof -
  show m: "clean_method m"
    using assms by (simp add: clean_service_def list_all_iff)
  have "clean ''/''" "clean ''.''" "clean ''Method''"
    by (simp_all add: clean_def)
  then show "clean (full_path s m)" "clean (method_handle_name s m)"
    using assms m by (simp_all only: clean_service_def clean_method_def full_path_def
        method_handle_name_def clean_append simp_thms)
qed

lemma complete_texts [simp]:
  "complete_text (handle_text s mc)" "complete_text (client_text s mc)"
  "complete_text (trait_text mc)" "complete_text (register_text s mc)" "complete_text (skip_text s n)"
proof -
  obtain m ct where mc: "mc = (m, ct)"
    by (cases mc)
  show "complete_text (handle_text s mc)"
    unfolding mc by (cases ct) (simp_all only: handle_text.simps emit_handle_def Let_def emitter_defs
      writelns_unlines CallType.case append_Nil complete_text_append complete_unlines)
  show "complete_text (client_text s mc)"
    unfolding mc by (cases ct) (simp_all only: client_text.simps Let_def emitter_defs
      writelns_unlines CallType.case append_Nil complete_unlines)
  show "complete_text (trait_text mc)"
    unfolding mc by (simp only: trait_text.simps Let_def emitter_defs
      writelns_unlines append_Nil complete_unlines if_bool_eq_conj split: if_splits) simp
  show "complete_text (register_text s mc)" "complete_text (skip_text s n)"
    unfolding mc by (simp_all only: register_text.simps skip_text_def Let_def emitter_defs
      writelns_unlines append_Nil complete_unlines)
qed

lemma read_concat:
  "(\<And>x. complete_text (g x)) \<Longrightarrow>
    read_with f (concat (map g xs) @ s) = concat (map (\<lambda>x. read_with f (g x)) xs) @ read_with f s"
  by (induction xs) (auto simp: read_with_append)

lemma annotated_methods: "(m, ct) \<in> set (annotated methods s) \<Longrightarrow> m \<in> set (sv_methods s)"
  by (auto simp: annotated_def split: option.splits)

lemma skipped_methods: "m \<in> set (skipped methods s) \<Longrightarrow> m \<in> set (sv_methods s)"
  by (simp add: skipped_def)

text \<open>
  A reader of single lines whose yield is known for every piece of a service's text: it finds
  something in handles and registrations only.
\<close>

locale line_reader =
  fixes read_line :: "string \<Rightarrow> 'a list"
    and in_handle :: "service \<Rightarrow> proto_method \<times> CallType \<Rightarrow> 'a list"
    and in_register :: "service \<Rightarrow> proto_method \<times> CallType \<Rightarrow> 'a list"
  assumes handle: "clean_service s \<Longrightarrow> m \<in> set (sv_methods s) \<Longrightarrow>
      read_with read_line (handle_text s (m, ct)) = in_handle s (m, ct)"
    and register: "clean_service s \<Longrightarrow> m \<in> set (sv_methods s) \<Longrightarrow>
      read_with read_line (register_text s (m, ct)) = in_register s (m, ct)"
    and client: "clean_service s \<Longrightarrow> m \<in> set (sv_methods s) \<Longrightarrow>
      read_with read_line (client_text s (m, ct)) = []"
    and trait: "clean_service s \<Longrightarrow> m \<in> set (sv_methods s) \<Longrightarrow>
      read_with read_line (trait_text (m, ct)) = []"
    and skip: "clean_service s \<Longrightarrow> m \<in> set (sv_methods s) \<Longrightarrow> read_with read_line (skip_text s m) = []"
    and modules: "clean_service s \<Longrightarrow>
      concat (map read_line (client_open s @ server_open s @ register_open s)) = []"
    and closing: "concat (map read_line [''    }'', ''}'']) = []"
begin

lemma pieces:
  assumes "clean_service s" "set mcs \<subseteq> set (annotated methods s)"
  shows "concat (map (\<lambda>mc. read_with read_line (handle_text s mc)) mcs) = concat (map (in_handle s) mcs)"
    "concat (map (\<lambda>mc. read_with read_line (register_text s mc)) mcs) = concat (map (in_register s) mcs)"
    "concat (map (\<lambda>mc. read_with read_line (client_text s mc)) mcs) = []"
    "concat (map (\<lambda>mc. read_with read_line (trait_text mc)) mcs) = []"
  using assms(2) annotated_methods [of _ _ methods s]
  by (induction mcs) (auto simp: handle register client trait [OF assms(1)] assms(1) simp del: handle_text.simps
      register_text.simps client_text.simps trait_text.simps)

lemma read_service_text:
  assumes "clean_service s" "mcs = annotated methods s"
  shows "read_with read_line (service_text s mcs) =
    concat (map (in_handle s) mcs) @ concat (map (in_register s) mcs)"
proof -
  have sub: "set mcs \<subseteq> set (annotated methods s)"
    by (simp add: assms)
  have lines: "list_all (\<lambda>l. newline \<notin> set l) (client_open s)"
    "list_all (\<lambda>l. newline \<notin> set l) (server_open s)"
    "list_all (\<lambda>l. newline \<notin> set l) (register_open s)"
    "list_all (\<lambda>l. newline \<notin> set l) [''    }'', ''}'']"
    using read_module_lines(4) [of s] assms(1) by (auto simp: clean_service_def)
  show ?thesis
    unfolding service_text_def
    using modules [OF assms(1)] pieces [OF assms(1) sub] closing
    by (simp only: read_concat complete_texts read_unlines_append read_unlines lines append_Nil append_Nil2
        map_append concat_append append_is_Nil_conv)
qed

lemma read_generate:
  assumes "clean_service s" "complete_text buf"
  shows "read_with read_line (generate methods s buf) = read_with read_line buf @
    concat (map (in_handle s) (annotated methods s)) @ concat (map (in_register s) (annotated methods s))"
proof -
  have "concat (map (\<lambda>m. read_with read_line (skip_text s m)) (skipped methods s)) = []"
    by (simp add: skip [OF assms(1)] skipped_methods)
  moreover have "read_with read_line [] = []"
    by (simp add: read_with_def)
  ultimately show ?thesis
    by (simp add: generate_output read_with_append assms read_concat read_service_text)
qed

end

interpretation registrations: line_reader registered_line "\<lambda>_ _. []"
  "\<lambda>s (m, ct). [(full_path s m, ct = Correctable)]"
proof unfold_locales
  fix s m ct
  assume clean: "clean_service s" "m \<in> set (sv_methods s)"
  note names = clean_service_names [OF clean]
  show "read_with registered_line (handle_text s (m, ct)) = []"
    using names by (simp add: read_emit_handle clean_method_def)
  show "read_with registered_line (register_text s (m, ct)) =
      (case (m, ct) of (m, ct) \<Rightarrow> [(full_path s m, ct = Correctable)])"
    using names by (simp add: read_emit_register clean_method_def)
  show "read_with registered_line (client_text s (m, ct)) = []"
    using names by (intro read_client_text(1))
  show "read_with registered_line (trait_text (m, ct)) = []"
    using names by (intro read_trait_text(1))
  show "read_with registered_line (skip_text s m) = []"
    using names by (intro read_skip_text(1))
next
  fix s
  assume "clean_service s"
  then show "concat (map registered_line (client_open s @ server_open s @ register_open s)) = []"
    by (intro read_module_lines(1)) (simp add: clean_service_def)
qed (simp add: registered_line_def)

interpretation impls: line_reader impl_line
  "\<lambda>s (m, ct). map (\<lambda>t. (t, method_handle_name s m)) (method_traits ct)" "\<lambda>_ _. []"
proof unfold_locales
  fix s m ct
  assume clean: "clean_service s" "m \<in> set (sv_methods s)"
  note names = clean_service_names [OF clean]
  show "read_with impl_line (handle_text s (m, ct)) =
      (case (m, ct) of (m, ct) \<Rightarrow> map (\<lambda>t. (t, method_handle_name s m)) (method_traits ct))"
    using names by (simp add: read_emit_handle clean_method_def)
  show "read_with impl_line (register_text s (m, ct)) = []"
    using names by (simp add: read_emit_register clean_method_def)
  show "read_with impl_line (client_text s (m, ct)) = []"
    using names by (intro read_client_text(2))
  show "read_with impl_line (trait_text (m, ct)) = []"
    using names by (intro read_trait_text(2))
  show "read_with impl_line (skip_text s m) = []"
    using names by (intro read_skip_text(2))
next
  fix s
  assume "clean_service s"
  then show "concat (map impl_line (client_open s @ server_open s @ register_open s)) = []"
    by (intro read_module_lines(2)) (simp add: clean_service_def)
qed (simp add: impl_line_def)

interpretation paths: line_reader path_line
  "\<lambda>s (m, ct). map (\<lambda>_. full_path s m) (method_traits ct)" "\<lambda>_ _. []"
proof unfold_locales
  fix s m ct
  assume clean: "clean_service s" "m \<in> set (sv_methods s)"
  note names = clean_service_names [OF clean]
  show "read_with path_line (handle_text s (m, ct)) =
      (case (m, ct) of (m, ct) \<Rightarrow> map (\<lambda>_. full_path s m) (method_traits ct))"
    using names by (simp add: read_emit_handle clean_method_def)
  show "read_with path_line (register_text s (m, ct)) = []"
    using names by (simp add: read_emit_register clean_method_def)
  show "read_with path_line (client_text s (m, ct)) = []"
    using names by (intro read_client_text(3))
  show "read_with path_line (trait_text (m, ct)) = []"
    using names by (intro read_trait_text(3))
  show "read_with path_line (skip_text s m) = []"
    using names by (intro read_skip_text(3))
next
  fix s
  assume "clean_service s"
  then show "concat (map path_line (client_open s @ server_open s @ register_open s)) = []"
    by (intro read_module_lines(3)) (simp add: clean_service_def)
qed (simp add: path_line_def)

lemma annotated_paths:
  "map (\<lambda>(m, ct). full_path s m) (annotated methods s) =
    filter (\<lambda>p. methods p \<noteq> None) (map (full_path s) (sv_methods s))"
proof -
  have "map (\<lambda>(m, ct). full_path s m)
      (concat (map (\<lambda>m. case methods (full_path s m) of None \<Rightarrow> [] | Some ct \<Rightarrow> [(m, ct)]) ms)) =
      filter (\<lambda>p. methods p \<noteq> None) (map (full_path s) ms)" for ms
    by (induction ms) (auto split: option.splits)
  then show ?thesis
    unfolding annotated_def .
qed

lemma distinct_paths:
  "distinct (map pm_proto_name (sv_methods s)) \<Longrightarrow> distinct (map (full_path s) (sv_methods s))"
  by (auto simp: distinct_map full_path_def intro!: inj_onI dest: inj_onD)

lemma concat_map_single: "concat (map (\<lambda>(m, ct). [f m ct]) xs) = map (\<lambda>(m, ct). f m ct) xs"
  by (induction xs) auto

lemma generated_registered:
  assumes "clean_service s" "complete_text buf"
  shows "registered (generate methods s buf) =
    registered buf @ map (\<lambda>(m, ct). (full_path s m, ct = Correctable)) (annotated methods s)"
  using registrations.read_generate [OF assms, of methods]
  by (simp add: registered_def concat_map_single)

lemma generated_distinct:
  assumes "clean_service s" "distinct (map pm_proto_name (sv_methods s))"
  shows "distinct (map fst (registered (generate methods s [])))"
proof -
  have "map fst (registered (generate methods s [])) =
      map (\<lambda>(m, ct). full_path s m) (annotated methods s)"
    using generated_registered [OF assms(1), of "[]" methods]
    by (simp add: registered_def read_with_def split_beta)
  then show ?thesis
    unfolding annotated_paths using distinct_paths [OF assms(2)] by simp
qed

section \<open>The builders of the repository\<close>

definition storage_builder :: builder where
  "storage_builder =
    builder_method ''/storage.Storage/Write'' Multicast
     (builder_method ''/storage.Storage/Read'' QuorumCall configure)"

definition epaxos_builder :: builder where
  "epaxos_builder =
    builder_method ''/epaxos.EPaxos/TryPreAccept'' QuorumCall
     (builder_method ''/epaxos.EPaxos/Prepare'' QuorumCall
       (builder_method ''/epaxos.EPaxos/Commit'' Multicast
         (builder_method ''/epaxos.EPaxos/Accept'' QuorumCall
           (builder_method ''/epaxos.EPaxos/PreAccept'' QuorumCall configure))))"

text \<open>The EPaxos service of \<open>proto/epaxos.proto\<close> as prost-build describes it.\<close>

definition rpc :: "string \<Rightarrow> string \<Rightarrow> string \<Rightarrow> string \<Rightarrow> proto_method" where
  "rpc name proto_name input output =
    \<lparr>pm_name = name, pm_proto_name = proto_name, pm_input_type = input, pm_output_type = output\<rparr>"

definition epaxos_service :: service where
  "epaxos_service =
    \<lparr>sv_name = ''EPaxos'', sv_proto_name = ''EPaxos'', sv_package = ''epaxos'',
     sv_methods =
       [rpc ''pre_accept'' ''PreAccept'' ''PreAcceptRequest'' ''PreAcceptReply'',
        rpc ''accept'' ''Accept'' ''AcceptRequest'' ''AcceptReply'',
        rpc ''commit'' ''Commit'' ''CommitRequest'' ''Empty'',
        rpc ''prepare'' ''Prepare'' ''PrepareRequest'' ''PrepareReply'',
        rpc ''try_pre_accept'' ''TryPreAccept'' ''TryPreAcceptRequest'' ''TryPreAcceptReply'']\<rparr>"

section \<open>Properties\<close>

text \<open>
  C33. What a generated file declares is what the annotations ask for.  For a service whose
  names are free of blanks, quotes and line breaks, the text appended by \<open>generate\<close> registers on
  the server side exactly the annotated methods, in order, under the full path of each, as a
  streaming handler if and only if the call type is Correctable; its handles implement for each
  annotated method exactly the traits of its call type; and every one of these implementations
  carries the path under which the server side registers the method.  Methods with distinct
  proto names are registered under distinct paths, so no registration overwrites another.
\<close>
theorem generated_api:
  assumes "clean_service s" and "complete_text buf"
  shows "registered (generate methods s buf) =
      registered buf @ map (\<lambda>(m, ct). (full_path s m, ct = Correctable)) (annotated methods s) \<and>
    implements (generate methods s buf) = implements buf @
      concat (map (\<lambda>(m, ct). map (\<lambda>t. (t, method_handle_name s m)) (method_traits ct)) (annotated methods s)) \<and>
    const_paths (generate methods s buf) = const_paths buf @
      concat (map (\<lambda>(m, ct). map (\<lambda>t. full_path s m) (method_traits ct)) (annotated methods s)) \<and>
    (distinct (map pm_proto_name (sv_methods s)) \<longrightarrow>
      distinct (map fst (registered (generate methods s []))))"
proof (intro conjI impI)
  show "registered (generate methods s buf) =
      registered buf @ map (\<lambda>(m, ct). (full_path s m, ct = Correctable)) (annotated methods s)"
    using assms by (rule generated_registered)
  show "implements (generate methods s buf) = implements buf @
      concat (map (\<lambda>(m, ct). map (\<lambda>t. (t, method_handle_name s m)) (method_traits ct)) (annotated methods s))"
    using impls.read_generate [OF assms, of methods] by (simp add: implements_def)
  show "const_paths (generate methods s buf) = const_paths buf @
      concat (map (\<lambda>(m, ct). map (\<lambda>t. full_path s m) (method_traits ct)) (annotated methods s))"
    using paths.read_generate [OF assms, of methods] by (simp add: const_paths_def)
  assume "distinct (map pm_proto_name (sv_methods s))"
  with assms(1) show "distinct (map fst (registered (generate methods s [])))"
    by (rule generated_distinct)
qed

theorem generated_api_witness:
  "registered (generate (b_methods epaxos_builder) epaxos_service []) =
     map (\<lambda>p. (''/epaxos.EPaxos/'' @ p, False))
       [''PreAccept'', ''Accept'', ''Commit'', ''Prepare'', ''TryPreAccept''] \<and>
   distinct (map fst (registered (generate (b_methods epaxos_builder) epaxos_service [])))"
proof -
  have clean: "clean_service epaxos_service" "complete_text []"
    by code_simp+
  have ann: "map (\<lambda>(m, ct). (full_path epaxos_service m, ct = Correctable))
      (annotated (b_methods epaxos_builder) epaxos_service) =
     map (\<lambda>p. (''/epaxos.EPaxos/'' @ p, False))
       [''PreAccept'', ''Accept'', ''Commit'', ''Prepare'', ''TryPreAccept'']"
    by code_simp
  have "distinct (map pm_proto_name (sv_methods epaxos_service))" "registered [] = []"
    by code_simp+
  then show ?thesis
    using generated_api [OF clean, of "b_methods epaxos_builder"] unfolding ann by simp
qed

section \<open>Module names\<close>

definition is_lowercase :: "char \<Rightarrow> bool" where
  "is_lowercase ch \<longleftrightarrow> 97 \<le> (of_char ch :: nat) \<and> (of_char ch :: nat) \<le> 122"

definition is_digit :: "char \<Rightarrow> bool" where
  "is_digit ch \<longleftrightarrow> 48 \<le> (of_char ch :: nat) \<and> (of_char ch :: nat) \<le> 57"

definition to_ascii_uppercase :: "char \<Rightarrow> char" where
  "to_ascii_uppercase ch = (if is_lowercase ch then char_of ((of_char ch :: nat) - 32) else ch)"

text \<open>Names in PascalCase: letters and digits, an upper-case letter first.\<close>

definition pascal :: "string \<Rightarrow> bool" where
  "pascal s \<longleftrightarrow> s \<noteq> [] \<and> is_uppercase (hd s) \<and>
    list_all (\<lambda>c. is_uppercase c \<or> is_lowercase c \<or> is_digit c) s"

text \<open>The inverse translation: drop each underscore and capitalise what follows it.\<close>

fun capitalise :: "bool \<Rightarrow> string \<Rightarrow> string" where
  "capitalise up [] = []"
| "capitalise up (c # s) =
    (if c = CHR ''_'' then capitalise True s
     else (if up then to_ascii_uppercase c else c) # capitalise False s)"

lemma of_char_small: "n < 256 \<Longrightarrow> of_char (char_of (n :: nat)) = n"
  by simp

lemma upper_lower [simp]: "is_uppercase c \<Longrightarrow> to_ascii_uppercase (to_ascii_lowercase c) = c"
  by (auto simp: is_uppercase_def to_ascii_lowercase_def to_ascii_uppercase_def is_lowercase_def)

lemma lower_same [simp]: "\<not> is_uppercase c \<Longrightarrow> to_ascii_lowercase c = c"
  by (simp add: to_ascii_lowercase_def)

lemma not_uppercase_lower [simp]: "\<not> is_uppercase (to_ascii_lowercase c)"
  by (auto simp: is_uppercase_def to_ascii_lowercase_def)

lemma underscore_class [simp]:
  "\<not> is_uppercase CHR ''_''" "\<not> is_lowercase CHR ''_''" "\<not> is_digit CHR ''_''"
  by (simp_all add: is_uppercase_def is_lowercase_def is_digit_def)

lemma lower_not_underscore [simp]: "is_uppercase c \<Longrightarrow> to_ascii_lowercase c \<noteq> CHR ''_''"
  using upper_lower [of c] by (auto simp: to_ascii_uppercase_def)

lemma snake_loop_Cons:
  "snake_loop i [] (c # s) =
    (if is_uppercase c \<and> i > 0 then [CHR ''_''] else []) @ to_ascii_lowercase c # snake_loop (Suc i) [] s"
  unfolding snake_loop.simps Let_def by (subst snake_loop_append) simp

lemma snake_tail:
  "list_all (\<lambda>c. is_uppercase c \<or> is_lowercase c \<or> is_digit c) s \<Longrightarrow>
    capitalise False (snake_loop (Suc i) [] s) = s"
  by (induction s arbitrary: i) (auto simp: snake_loop_Cons simp del: snake_loop.simps(2))

lemma snake_no_uppercase: "c \<in> set (snake_loop i [] s) \<Longrightarrow> \<not> is_uppercase c"
  by (induction s arbitrary: i)
    (auto simp: snake_loop_Cons split: if_splits simp del: snake_loop.simps(2))

lemma snake_round_trip:
  assumes "pascal s"
  shows "capitalise True (to_snake_case s) = s"
proof -
  obtain c t where s: "s = c # t" and c: "is_uppercase c"
      and t: "list_all (\<lambda>c. is_uppercase c \<or> is_lowercase c \<or> is_digit c) t"
    using assms by (cases s) (auto simp: pascal_def)
  then show ?thesis
    using snake_tail [OF t, of 0]
    by (simp add: to_snake_case_def snake_loop_Cons del: snake_loop.simps(2))
qed

text \<open>
  The name of a service can be read back from the name of its modules: for a PascalCase
  name, dropping the underscores of \<open>to_snake_case\<close> and capitalising what follows them gives
  the name again, and the module name has no upper-case letter.  So two services of one
  package with different PascalCase names never generate modules of the same name.
\<close>
theorem module_name_round_trip:
  assumes "pascal s"
  shows "capitalise True (to_snake_case s) = s \<and> (\<forall>c \<in> set (to_snake_case s). \<not> is_uppercase c) \<and>
    (\<forall>s'. pascal s' \<and> to_snake_case s' = to_snake_case s \<longrightarrow> s' = s)"
proof (intro conjI ballI allI impI)
  show "capitalise True (to_snake_case s) = s"
    using assms by (rule snake_round_trip)
  show "\<not> is_uppercase c" if "c \<in> set (to_snake_case s)" for c
    using that unfolding to_snake_case_def by (rule snake_no_uppercase)
  show "s' = s" if "pascal s' \<and> to_snake_case s' = to_snake_case s" for s'
    using that assms snake_round_trip by metis
qed

theorem module_name_round_trip_witness:
  "to_snake_case ''EPaxos'' = ''e_paxos'' \<and> capitalise True (to_snake_case ''EPaxos'') = ''EPaxos'' \<and>
   to_snake_case ''Epaxos'' \<noteq> to_snake_case ''EPaxos''"
proof -
  have names: "pascal ''EPaxos''" "pascal ''Epaxos''" "''Epaxos'' \<noteq> ''EPaxos''"
    by code_simp+
  have "to_snake_case ''EPaxos'' = ''e_paxos''"
    by code_simp
  moreover note module_name_round_trip [OF names(1)]
  ultimately show ?thesis
    using names(2,3) by metis
qed

end
