(* ===== verification/Key_Value.thy ===== *)
theory Key_Value
  imports Responses
begin

text \<open>
  \<^verbatim>\<open>examples/key_value.rs\<close>: the storage servers of the example and the two ways its client reads from
  them. The store behind the \<^verbatim>\<open>Arc<Mutex<..>>\<close> is passed through the handlers; a node handles the requests
  of one client stream in the order they were sent, which is the sequence \<open>kv_serve\<close> runs.
\<close>

record read_request =
  rq_key :: string

record write_request =
  wq_key :: string
  wq_value :: string

record read_response =
  rr_ok :: bool
  rr_value :: string

type_synonym kv_store = "string \<Rightarrow> string option"

definition kv_read :: "read_request \<Rightarrow> kv_store \<Rightarrow> (tonic_status + read_response option) \<times> kv_store" where
  "kv_read req data =
    (case data (rq_key req) of
       Some v \<Rightarrow> (Inr (Some \<lparr>rr_ok = True, rr_value = v\<rparr>), data)
     | None \<Rightarrow> (Inr (Some \<lparr>rr_ok = False, rr_value = []\<rparr>), data))"

definition kv_write :: "write_request \<Rightarrow> kv_store \<Rightarrow> (tonic_status + unit option) \<times> kv_store" where
  "kv_write req data = (Inr None, data(wq_key req \<mapsto> wq_value req))"

text \<open>The predicate with which the client asks all three nodes to agree.\<close>

definition all_agree :: "read_response list \<Rightarrow> read_response option" where
  "all_agree rs =
    (if length rs = 3 \<and> list_all (\<lambda>r. rr_value r = rr_value (rs ! 0)) rs then Some (rs ! 0) else None)"

definition read_majority ::
  "'l responses \<Rightarrow> read_response node_response obs list \<Rightarrow> (error + read_response) progress" where
  "read_majority h obs = snd (majority h obs)"

definition read_agreed ::
  "'l responses \<Rightarrow> read_response node_response obs list \<Rightarrow> ((error + read_response) \<times> unit) progress" where
  "read_agreed h obs = snd (quorum (\<lambda>c rs. (all_agree rs, c)) () h obs)"

text \<open>The requests a node handled, and the store they leave.\<close>

fun kv_serve :: "(read_request + write_request) list \<Rightarrow> kv_store \<Rightarrow> kv_store" where
  "kv_serve [] data = data"
| "kv_serve (Inl req # reqs) data = kv_serve reqs (snd (kv_read req data))"
| "kv_serve (Inr req # reqs) data = kv_serve reqs (snd (kv_write req data))"

definition last_write :: "string \<Rightarrow> (read_request + write_request) list \<Rightarrow> string option" where
  "last_write k reqs =
    (let ws = List.map_filter (\<lambda>r. case r of Inl _ \<Rightarrow> None
           | Inr w \<Rightarrow> if wq_key w = k then Some (wq_value w) else None) reqs
     in if ws = [] then None else Some (last ws))"

text \<open>A reply to a read of \<open>k\<close> by a node that has handled \<open>reqs\<close> before, from an empty store.\<close>

definition served_read :: "string \<Rightarrow> (read_request + write_request) list \<Rightarrow> read_response \<Rightarrow> bool" where
  "served_read k reqs r \<longleftrightarrow> fst (kv_read \<lparr>rq_key = k\<rparr> (kv_serve reqs Map.empty)) = Inr (Some r)"

section \<open>Lemmas\<close>

lemma kv_read_store [simp]: "snd (kv_read req data) = data"
  by (simp add: kv_read_def split: option.splits)

lemma kv_serve_append: "kv_serve (xs @ ys) data = kv_serve ys (kv_serve xs data)"
  by (induction xs data rule: kv_serve.induct) simp_all

lemma last_write_snoc [simp]:
  "last_write k (reqs @ [Inl rq]) = last_write k reqs"
  "last_write k (reqs @ [Inr w]) = (if wq_key w = k then Some (wq_value w) else last_write k reqs)"
  by (simp_all add: last_write_def map_filter_def Let_def)

lemma kv_serve_last_write: "kv_serve reqs Map.empty k = last_write k reqs"
proof (induction reqs rule: rev_induct)
  case (snoc r reqs)
  then show ?case
    by (cases r) (simp_all add: kv_serve_append kv_write_def)
qed (simp add: last_write_def map_filter_def)

lemma served_read_iff:
  "served_read k reqs r \<longleftrightarrow>
    r = (case last_write k reqs of Some v \<Rightarrow> \<lparr>rr_ok = True, rr_value = v\<rparr> | None \<Rightarrow> \<lparr>rr_ok = False, rr_value = []\<rparr>)"
  by (auto simp: served_read_def kv_read_def kv_serve_last_write split: option.splits)

lemma all_agree_same:
  "list_all (\<lambda>r. r = v) rs \<Longrightarrow> all_agree rs = (if length rs = 3 then Some v else None)"
proof -
  assume same: "list_all (\<lambda>r. r = v) rs"
  show ?thesis
  proof (cases "length rs = 3")
    case True
    with same show ?thesis by (simp add: all_agree_def list_all_length)
  qed (simp add: all_agree_def)
qed

lemma decide_agreed:
  assumes "list_all (\<lambda>r. r = v) (acc @ vs)" "length acc < 3"
  shows "decide (\<lambda>c rs. (all_agree rs, c)) () acc vs = (if 3 \<le> length acc + length vs then Some v else None, ())"
  using assms
proof (induction vs arbitrary: acc)
  case (Cons w vs)
  have same: "list_all (\<lambda>r. r = v) (acc @ [w])"
    using Cons.prems by simp
  have w: "w = v"
    using same by simp
  have step: "all_agree (acc @ [v]) = (if length acc = 2 then Some v else None)"
    by (subst all_agree_same [OF same [unfolded w]]) simp
  show ?case
  proof (cases "length acc = 2")
    case True
    then show ?thesis by (simp add: step w)
  next
    case False
    with Cons.prems have "length (acc @ [w]) < 3" by simp
    with Cons.IH [of "acc @ [w]"] Cons.prems(1) False show ?thesis by (simp add: step w)
  qed
qed simp

lemma decide_sound:
  assumes "decide (\<lambda>c rs. (all_agree rs, c)) () acc vs = (Some r, c)"
  shows "\<exists>n. length (take n (acc @ vs)) = 3 \<and> r = (acc @ vs) ! 0
    \<and> list_all (\<lambda>x. rr_value x = rr_value r) (take n (acc @ vs))"
  using assms
proof (induction vs arbitrary: acc)
  case (Cons w vs)
  show ?case
  proof (cases "all_agree (acc @ [w])")
    case None
    with Cons show ?thesis by fastforce
  next
    case (Some r')
    with Cons.prems have "r' = r" by simp
    with Some show ?thesis
      by (intro exI [of _ "Suc (length acc)"]) (auto simp: all_agree_def nth_append split: if_splits)
  qed
qed simp

section \<open>Properties\<close>

text \<open>
  Reading one's writes. Let the nodes that answered have handled arbitrary requests before the read,
  the last write to the key among them being of the same value \<open>v\<close> on each. Then the majority read
  returns \<open>v\<close> as found as soon as a majority of the replies are in, and the read that asks for agreement
  does so as soon as three are in; before that both wait.
\<close>

theorem kv_reads_last_write:
  assumes "list_all quiet obs"
    and "\<forall>r \<in> set (oks (items obs)). \<exists>reqs. served_read k reqs r \<and> last_write k reqs = Some v"
  shows "read_majority h obs =
      (if rs_size h div 2 + 1 \<le> length (oks (items obs)) then Finished (Inr \<lparr>rr_ok = True, rr_value = v\<rparr>) else Waiting)
    \<and> read_agreed h obs =
      (if 3 \<le> length (oks (items obs)) then Finished (Inr \<lparr>rr_ok = True, rr_value = v\<rparr>, ()) else Waiting)"
proof -
  have same: "list_all (\<lambda>r. r = \<lparr>rr_ok = True, rr_value = v\<rparr>) (oks (items obs))"
    using assms(2) by (auto simp: list_all_iff served_read_iff)
  then have hd: "hd (oks (items obs)) = \<lparr>rr_ok = True, rr_value = v\<rparr>" if "oks (items obs) \<noteq> []"
    using that by (auto simp: list_all_iff)
  have "read_majority h obs =
      (if rs_size h div 2 + 1 \<le> length (oks (items obs)) then Finished (Inr \<lparr>rr_ok = True, rr_value = v\<rparr>) else Waiting)"
    using hd assms(1) length_greater_0_conv [of "oks (items obs)"]
    by (auto simp del: length_greater_0_conv simp: read_majority_def majority_def threshold_def Let_def threshold_select.loop_quiet_only feed_threshold)
  moreover have "read_agreed h obs =
      (if 3 \<le> length (oks (items obs)) then Finished (Inr \<lparr>rr_ok = True, rr_value = v\<rparr>, ()) else Waiting)"
    using assms(1) same decide_agreed [of "\<lparr>rr_ok = True, rr_value = v\<rparr>" "[]" "oks (items obs)"]
    by (simp add: read_agreed_def quorum_def quorum_select.loop_quiet_only feed_quorum)
  ultimately show ?thesis
    by blast
qed

text \<open>
  The read that asks for agreement never returns a value on which the replies differ: if it returns,
  three replies were in, all with the value returned.
\<close>

theorem kv_agreed_read_sound:
  assumes "list_all quiet obs" "read_agreed h obs = Finished (Inr r, c)"
  shows "\<exists>n. length (take n (oks (items obs))) = 3
    \<and> list_all (\<lambda>x. rr_value x = rr_value r) (take n (oks (items obs)))"
proof -
  have "decide (\<lambda>c rs. (all_agree rs, c)) () [] (oks (items obs)) = (Some r, c)"
    using assms by (auto simp: read_agreed_def quorum_def quorum_select.loop_quiet_only feed_quorum
        split: prod.splits option.splits)
  from decide_sound [OF this] show ?thesis
    by auto
qed


theorem kv_reads_last_write_witness:
  "read_agreed \<lparr>rs_size = 3, launch = None :: unit option\<rparr>
     (map (\<lambda>i. (False, Item \<lparr>nr_node_id = i, nr_result = Inr \<lparr>rr_ok = True, rr_value = ''blue''\<rparr>\<rparr>)) [1, 3, 2])
   = Finished (Inr \<lparr>rr_ok = True, rr_value = ''blue''\<rparr>, ())"
proof -
  let ?obs = "map (\<lambda>i. (False, Item \<lparr>nr_node_id = i, nr_result = Inr \<lparr>rr_ok = True, rr_value = ''blue''\<rparr>\<rparr>)) [1, 3, 2]"
  let ?reqs = "[Inr \<lparr>wq_key = ''color'', wq_value = ''blue''\<rparr>]"
  have quiet: "list_all quiet ?obs" by simp
  have "served_read ''color'' ?reqs \<lparr>rr_ok = True, rr_value = ''blue''\<rparr>" "last_write ''color'' ?reqs = Some ''blue''"
    by code_simp+
  then have "\<forall>r \<in> set (oks (items ?obs)). \<exists>reqs. served_read ''color'' reqs r \<and> last_write ''color'' reqs = Some ''blue''"
    by auto
  from kv_reads_last_write [OF quiet this, of "\<lparr>rs_size = 3, launch = None :: unit option\<rparr>"]
  show ?thesis by simp
qed

theorem kv_agreed_read_sound_witness:
  "\<exists>n. length (take n [\<lparr>rr_ok = False, rr_value = []\<rparr>, \<lparr>rr_ok = True, rr_value = []\<rparr>, \<lparr>rr_ok = True, rr_value = []\<rparr>]) = 3
    \<and> list_all (\<lambda>x. rr_value x = [])
        (take n [\<lparr>rr_ok = False, rr_value = []\<rparr>, \<lparr>rr_ok = True, rr_value = []\<rparr>, \<lparr>rr_ok = True, rr_value = []\<rparr>])"
proof -
  let ?obs = "map (\<lambda>(i, b). (False, Item \<lparr>nr_node_id = i, nr_result = Inr \<lparr>rr_ok = b, rr_value = []\<rparr>\<rparr>))
    [(1, False), (2, True), (3, True)]"
  have quiet: "list_all quiet ?obs" by simp
  have "read_agreed \<lparr>rs_size = 3, launch = None :: unit option\<rparr> ?obs = Finished (Inr \<lparr>rr_ok = False, rr_value = []\<rparr>, ())"
    by code_simp
  from kv_agreed_read_sound [OF quiet this] show ?thesis by simp
qed

end
