(* ===== verification/Local_Cluster.thy ===== *)
theory Local_Cluster
  imports Node_Manager
begin

text \<open>
  What the two examples share: servers on consecutive local ports, and a new manager that is given their
  addresses. The first configuration of a manager has the IDs 1, 2, and so on, in the order of the
  addresses, and it exists as soon as the addresses parse to distinct socket addresses.
\<close>

type_synonym u16 = "16 word"

definition local_addr :: "u16 \<Rightarrow> string" where
  "local_addr port = ''127.0.0.1:'' @ show_nat (unat port)"

lemma local_addr_inj: "local_addr p = local_addr q \<longleftrightarrow> p = q"
  by (auto simp: local_addr_def dest: show_nat_inj [THEN unsigned_word_eqI])

lemma unat_minus_one: "unat (- 1 :: u32) = 2 ^ 32 - 1"
  by (simp add: unsigned_minus_1_eq_mask mask_eq_exp_minus_1)

lemma add_addrs_succeeds:
  assumes "map sock addrs = map Some norms" "distinct norms"
    and "set norms \<inter> naddr ` snd ` set (mgr_nodes (fst s)) = {}"
    and "mgr_inv s" "unat (next_id (fst s)) + length addrs < 2 ^ 32"
  shows "\<exists>out s'. add_addrs sock addrs ns s = (Some (Inr out), s')"
  using assms
proof (induction addrs arbitrary: norms ns s)
  case (Cons addr addrs)
  let ?i = "next_id (fst s)"
  obtain norm norms' where norms: "norms = norm # norms'" "sock addr = Some norm" "map sock addrs = map Some norms'"
    using Cons.prems(1) by (cases norms) auto
  have adm: "admissible sock ?i addr norm s"
    using Cons.prems(3,4) norms by (cases s) (auto simp: admissible_def mgr_inv_def)
  have ni: "?i \<noteq> - 1"
    using Cons.prems(5) unat_minus_one by auto
  define s1 where "s1 = ((fst (after_add ?i norm s))\<lparr>next_id := ?i + 1\<rparr>, snd (after_add ?i norm s))"
  have add: "add_node sock ?i addr s = (Some (Inr ()), s1)"
    unfolding add_node_ok_iff using adm ni by (auto simp: s1_def)
  have nodes: "mgr_nodes (fst s1) = mgr_nodes (fst s) @ [(?i, added ?i norm s)]"
    by (simp add: s1_def after_add_def)
  have "map_of (mgr_nodes (fst s)) ?i = None"
    using adm by (auto simp: admissible_def map_of_eq_None_iff)
  then have look: "map_of (mgr_nodes (fst s1)) ?i = Some (added ?i norm s)"
    by (simp add: nodes map_add_def)
  have inv: "mgr_inv s1"
    by (rule mgr_inv_add_node [OF Cons.prems(4) add])
  have "set norms' \<inter> naddr ` snd ` set (mgr_nodes (fst s1)) = {}"
    using Cons.prems(2,3) by (auto simp: nodes norms(1) added_def)
  moreover have "unat (next_id (fst s1)) + length addrs < 2 ^ 32"
    using Cons.prems(5) unat_inc [OF ni] by (simp add: s1_def)
  moreover have "distinct norms'" using Cons.prems(2) norms(1) by simp
  ultimately obtain out s' where "add_addrs sock addrs (ns @ [added ?i norm s]) s1 = (Some (Inr out), s')"
    using Cons.IH [OF norms(3) _ _ inv] by blast
  then show ?case
    by (simp add: add look)
qed simp

lemma first_configuration:
  assumes "add_node_list sock addrs (manager_new, runtime_new) = (Some (Inr cfg), s')"
  shows "node_ids cfg = map (\<lambda>j. of_nat (j + 1)) [0..<length addrs]" "config_size cfg = length addrs" "distinct (map sock addrs)"
proof -
  let ?s = "(manager_new, runtime_new)"
  obtain ns where ns: "add_addrs sock addrs [] ?s = (Some (Inr ns), s')" and cfg: "cfg = new_configuration ns"
    using assms by (auto simp: add_node_list_def split: prod.splits option.splits sum.splits)
  have inv: "mgr_inv ?s"
    by (rule manager_reach_inv [OF manager_reach.start])
  have facts: "map nid ns = map (\<lambda>j. 1 + of_nat j) [0..<length addrs]"
      "map (\<lambda>n. Some (naddr n)) ns = map sock addrs" "mgr_nodes (fst s') = map (\<lambda>n. (nid n, n)) ns"
    using add_addrs_ok [OF inv ns] by (auto simp: manager_new_def)
  show "node_ids cfg = map (\<lambda>j. of_nat (j + 1)) [0..<length addrs]"
    using facts(1) by (simp add: cfg new_configuration_def node_ids_def)
  show "config_size cfg = length addrs"
    using arg_cong [OF facts(1), of length] by (simp add: cfg config_size_def new_configuration_def)
  have "mgr_inv s'" by (rule mgr_inv_add_addrs [OF inv ns])
  then have "distinct (map naddr ns)"
    using facts(3) by (cases s') (simp add: mgr_inv_def comp_def)
  then have "distinct (map Some (map naddr ns))"
    by (simp only: distinct_map inj_on_def option.inject) simp
  then show "distinct (map sock addrs)"
    unfolding facts(2) [symmetric] by (simp add: comp_def)
qed

lemma first_configuration_exists:
  assumes "map sock addrs = map Some norms" "distinct norms" "length addrs < 2 ^ 32 - 1"
  obtains cfg s' where "add_node_list sock addrs (manager_new, runtime_new :: 'cb runtime) = (Some (Inr cfg), s')"
proof -
  have "mgr_inv (manager_new, runtime_new :: 'cb runtime)"
    by (rule manager_reach_inv [OF manager_reach.start])
  then obtain out s' where "add_addrs sock addrs [] (manager_new, runtime_new :: 'cb runtime) = (Some (Inr out), s')"
    using add_addrs_succeeds [OF assms(1), of "(manager_new, runtime_new :: 'cb runtime)" "[]"] assms(2,3)
    by (auto simp: manager_new_def)
  then show thesis
    using that by (simp add: add_node_list_def)
qed

end
