(* ===== verification/Key_Value_Main.thy ===== *)
theory Key_Value_Main
  imports Key_Value Local_Cluster Server
begin

text \<open>
  \<^verbatim>\<open>spawn_node\<close> and \<^verbatim>\<open>main\<close> of \<^verbatim>\<open>examples/key_value.rs\<close>: three storage nodes, a manager, and one call after
  the other, through the contexts, the call types and the terminal methods of the library. A call is
  queued on the channel of each node; the node handles the message that was queued. This is the run
  without failures: every message that a channel accepts reaches its node, and the acknowledgement of a
  write is the successful one. What a broken stream does to a call, \<^verbatim>\<open>StreamDown\<close> to its caller or its
  acknowledgement, is the subject of the channel theory, and what the terminal methods make of it that
  of \<^verbatim>\<open>Responses\<close> and \<^verbatim>\<open>Call_Types\<close>. The codec of the generated message types is a parameter.
\<close>

section \<open>The nodes\<close>

text \<open>The codec: requests are encoded by the client and decoded by the server, responses the other way.\<close>

record kv_codec =
  enc_read :: "read_request \<Rightarrow> u8 list"
  dec_read :: "u8 list \<Rightarrow> string + read_request"
  enc_write :: "write_request \<Rightarrow> u8 list"
  dec_write :: "u8 list \<Rightarrow> string + write_request"
  enc_resp :: "read_response \<Rightarrow> u8 list"
  dec_resp :: "u8 list \<Rightarrow> string + read_response"

definition codec_ok :: "kv_codec \<Rightarrow> bool" where
  "codec_ok cd \<longleftrightarrow> (\<forall>r. dec_read cd (enc_read cd r) = Inr r) \<and> (\<forall>w. dec_write cd (enc_write cd w) = Inr w)
     \<and> (\<forall>r. dec_resp cd (enc_resp cd r) = Inr r)"

definition read_path :: string where "read_path = ''/storage.Storage/Read''"
definition write_path :: string where "write_path = ''/storage.Storage/Write''"

definition read_method :: "kv_codec \<Rightarrow> (read_request, read_response) method_handle" where
  "read_method cd = \<lparr>mh_path = read_path, mh_enc = enc_read cd, mh_dec = dec_resp cd\<rparr>"

definition write_method :: "kv_codec \<Rightarrow> (write_request, read_response) method_handle" where
  "write_method cd = \<lparr>mh_path = write_path, mh_enc = enc_write cd, mh_dec = dec_resp cd\<rparr>"

text \<open>\<^verbatim>\<open>str::contains\<close>.\<close>

fun contains :: "string \<Rightarrow> string \<Rightarrow> bool" where
  "contains pat s = (take (length pat) s = pat \<or> (case s of [] \<Rightarrow> False | _ # s' \<Rightarrow> contains pat s'))"

declare contains.simps [simp del]

text \<open>A node: its store, the interceptors of its server, and the lines the interceptor printed.\<close>

record kv_node =
  kn_store :: kv_store
  kn_interceptors :: "server_call_info list server_interceptor list"
  kn_lines :: "server_call_info list"

definition server_log :: "server_call_info list server_interceptor" where
  "server_log info lines = (Inr (), if \<not> contains ''health'' (sci_method info) then lines @ [info] else lines)"

definition kv_spawn_node :: "(string \<Rightarrow> string option) \<Rightarrow> u16 \<Rightarrow> kv_store \<Rightarrow> kv_node option" where
  "kv_spawn_node sock port store =
     (case sock (local_addr port) of
        None \<Rightarrow> None
      | Some addr \<Rightarrow> Some \<lparr>kn_store = store, kn_interceptors = [server_log], kn_lines = []\<rparr>)"

text \<open>A node handles one message: the interceptors, then the handler of the method.\<close>

definition kv_handle :: "kv_codec \<Rightarrow> string option \<Rightarrow> message \<Rightarrow> kv_node \<Rightarrow> message option \<times> kv_node" where
  "kv_handle cd peer wire nd =
     (case run_server (kn_interceptors nd) \<lparr>sci_method = msg_method wire, sci_peer_addr = peer\<rparr> (kn_lines nd) of
        (Inl st, lines) \<Rightarrow> (Some (status_message (msg_seq_no wire) (msg_method wire) st), nd\<lparr>kn_lines := lines\<rparr>)
      | (Inr _, lines) \<Rightarrow>
         (let nd = nd\<lparr>kn_lines := lines\<rparr> in
          if msg_method wire = read_path then
            (case dec_read cd (msg_payload wire) of
               Inl e \<Rightarrow> (None, nd)
             | Inr req \<Rightarrow>
                (case kv_read req (kn_store nd) of
                   (Inr (Some resp), data) \<Rightarrow> (Some (ok_message (msg_seq_no wire) (msg_method wire) (enc_resp cd resp)), nd\<lparr>kn_store := data\<rparr>)
                 | (Inr None, data) \<Rightarrow> (None, nd\<lparr>kn_store := data\<rparr>)
                 | (Inl st, data) \<Rightarrow> (Some (status_message (msg_seq_no wire) (msg_method wire) st), nd\<lparr>kn_store := data\<rparr>)))
          else if msg_method wire = write_path then
            (case dec_write cd (msg_payload wire) of
               Inl e \<Rightarrow> (None, nd)
             | Inr req \<Rightarrow>
                (case kv_write req (kn_store nd) of
                   (Inr _, data) \<Rightarrow> (None, nd\<lparr>kn_store := data\<rparr>)
                 | (Inl st, data) \<Rightarrow> (Some (status_message (msg_seq_no wire) (msg_method wire) st), nd\<lparr>kn_store := data\<rparr>)))
          else (None, nd)))"

text \<open>
  The server of a node whose store is \<open>data\<close>: \<^verbatim>\<open>Server::new\<close>, the logging interceptor, and the two methods
  that the generated \<^verbatim>\<open>register_storage\<close> registers. \<^verbatim>\<open>write\<close> answers with the empty message.
\<close>

definition kv_server :: "kv_codec \<Rightarrow> (u8 list \<Rightarrow> string + 'req) \<Rightarrow> (bool \<Rightarrow> u8 list) \<Rightarrow> kv_store \<Rightarrow> server_call_info list server" where
  "kv_server cd dec_health enc_health data =
     register_handler write_path (dec_write cd) (\<lambda>_. []) (\<lambda>ctx req. Ready (fst (kv_write req data)))
       (register_handler read_path (dec_read cd) (enc_resp cd) (\<lambda>ctx req. Ready (fst (kv_read req data)))
         (sv_with_interceptor server_log (server_new dec_health enc_health)))"

section \<open>The calls\<close>

text \<open>
  What the client has seen and done: the lines its interceptor printed and the channels to the nodes;
  and the nodes, in the order of the configuration.
\<close>

record kv_world =
  kw_lines :: "call_info list"
  kw_chans :: chans
  kw_nodes :: "kv_node list"

definition client_log :: "call_info list interceptor" where
  "client_log info lines = (Inr (), lines @ [info])"

text \<open>The message that was queued last on the channel of a node.\<close>

definition queued :: "node \<Rightarrow> chans \<Rightarrow> message" where
  "queued nd chs = last (ch_accepted (chs (nchan nd)))"

text \<open>
  The tasks of a multicast and of a quorum call, one per node, and what each reports. A task whose
  request the channel takes is answered: the node handles the message at once, a write is acknowledged
  as sent, and a read gets the reply of the node, if it makes one. Refusal by the channel is the error
  branch.
\<close>

fun send_writes ::
  "kv_codec \<Rightarrow> string option \<Rightarrow> fanout \<Rightarrow> node list \<Rightarrow> nat \<Rightarrow> kv_world \<Rightarrow> ((u32 \<times> (error + unit)) list \<times> kv_world) option" where
  "send_writes cd peer plan [] i w = Some ([], w)"
| "send_writes cd peer plan (nd # nds) i w =
     (case multicast_start plan nd (kw_chans w) of
        (None, chs) \<Rightarrow> None
      | (Some (Inl e), chs) \<Rightarrow> do {
          (reports, w') \<leftarrow> send_writes cd peer plan nds (Suc i) (w\<lparr>kw_chans := chs\<rparr>);
          Some (multicast_report nd (Inl e) # reports, w')
        }
      | (Some (Inr ack), chs) \<Rightarrow> do {
          let (reply, node') = kv_handle cd peer (queued nd chs) (kw_nodes w ! i) in do {
          (reports, w') \<leftarrow> send_writes cd peer plan nds (Suc i) (w\<lparr>kw_chans := chs, kw_nodes := (kw_nodes w)[i := node']\<rparr>);
          Some (multicast_report nd (Inr ()) # reports, w')
        }})"

fun send_reads ::
  "kv_codec \<Rightarrow> string option \<Rightarrow> fanout \<Rightarrow> node list \<Rightarrow> nat \<Rightarrow> kv_world \<Rightarrow> (read_response node_response option list \<times> kv_world) option" where
  "send_reads cd peer plan [] i w = Some ([], w)"
| "send_reads cd peer plan (nd # nds) i w =
     (case send_twoway_start plan nd (kw_chans w) of
        (None, chs) \<Rightarrow> None
      | (Some (Inl e), chs) \<Rightarrow> do {
          (replies, w') \<leftarrow> send_reads cd peer plan nds (Suc i) (w\<lparr>kw_chans := chs\<rparr>);
          Some (Some (quorum_task_response (read_method cd) nd (Inl e)) # replies, w')
        }
      | (Some (Inr rt), chs) \<Rightarrow> do {
          let (reply, node') = kv_handle cd peer (queued nd chs) (kw_nodes w ! i) in do {
          (replies, w') \<leftarrow> send_reads cd peer plan nds (Suc i) (w\<lparr>kw_chans := chs, kw_nodes := (kw_nodes w)[i := node']\<rparr>);
          Some (map_option (\<lambda>m. quorum_task_response (read_method cd) nd (Inr m)) reply # replies, w')
        }})"

text \<open>
  What a terminal method observes: the first time it is polled nothing has arrived; then the answers
  arrive in the order \<open>order\<close>. The context's token is fired or not, for the whole call.
\<close>

definition polls :: "bool \<Rightarrow> nat list \<Rightarrow> 'a option list \<Rightarrow> 'a obs list" where
  "polls fired order answers = (fired, Empty) # map (\<lambda>a. (fired, Item a)) (List.map_filter (\<lambda>i. answers ! i) order)"

definition client_write ::
  "kv_codec \<Rightarrow> string option \<Rightarrow> nat list \<Rightarrow> (bool, call_info list interceptor) config_context \<Rightarrow> write_request \<Rightarrow> kv_world
   \<Rightarrow> ((error + unit) \<times> kv_world) option" where
  "client_write cd peer order ctx req w =
     (case multicast_head ctx req (write_method cd) (kw_lines w) of
        (None, lines) \<Rightarrow> None
      | (Some (Inl e), lines) \<Rightarrow> Some (Inl e, w\<lparr>kw_lines := lines\<rparr>)
      | (Some (Inr plan), lines) \<Rightarrow> do {
          (reports, w') \<leftarrow> send_writes cd peer plan (fo_nodes plan) 0 (w\<lparr>kw_lines := lines\<rparr>);
          (case multicast_await (polls (cc_cancel ctx) order (map Some reports) @ [(cc_cancel ctx, Disconnected)]) of
             Finished r \<Rightarrow> Some (r, w')
           | _ \<Rightarrow> None)
        })"

definition client_read ::
  "kv_codec \<Rightarrow> string option \<Rightarrow> (fanout responses \<Rightarrow> read_response node_response obs list \<Rightarrow> (error + read_response) progress) \<Rightarrow> nat list
   \<Rightarrow> (bool, call_info list interceptor) config_context \<Rightarrow> read_request \<Rightarrow> kv_world \<Rightarrow> ((error + read_response) \<times> kv_world) option" where
  "client_read cd peer terminal order ctx req w =
     (case quorum_call ctx req (read_method cd) (kw_lines w) of
        (None, lines) \<Rightarrow> None
      | (Some (Inl e), lines) \<Rightarrow> Some (Inl e, w\<lparr>kw_lines := lines\<rparr>)
      | (Some (Inr h), lines) \<Rightarrow> (case launch h of None \<Rightarrow> None | Some plan \<Rightarrow> do {
          (replies, w') \<leftarrow> send_reads cd peer plan (fo_nodes plan) 0 (w\<lparr>kw_lines := lines\<rparr>);
          (case terminal h (polls (cc_cancel ctx) order replies) of Finished r \<Rightarrow> Some (r, w') | _ \<Rightarrow> None)
        }))"

definition client_rpc ::
  "kv_codec \<Rightarrow> string option \<Rightarrow> (bool, call_info list interceptor) node_context \<Rightarrow> read_request \<Rightarrow> kv_world
   \<Rightarrow> ((error + read_response) \<times> kv_world) option" where
  "client_rpc cd peer ctx req w =
     (case rpc_call_send ctx req (read_method cd) (kw_lines w, kw_chans w) of
        (None, lines, chs) \<Rightarrow> None
      | (Some (Inl e), lines, chs) \<Rightarrow> Some (Inl e, w\<lparr>kw_lines := lines, kw_chans := chs\<rparr>)
      | (Some (Inr rt), lines, chs) \<Rightarrow>
          (let (reply, node') = kv_handle cd peer (queued (nc_node ctx) chs) (kw_nodes w ! 0);
               w' = w\<lparr>kw_lines := lines, kw_chans := chs, kw_nodes := (kw_nodes w)[0 := node']\<rparr>
           in case rpc_call_await (read_method cd)
                ((nc_cancel ctx, Open) # (case reply of None \<Rightarrow> [] | Some m \<Rightarrow> [(nc_cancel ctx, Sent (Inr m))])) of
                Finished r \<Rightarrow> Some (r, w')
              | _ \<Rightarrow> None))"

section \<open>main\<close>

definition PORTS :: "u16 list" where
  "PORTS = [19001, 19002, 19003]"

definition agreed :: "'l responses \<Rightarrow> read_response node_response obs list \<Rightarrow> (error + read_response) progress" where
  "agreed h obs = (case read_agreed h obs of Finished (r, _) \<Rightarrow> Finished r | Waiting \<Rightarrow> Waiting | Panicked \<Rightarrow> Panicked)"

text \<open>What \<^verbatim>\<open>main\<close> prints of the results, and the state it leaves.\<close>

record kv_output =
  ko_size :: nat
  ko_majority :: read_response
  ko_agreed :: read_response
  ko_single :: read_response
  ko_cancelled :: "error + read_response"
  ko_world :: kv_world

text \<open>\<^verbatim>\<open>?\<close>: \<^verbatim>\<open>main\<close> ends with the first error.\<close>

fun or_return :: "((error + 'a) \<times> kv_world) option \<Rightarrow> ('a \<times> kv_world) option" where
  "or_return (Some (Inr v, w)) = Some (v, w)"
| "or_return _ = None"

text \<open>The calls of \<^verbatim>\<open>main\<close>, once it is connected.\<close>

definition kv_session ::
  "kv_codec \<Rightarrow> string option \<Rightarrow> (nat \<Rightarrow> nat list) \<Rightarrow> configuration \<Rightarrow> kv_world \<Rightarrow> kv_output option" where
  "kv_session cd peer orders cfg w =
     (let logged = cc_with_interceptor client_log (config_context False cfg) in do {
     (_, w) \<leftarrow> or_return (client_write cd peer (orders 0) logged \<lparr>wq_key = ''color'', wq_value = ''blue''\<rparr> w);
     (r1, w) \<leftarrow> or_return (client_read cd peer read_majority (orders 1) logged \<lparr>rq_key = ''color''\<rparr> w);
     (r2, w) \<leftarrow> or_return (client_read cd peer agreed (orders 2) logged \<lparr>rq_key = ''color''\<rparr> w);
     (r3, w) \<leftarrow> or_return (client_rpc cd peer (nc_with_interceptor client_log (node_context False (cfg_nodes cfg ! 0)))
        \<lparr>rq_key = ''color''\<rparr> w);
     (_, w) \<leftarrow> or_return (client_write cd peer (orders 3)
        (cc_with_metadata ''user'' ''alice'' (cc_with_metadata ''trace-id'' ''req-42'' (config_context False cfg)))
        \<lparr>wq_key = ''traced-key'', wq_value = ''traced-value''\<rparr> w);
     (r4, w) \<leftarrow> client_read cd peer read_majority (orders 4) (cc_with_cancel True (config_context False cfg)) \<lparr>rq_key = ''color''\<rparr> w;
     Some \<lparr>ko_size = config_size cfg, ko_majority = r1, ko_agreed = r2, ko_single = r3, ko_cancelled = r4, ko_world = w\<rparr>
   })"

definition kv_main ::
  "(string \<Rightarrow> string option) \<Rightarrow> kv_codec \<Rightarrow> string option \<Rightarrow> (nat \<Rightarrow> nat list) \<Rightarrow> chans \<Rightarrow> kv_output option" where
  "kv_main sock cd peer orders chs = do {
     nodes \<leftarrow> those (map (\<lambda>port. kv_spawn_node sock port Map.empty) PORTS);
     cfg \<leftarrow> (case add_node_list sock (map local_addr PORTS) (manager_new, runtime_new :: unit runtime) of
        (Some (Inr cfg), mgr) \<Rightarrow> Some cfg | _ \<Rightarrow> None);
     kv_session cd peer orders cfg \<lparr>kw_lines = [], kw_chans = chs, kw_nodes = nodes\<rparr>
   }"

section \<open>One request\<close>

text \<open>Channels whose task runs and whose sequence numbers last for \<open>m\<close> more requests.\<close>

definition ready :: "nat \<Rightarrow> chans \<Rightarrow> bool" where
  "ready m chs \<longleftrightarrow> (\<forall>k. task_alive (chs k) \<and> unat (ch_seq (chs k)) + m < 2 ^ 64)"

lemma dispatch_ready:
  assumes "ready (Suc m) chs"
  obtains rt ak chs' seq where "dispatch path payload meta want_reply want_ack nd chs = (Some (Inr (rt, ak)), chs')"
    "ready m chs'" "queued nd chs' = build_wire_message seq path payload meta"
proof -
  let ?c = "chs (nchan nd)"
  let ?msg = "build_wire_message (ch_seq ?c + 1) path payload meta"
  have alive: "task_alive ?c" and room: "unat (ch_seq ?c) + Suc m < 2 ^ 64" using assms by (auto simp: ready_def)
  have ne: "ch_seq ?c \<noteq> - 1" using room by (auto simp: unsigned_minus_1_eq_mask mask_eq_exp_minus_1)
  have "\<exists>rt ak c'. dispatch path payload meta want_reply want_ack nd chs = (Some (Inr (rt, ak)), chs(nchan nd := c'))
      \<and> task_alive c' \<and> ch_seq c' = ch_seq ?c + 1 \<and> ch_accepted c' = ch_accepted ?c @ [?msg]"
    using ne alive
    by (cases want_reply; cases want_ack)
      (simp add: dispatch_def next_seq_def checked_inc_def submit_def enqueue_def task_alive_def oneshot_channel_def Let_def,
        rule exI, rule conjI, rule refl, simp)+
  then obtain rt ak c' where run: "dispatch path payload meta want_reply want_ack nd chs = (Some (Inr (rt, ak)), chs(nchan nd := c'))"
    and c': "task_alive c'" "ch_seq c' = ch_seq ?c + 1" "ch_accepted c' = ch_accepted ?c @ [?msg]" by blast
  moreover have "ready m (chs(nchan nd := c'))"
  proof -
    have "unat (ch_seq (chs k)) + m < 2 ^ 64" for k
      using assms unfolding ready_def by (metis Suc_lessD add_Suc_right)
    then show ?thesis using assms c'(1,2) unat_inc [OF ne] room by (simp add: ready_def)
  qed
  ultimately show thesis by (intro that [of rt ak "chs(nchan nd := c')" "ch_seq ?c + 1"]) (simp_all add: queued_def)
qed

lemma no_health: "\<not> contains ''health'' read_path" "\<not> contains ''health'' write_path"
  by code_simp+

definition serves :: "kv_node \<Rightarrow> bool" where
  "serves nd \<longleftrightarrow> kn_interceptors nd = [server_log]"

definition after_write :: "write_request \<Rightarrow> kv_store \<Rightarrow> kv_store" where
  "after_write req st = st(wq_key req \<mapsto> wq_value req)"

definition found :: "string \<Rightarrow> kv_store \<Rightarrow> read_response" where
  "found k data = (case data k of Some v \<Rightarrow> \<lparr>rr_ok = True, rr_value = v\<rparr> | None \<Rightarrow> \<lparr>rr_ok = False, rr_value = []\<rparr>)"

lemma kv_read_found: "kv_read req data = (Inr (Some (found (rq_key req) data)), data)"
  by (simp add: kv_read_def found_def split: option.splits)

lemma paths_differ: "write_path \<noteq> read_path"
  by (simp add: read_path_def write_path_def)

lemma handle_write:
  assumes "codec_ok cd" "serves nd"
  shows "kv_handle cd peer (build_wire_message seq write_path (enc_write cd req) meta) nd =
    (None, nd\<lparr>kn_store := (kn_store nd)(wq_key req \<mapsto> wq_value req), kn_lines := kn_lines nd @ [\<lparr>sci_method = write_path, sci_peer_addr = peer\<rparr>]\<rparr>)"
  using assms no_health paths_differ
  by (simp add: kv_handle_def serves_def codec_ok_def build_wire_message_def server_log_def)
    (simp add: kv_write_def)

lemma handle_read:
  assumes "codec_ok cd" "serves nd"
  shows "kv_handle cd peer (build_wire_message seq read_path (enc_read cd req) meta) nd =
    (Some (ok_message seq read_path (enc_resp cd (found (rq_key req) (kn_store nd)))),
     nd\<lparr>kn_lines := kn_lines nd @ [\<lparr>sci_method = read_path, sci_peer_addr = peer\<rparr>]\<rparr>)"
  using assms no_health
  by (simp add: kv_handle_def serves_def codec_ok_def build_wire_message_def server_log_def kv_read_found)

text \<open>
  A node answers as its server does: a finished task of a stream of \<open>kv_server\<close> has sent the reply of
  \<open>kv_handle\<close>, and nothing else.
\<close>

lemma kv_server_handlers:
  "sv_interceptors (kv_server cd dec enc data) = [server_log]"
  "map_of (sv_handlers (kv_server cd dec enc data)) read_path = Some (erased_handler (dec_read cd) (enc_resp cd) (\<lambda>ctx req. Ready (fst (kv_read req data))))"
  "map_of (sv_handlers (kv_server cd dec enc data)) write_path = Some (erased_handler (dec_write cd) (\<lambda>_. []) (\<lambda>ctx req. Ready (fst (kv_write req data))))"
  "p \<noteq> read_path \<Longrightarrow> p \<noteq> write_path \<Longrightarrow> p \<noteq> HEALTH_METHOD \<Longrightarrow> map_of (sv_handlers (kv_server cd dec enc data)) p = None"
  using paths_differ by (auto simp: kv_server_def register_handler_def sv_with_interceptor_def server_new_def)

lemma kv_handle_is_task:
  assumes "stream_steps (kv_server cd dec enc (kn_store nd)) entries peer (stream_new lines) s" "st_open s"
    and "t < length (st_tasks s)" "t_phase (st_tasks s ! t) = Over" "t_msg (st_tasks s ! t) = wire"
    and "serves nd" "msg_method wire \<noteq> HEALTH_METHOD"
  shows "sent_by t s = (case fst (kv_handle cd peer wire nd) of None \<Rightarrow> [] | Some m \<Rightarrow> [m])"
proof -
  let ?sv = "kv_server cd dec enc (kn_store nd)"
  have "outcome ?sv entries peer wire (sent_by t s)"
    using out_inv_steps [OF assms(1)] assms(2-5) unfolding out_inv_def task_ok_def by fastforce
  then have sent: "sent_by t s = (case map_of (sv_handlers ?sv) (msg_method wire) of None \<Rightarrow> [] | Some h \<Rightarrow> wire_trace (h (task_ctx entries wire) wire))"
    by (auto simp: outcome_def kv_server_handlers(1) server_log_def)
  consider (is_read) "msg_method wire = read_path" | (is_write) "msg_method wire = write_path"
    | (other) "msg_method wire \<noteq> read_path" "msg_method wire \<noteq> write_path" by blast
  then show ?thesis
  proof cases
    case is_read
    then show ?thesis
      using assms(6) by (simp add: sent kv_server_handlers(2) erased_handler_def kv_handle_def serves_def server_log_def kv_read_found split: sum.splits)
  next
    case is_write
    then show ?thesis
      using assms(6) paths_differ
      by (simp add: sent kv_server_handlers(3) erased_handler_def kv_handle_def serves_def server_log_def kv_write_def split: sum.splits)
  next
    case other
    then show ?thesis
      using assms(6,7) by (simp add: sent kv_server_handlers(4) kv_handle_def serves_def server_log_def)
  qed
qed

section \<open>One call\<close>

text \<open>A world at rest: the nodes hold \<open>stores\<close>, and the channels last for \<open>m\<close> more requests.\<close>

definition at_rest :: "nat \<Rightarrow> kv_store list \<Rightarrow> kv_world \<Rightarrow> bool" where
  "at_rest m stores w \<longleftrightarrow> ready m (kw_chans w) \<and> map kn_store (kw_nodes w) = stores \<and> list_all serves (kw_nodes w)"

lemma at_rest_node:
  assumes "at_rest m (pre @ st # post) w"
  shows "length pre < length (kw_nodes w)" and "kn_store (kw_nodes w ! length pre) = st" and "serves (kw_nodes w ! length pre)"
proof -
  have eq: "map kn_store (kw_nodes w) = pre @ st # post" and s: "list_all serves (kw_nodes w)" using assms by (auto simp: at_rest_def)
  from arg_cong [OF eq, of length] show len: "length pre < length (kw_nodes w)" by simp
  from arg_cong [OF eq, of "\<lambda>xs. xs ! length pre"] len show "kn_store (kw_nodes w ! length pre) = st" by simp
  show "serves (kw_nodes w ! length pre)" using s len by (simp add: list_all_length)
qed

lemma at_rest_step:
  assumes "at_rest (Suc m) (pre @ st # post) w" "ready m chs" "serves nd" "kn_store nd = st'"
  shows "at_rest m (pre @ st' # post) (w\<lparr>kw_chans := chs, kw_nodes := (kw_nodes w)[length pre := nd]\<rparr>)"
proof -
  have "map kn_store (kw_nodes w) = pre @ st # post" using assms(1) by (simp add: at_rest_def)
  then have "map kn_store ((kw_nodes w)[length pre := nd]) = pre @ st' # post" using assms(4) by (simp add: map_update)
  moreover have "list_all serves ((kw_nodes w)[length pre := nd])"
    using assms(1,3) set_update_subset_insert [of "kw_nodes w" "length pre" nd] by (auto simp: at_rest_def list_all_iff)
  ultimately show ?thesis using assms(2) by (simp add: at_rest_def)
qed

lemma writes_delivered:
  assumes cd: "codec_ok cd" and plan: "fo_path plan = write_path" "fo_payload plan = enc_write cd req"
  shows "at_rest (m + length nds) (pre @ post) w \<Longrightarrow> length post = length nds \<Longrightarrow>
    \<exists>w'. send_writes cd peer plan nds (length pre) w = Some (map (\<lambda>nd. (nid nd, Inr ())) nds, w')
      \<and> kw_lines w' = kw_lines w \<and> at_rest m (pre @ map (after_write req) post) w'"
proof (induction nds arbitrary: pre post w)
  case (Cons nd nds)
  obtain st post' where post: "post = st # post'" "length post' = length nds" using Cons.prems(2) by (cases post) auto
  have rest: "at_rest (Suc (m + length nds)) (pre @ st # post') w" using Cons.prems(1) by (simp add: post)
  then have "ready (Suc (m + length nds)) (kw_chans w)" by (simp add: at_rest_def)
  then obtain rt ak chs seq where disp: "dispatch write_path (enc_write cd req) (fo_meta plan) False True nd (kw_chans w) = (Some (Inr (rt, ak)), chs)"
    and chs: "ready (m + length nds) chs" "queued nd chs = build_wire_message seq write_path (enc_write cd req) (fo_meta plan)"
    by (rule dispatch_ready)
  let ?st = "after_write req st"
  obtain nd' where nd': "kv_handle cd peer (queued nd chs) (kw_nodes w ! length pre) = (None, nd')" "serves nd'" "kn_store nd' = ?st"
    using handle_write [OF cd at_rest_node(3) [OF rest]] at_rest_node [OF rest] by (simp add: chs(2) serves_def after_write_def)
  define w1 where "w1 = w\<lparr>kw_chans := chs, kw_nodes := (kw_nodes w)[length pre := nd']\<rparr>"
  have "at_rest (m + length nds) ((pre @ [?st]) @ post') w1"
    using at_rest_step [OF rest chs(1) nd'(2,3)] by (simp add: w1_def)
  from Cons.IH [OF this post(2)] obtain w' where
    "send_writes cd peer plan nds (Suc (length pre)) w1 = Some (map (\<lambda>nd. (nid nd, Inr ())) nds, w')"
    "kw_lines w' = kw_lines w1" "at_rest m ((pre @ [?st]) @ map (after_write req) post') w'"
    by auto
  then show ?case
    using disp nd'(1) by (simp add: multicast_start_def plan multicast_report_def w1_def post(1))
qed (simp add: at_rest_def)

lemma reads_delivered:
  assumes cd: "codec_ok cd" and plan: "fo_path plan = read_path" "fo_payload plan = enc_read cd req"
  shows "at_rest (m + length nds) (pre @ post) w \<Longrightarrow> length post = length nds \<Longrightarrow>
    \<exists>w'. send_reads cd peer plan nds (length pre) w
        = Some (map (\<lambda>(nd, st). Some \<lparr>nr_node_id = nid nd, nr_result = Inr (found (rq_key req) st)\<rparr>) (zip nds post), w')
      \<and> kw_lines w' = kw_lines w \<and> at_rest m (pre @ post) w'"
proof (induction nds arbitrary: pre post w)
  case (Cons nd nds)
  obtain st post' where post: "post = st # post'" "length post' = length nds" using Cons.prems(2) by (cases post) auto
  have rest: "at_rest (Suc (m + length nds)) (pre @ st # post') w" using Cons.prems(1) by (simp add: post)
  then have "ready (Suc (m + length nds)) (kw_chans w)" by (simp add: at_rest_def)
  then obtain rt ak chs seq where disp: "dispatch read_path (enc_read cd req) (fo_meta plan) True False nd (kw_chans w) = (Some (Inr (rt, ak)), chs)"
    and chs: "ready (m + length nds) chs" "queued nd chs = build_wire_message seq read_path (enc_read cd req) (fo_meta plan)"
    by (rule dispatch_ready)
  obtain nd' where nd': "kv_handle cd peer (queued nd chs) (kw_nodes w ! length pre)
      = (Some (ok_message seq read_path (enc_resp cd (found (rq_key req) st))), nd')" "serves nd'" "kn_store nd' = st"
    using handle_read [OF cd at_rest_node(3) [OF rest]] at_rest_node [OF rest] by (simp add: chs(2) serves_def after_write_def)
  define w1 where "w1 = w\<lparr>kw_chans := chs, kw_nodes := (kw_nodes w)[length pre := nd']\<rparr>"
  have "at_rest (m + length nds) ((pre @ [st]) @ post') w1"
    using at_rest_step [OF rest chs(1) nd'(2,3)] by (simp add: w1_def)
  from Cons.IH [OF this post(2)] obtain w' where
    "send_reads cd peer plan nds (Suc (length pre)) w1
      = Some (map (\<lambda>(nd, st). Some \<lparr>nr_node_id = nid nd, nr_result = Inr (found (rq_key req) st)\<rparr>) (zip nds post'), w')"
    "kw_lines w' = kw_lines w1" "at_rest m ((pre @ [st]) @ post') w'"
    by auto
  moreover have "decode_reply (read_method cd) (Inr (ok_message seq read_path (enc_resp cd r))) = Inr r" for r
    using cd by (simp add: decode_reply_def decode_payload_def read_method_def ok_message_def codec_ok_def)
  ultimately show ?case
    using disp nd'(1) by (simp add: send_twoway_start_def plan quorum_task_response_def w1_def post(1))
qed (simp add: at_rest_def)


text \<open>The three answers of a call, in any order.\<close>

definition any_order :: "nat list \<Rightarrow> bool" where
  "any_order order \<longleftrightarrow> distinct order \<and> set order = {0, 1, 2}"

lemma polls_three:
  assumes "any_order order" "length answers = 3" "\<forall>i < 3. \<exists>x. answers ! i = Some x \<and> P x"
  shows "\<exists>x y z. polls fired order answers = [(fired, Empty), (fired, Item x), (fired, Item y), (fired, Item z)] \<and> P x \<and> P y \<and> P z"
proof -
  have "length order = Suc (Suc (Suc 0))" using assms(1) distinct_card [of order] by (simp add: any_order_def)
  then obtain a b c where abc: "order = [a, b, c]" unfolding length_Suc_conv by auto
  have "x < 3" if "x \<in> set order" for x using that assms(1) by (auto simp: any_order_def)
  then have "a < 3" "b < 3" "c < 3" by (simp_all add: abc)
  then have "\<exists>x. answers ! a = Some x \<and> P x" "\<exists>x. answers ! b = Some x \<and> P x" "\<exists>x. answers ! c = Some x \<and> P x"
    using assms(3) by simp_all
  then show ?thesis by (auto simp: polls_def abc List.map_filter_def)
qed

lemma write_done:
  assumes cd: "codec_ok cd" and rest: "at_rest (m + 3) (replicate 3 st) w" and order: "any_order order"
    and ctx: "length (cfg_nodes (cc_config ctx)) = 3" "cc_cancel ctx = False"
      "run (cc_interceptors ctx) \<lparr>ci_method = write_path, ci_node_ids = node_ids (cc_config ctx), ci_metadata = cc_metadata ctx\<rparr> (kw_lines w) = (Inr (), lines)"
  shows "\<exists>w'. client_write cd peer order ctx req w = Some (Inr (), w') \<and> kw_lines w' = lines
    \<and> at_rest m (replicate 3 (after_write req st)) w'"
proof -
  define plan where "plan = \<lparr>fo_nodes = cfg_nodes (cc_config ctx), fo_path = write_path, fo_payload = enc_write cd req, fo_meta = metadata_map (cc_metadata ctx)\<rparr>"
  have head: "multicast_head ctx req (write_method cd) (kw_lines w) = (Some (Inr plan), lines)"
    using ctx by (auto simp: multicast_head_def config_call_head_def write_method_def encode_payload_def plan_def)
  have "at_rest (m + length (fo_nodes plan)) ([] @ replicate 3 st) (w\<lparr>kw_lines := lines\<rparr>)"
    using rest ctx(1) by (simp add: at_rest_def plan_def)
  from writes_delivered [where req = req and peer = peer and plan = plan, OF cd _ _ this] obtain w' where
    w': "send_writes cd peer plan (fo_nodes plan) 0 (w\<lparr>kw_lines := lines\<rparr>) = Some (map (\<lambda>nd. (nid nd, Inr ())) (fo_nodes plan), w')"
    "kw_lines w' = lines" "at_rest m (replicate 3 (after_write req st)) w'"
    using ctx(1) by (auto simp: plan_def)
  let ?answers = "map Some (map (\<lambda>nd. (nid nd, Inr ())) (fo_nodes plan)) :: (u32 \<times> (error + unit)) option list"
  have "\<exists>x y z. polls False order ?answers = [(False, Empty), (False, Item x), (False, Item y), (False, Item z)]
      \<and> snd x = Inr () \<and> snd y = Inr () \<and> snd z = Inr ()"
    by (rule polls_three [OF order]) (use ctx(1) in \<open>auto simp: plan_def\<close>)
  then have "multicast_await (polls False order ?answers @ [(False, Disconnected)]) = Finished (Inr ())"
    by (auto simp: multicast_await_def)
  then show ?thesis
    using w' head ctx(2) by (simp add: client_write_def)
qed

lemma read_done:
  assumes cd: "codec_ok cd" and rest: "at_rest (m + 3) (replicate 3 st) w" and order: "any_order order"
    and ctx: "length (cfg_nodes (cc_config ctx)) = 3"
      "run (cc_interceptors ctx) \<lparr>ci_method = read_path, ci_node_ids = node_ids (cc_config ctx), ci_metadata = cc_metadata ctx\<rparr> (kw_lines w) = (Inr (), lines)"
    and fin: "\<And>h x y z. rs_size h = 3 \<Longrightarrow> nr_result x = Inr (found (rq_key req) st) \<Longrightarrow> nr_result y = Inr (found (rq_key req) st) \<Longrightarrow>
      nr_result z = Inr (found (rq_key req) st) \<Longrightarrow>
      terminal h [(cc_cancel ctx, Empty), (cc_cancel ctx, Item x), (cc_cancel ctx, Item y), (cc_cancel ctx, Item z)] = Finished r"
  shows "\<exists>w'. client_read cd peer terminal order ctx req w = Some (r, w') \<and> kw_lines w' = lines \<and> at_rest m (replicate 3 st) w'"
proof -
  define plan where "plan = \<lparr>fo_nodes = cfg_nodes (cc_config ctx), fo_path = read_path, fo_payload = enc_read cd req, fo_meta = metadata_map (cc_metadata ctx)\<rparr>"
  have head: "quorum_call ctx req (read_method cd) (kw_lines w) = (Some (Inr \<lparr>rs_size = 3, launch = Some plan\<rparr>), lines)"
    using ctx by (auto simp: quorum_call_def config_call_head_def read_method_def encode_payload_def plan_def)
  have "at_rest (m + length (fo_nodes plan)) ([] @ replicate 3 st) (w\<lparr>kw_lines := lines\<rparr>)"
    using rest ctx(1) by (simp add: at_rest_def plan_def)
  from reads_delivered [where req = req and peer = peer and plan = plan, OF cd _ _ this] obtain w' where
    w': "send_reads cd peer plan (fo_nodes plan) 0 (w\<lparr>kw_lines := lines\<rparr>)
      = Some (map (\<lambda>(nd, st). Some \<lparr>nr_node_id = nid nd, nr_result = Inr (found (rq_key req) st)\<rparr>) (zip (fo_nodes plan) (replicate 3 st)), w')"
    "kw_lines w' = lines" "at_rest m (replicate 3 st) w'"
    using ctx(1) by (auto simp: plan_def)
  let ?answers = "map (\<lambda>(nd, st). Some \<lparr>nr_node_id = nid nd, nr_result = Inr (found (rq_key req) st)\<rparr>) (zip (fo_nodes plan) (replicate 3 st))"
  have "\<exists>x y z. polls (cc_cancel ctx) order ?answers = [(cc_cancel ctx, Empty), (cc_cancel ctx, Item x), (cc_cancel ctx, Item y), (cc_cancel ctx, Item z)]
      \<and> nr_result x = Inr (found (rq_key req) st) \<and> nr_result y = Inr (found (rq_key req) st) \<and> nr_result z = Inr (found (rq_key req) st)"
    by (rule polls_three [OF order]) (use ctx(1) in \<open>auto simp: plan_def\<close>)
  then have "terminal \<lparr>rs_size = 3, launch = Some plan\<rparr> (polls (cc_cancel ctx) order ?answers) = Finished r"
    using fin by auto
  then show ?thesis
    using w' head by (simp add: client_read_def)
qed


lemma rpc_done:
  assumes cd: "codec_ok cd" and rest: "at_rest (Suc m) (st # post) w" and ctx: "nc_cancel ctx = False"
      "run (nc_interceptors ctx) \<lparr>ci_method = read_path, ci_node_ids = [nid (nc_node ctx)], ci_metadata = nc_metadata ctx\<rparr> (kw_lines w) = (Inr (), lines)"
  shows "\<exists>w'. client_rpc cd peer ctx req w = Some (Inr (found (rq_key req) st), w') \<and> kw_lines w' = lines \<and> at_rest m (st # post) w'"
proof -
  have rest: "at_rest (Suc m) ([] @ st # post) w" using rest by simp
  then have "ready (Suc m) (kw_chans w)" by (simp add: at_rest_def)
  then obtain rt ak chs seq where
    disp: "dispatch read_path (enc_read cd req) (metadata_map (nc_metadata ctx)) True False (nc_node ctx) (kw_chans w) = (Some (Inr (rt, ak)), chs)"
    and chs: "ready m chs" "queued (nc_node ctx) chs = build_wire_message seq read_path (enc_read cd req) (metadata_map (nc_metadata ctx))"
    by (rule dispatch_ready)
  have send: "rpc_call_send ctx req (read_method cd) (kw_lines w, kw_chans w) = (Some (Inr rt), lines, chs)"
    using ctx(2) disp by (simp add: rpc_call_send_def read_method_def encode_payload_def)
  obtain nd' where nd': "kv_handle cd peer (queued (nc_node ctx) chs) (kw_nodes w ! 0)
      = (Some (ok_message seq read_path (enc_resp cd (found (rq_key req) st))), nd')" "serves nd'" "kn_store nd' = st"
    using handle_read [OF cd at_rest_node(3) [OF rest]] at_rest_node [OF rest] by (simp add: chs(2) serves_def)
  have "at_rest m (st # post) (w\<lparr>kw_chans := chs, kw_nodes := (kw_nodes w)[0 := nd']\<rparr>)"
    using at_rest_step [OF rest chs(1) nd'(2,3)] by simp
  moreover have "decode_reply (read_method cd) (Inr (ok_message seq read_path (enc_resp cd r))) = Inr r" for r
    using cd by (simp add: decode_reply_def decode_payload_def read_method_def ok_message_def codec_ok_def)
  ultimately show ?thesis
    using send nd'(1) ctx(1) by (simp add: client_rpc_def at_rest_def)
qed

text \<open>The two reads return what three equal answers say; a fired token cancels.\<close>

lemma read_terminals:
  assumes "rs_size h = 3" "nr_result x = Inr v" "nr_result y = Inr v" "nr_result z = Inr v"
  shows "read_majority h [(False, Empty), (False, Item x), (False, Item y), (False, Item z)] = Finished (Inr v)"
    and "read_agreed h [(False, Empty), (False, Item x), (False, Item y), (False, Item z)] = Finished (Inr v, ())"
    and "read_majority h ((True, Empty) # obs) = Finished (Inl Cancelled)"
  using assms by (simp_all add: read_majority_def majority_def threshold_def read_agreed_def quorum_def all_agree_def Let_def)

lemma reads_done:
  assumes "codec_ok cd" "at_rest (m + 3) (replicate 3 st) w" "any_order order" "length (cfg_nodes (cc_config ctx)) = 3"
    and "run (cc_interceptors ctx) \<lparr>ci_method = read_path, ci_node_ids = node_ids (cc_config ctx), ci_metadata = cc_metadata ctx\<rparr> (kw_lines w) = (Inr (), lines)"
  shows "\<not> cc_cancel ctx \<Longrightarrow> \<exists>w'. client_read cd peer read_majority order ctx req w = Some (Inr (found (rq_key req) st), w')
      \<and> kw_lines w' = lines \<and> at_rest m (replicate 3 st) w'" (is "_ \<Longrightarrow> ?majority")
    and "\<not> cc_cancel ctx \<Longrightarrow> \<exists>w'. client_read cd peer agreed order ctx req w = Some (Inr (found (rq_key req) st), w')
      \<and> kw_lines w' = lines \<and> at_rest m (replicate 3 st) w'" (is "_ \<Longrightarrow> ?agreed")
    and "cc_cancel ctx \<Longrightarrow> \<exists>w'. client_read cd peer read_majority order ctx req w = Some (Inl Cancelled, w')
      \<and> kw_lines w' = lines \<and> at_rest m (replicate 3 st) w'" (is "_ \<Longrightarrow> ?cancelled")
proof -
  show ?majority if "\<not> cc_cancel ctx" by (rule read_done [OF assms]) (use that read_terminals(1) in auto)
  show ?agreed if "\<not> cc_cancel ctx" by (rule read_done [OF assms]) (use that in \<open>simp add: agreed_def read_terminals(2)\<close>)
  show ?cancelled if "cc_cancel ctx" by (rule read_done [OF assms]) (use that in \<open>simp add: read_terminals(3)\<close>)
qed

text \<open>What the calls of \<^verbatim>\<open>main\<close> leave behind, for a configuration of three nodes with IDs 1 to 3.\<close>

lemma session_done:
  assumes cfg: "node_ids cfg = [1, 2, 3]" "length (cfg_nodes cfg) = 3" and cd: "codec_ok cd"
    and rest0: "at_rest (13 + 3) (replicate 3 Map.empty) w0" "kw_lines w0 = []" and orders: "\<forall>c < 5. any_order (orders c)"
  shows "\<exists>w. kv_session cd peer orders cfg w0 = Some \<lparr>ko_size = 3, ko_majority = \<lparr>rr_ok = True, rr_value = ''blue''\<rparr>,
      ko_agreed = \<lparr>rr_ok = True, rr_value = ''blue''\<rparr>, ko_single = \<lparr>rr_ok = True, rr_value = ''blue''\<rparr>, ko_cancelled = Inl Cancelled, ko_world = w\<rparr>
    \<and> map ci_method (kw_lines w) = [write_path, read_path, read_path, read_path]
    \<and> map ci_node_ids (kw_lines w) = [[1, 2, 3], [1, 2, 3], [1, 2, 3], [1]]
    \<and> map kn_store (kw_nodes w) = replicate 3 [''color'' \<mapsto> ''blue'', ''traced-key'' \<mapsto> ''traced-value'']"
proof -
  let ?S = "[''color'' \<mapsto> ''blue''] :: kv_store" and ?T = "[''color'' \<mapsto> ''blue'', ''traced-key'' \<mapsto> ''traced-value''] :: kv_store"
  have first_id: "nid (cfg_nodes cfg ! 0) = 1" using cfg by (cases "cfg_nodes cfg") (auto simp: node_ids_def)
  let ?log = "cc_with_interceptor client_log (config_context False cfg)"
  let ?wreq = "\<lparr>wq_key = ''color'', wq_value = ''blue''\<rparr>" and ?rreq = "\<lparr>rq_key = ''color''\<rparr>" and ?blue = "\<lparr>rr_ok = True, rr_value = ''blue''\<rparr>"
  define info where "info = (\<lambda>p ids. \<lparr>ci_method = p, ci_node_ids = ids, ci_metadata = []\<rparr> :: call_info)"
  have ord: "any_order (orders 0)" "any_order (orders 1)" "any_order (orders 2)" "any_order (orders 3)" "any_order (orders 4)"
    using orders by simp_all
  have log: "length (cfg_nodes (cc_config ?log)) = 3" "\<not> cc_cancel ?log"
      "run (cc_interceptors ?log) \<lparr>ci_method = p, ci_node_ids = node_ids (cc_config ?log), ci_metadata = cc_metadata ?log\<rparr> lines
        = (Inr (), lines @ [info p [1, 2, 3]])" for p lines
    using cfg by (simp_all add: cc_with_interceptor_def config_context_def client_log_def info_def)
  have three: "replicate 3 ?S = ?S # replicate 2 ?S" by (simp add: numeral_3_eq_3 numeral_2_eq_2)
  have blue: "found ''color'' ?S = ?blue" by (simp add: found_def)
  obtain w1 where w1: "client_write cd peer (orders 0) ?log ?wreq w0 = Some (Inr (), w1)"
    "kw_lines w1 = [info write_path [1, 2, 3]]" "at_rest (10 + 3) (replicate 3 ?S) w1"
    using write_done [where req = ?wreq and peer = peer, OF cd rest0(1) ord(1) log(1) _ log(3)] log(2)
    by (auto simp: rest0(2) after_write_def)
  obtain w2 where w2: "client_read cd peer read_majority (orders 1) ?log ?rreq w1 = Some (Inr ?blue, w2)"
    "kw_lines w2 = [info write_path [1, 2, 3], info read_path [1, 2, 3]]" "at_rest (7 + 3) (replicate 3 ?S) w2"
    using reads_done(1) [where req = ?rreq and peer = peer, OF cd w1(3) ord(2) log(1,3,2)] by (auto simp: blue w1(2))
  obtain w3 where w3: "client_read cd peer agreed (orders 2) ?log ?rreq w2 = Some (Inr ?blue, w3)"
    "kw_lines w3 = [info write_path [1, 2, 3], info read_path [1, 2, 3], info read_path [1, 2, 3]]" "at_rest (Suc 6) (?S # replicate 2 ?S) w3"
    using reads_done(2) [where req = ?rreq and peer = peer, OF cd w2(3) ord(3) log(1,3,2)] by (auto simp: blue w2(2) three)
  let ?node = "nc_with_interceptor client_log (node_context False (cfg_nodes cfg ! 0))"
  have node: "nc_cancel ?node = False" "run (nc_interceptors ?node) \<lparr>ci_method = p, ci_node_ids = [nid (nc_node ?node)], ci_metadata = nc_metadata ?node\<rparr> lines
      = (Inr (), lines @ [info p [1]])" for p lines
    by (simp_all add: nc_with_interceptor_def node_context_def client_log_def info_def first_id)
  obtain w4 where w4: "client_rpc cd peer ?node ?rreq w3 = Some (Inr ?blue, w4)"
    "kw_lines w4 = [info write_path [1, 2, 3], info read_path [1, 2, 3], info read_path [1, 2, 3], info read_path [1]]"
    "at_rest (3 + 3) (replicate 3 ?S) w4"
    using rpc_done [where req = ?rreq and peer = peer, OF cd w3(3) node] by (auto simp: blue w3(2) three)
  let ?meta = "cc_with_metadata ''user'' ''alice'' (cc_with_metadata ''trace-id'' ''req-42'' (config_context False cfg))
    :: (bool, call_info list interceptor) config_context"
  obtain w5 where w5: "client_write cd peer (orders 3) ?meta \<lparr>wq_key = ''traced-key'', wq_value = ''traced-value''\<rparr> w4 = Some (Inr (), w5)"
    "kw_lines w5 = kw_lines w4" "at_rest (0 + 3) (replicate 3 ?T) w5"
    using write_done [where req = "\<lparr>wq_key = ''traced-key'', wq_value = ''traced-value''\<rparr>" and peer = peer and ctx = ?meta and lines = "kw_lines w4",
        OF cd w4(3) ord(4)] cfg(2)
    by (auto simp: after_write_def cc_with_metadata_def config_context_def)
  let ?cancel = "cc_with_cancel True (config_context False cfg) :: (bool, call_info list interceptor) config_context"
  obtain w6 where w6: "client_read cd peer read_majority (orders 4) ?cancel ?rreq w5 = Some (Inl Cancelled, w6)"
    "kw_lines w6 = kw_lines w5" "at_rest 0 (replicate 3 ?T) w6"
    using reads_done(3) [where req = ?rreq and peer = peer and ctx = ?cancel and lines = "kw_lines w5", OF cd w5(3) ord(5)] cfg(2)
    by (auto simp: cc_with_cancel_def config_context_def)
  have "kv_session cd peer orders cfg w0 = Some \<lparr>ko_size = 3, ko_majority = ?blue, ko_agreed = ?blue, ko_single = ?blue,
      ko_cancelled = Inl Cancelled, ko_world = w6\<rparr>"
    using cfg(2) by (simp add: kv_session_def w1(1) w2(1) [simplified] w3(1) w4(1) w5(1) w6(1) config_size_def)
  moreover have "map kn_store (kw_nodes w6) = replicate 3 ?T" using w6(3) by (simp add: at_rest_def)
  ultimately show ?thesis
    using w4(2) w5(2) w6(2) by (simp add: info_def)
qed

section \<open>Properties\<close>

text \<open>
  C26. What \<^verbatim>\<open>main\<close> of \<^verbatim>\<open>examples/key_value.rs\<close> prints. If the three addresses parse to distinct socket
  addresses and the codec is faithful, then whatever order the nodes answer in the program runs to its
  end: three nodes are connected, the majority read, the agreed read and the read from one node return
  \<open>blue\<close> as found, the cancelled read reports the cancellation, the client's interceptor saw the four calls
  that carry it and no other, and every store holds the two keys that were written.
\<close>

theorem kv_main_prints:
  assumes "map sock (map local_addr PORTS) = map Some norms" and "distinct norms" and "codec_ok cd"
    and "ready 16 chs" and "\<forall>c < 5. any_order (orders c)"
  shows "\<exists>out. kv_main sock cd peer orders chs = Some out \<and> ko_size out = 3
    \<and> ko_majority out = \<lparr>rr_ok = True, rr_value = ''blue''\<rparr> \<and> ko_agreed out = \<lparr>rr_ok = True, rr_value = ''blue''\<rparr>
    \<and> ko_single out = \<lparr>rr_ok = True, rr_value = ''blue''\<rparr> \<and> ko_cancelled out = Inl Cancelled
    \<and> map ci_method (kw_lines (ko_world out)) = [write_path, read_path, read_path, read_path]
    \<and> map ci_node_ids (kw_lines (ko_world out)) = [[1, 2, 3], [1, 2, 3], [1, 2, 3], [1]]
    \<and> map kn_store (kw_nodes (ko_world out)) = replicate 3 [''color'' \<mapsto> ''blue'', ''traced-key'' \<mapsto> ''traced-value'']"
proof -
  have "length (map local_addr PORTS) < 2 ^ 32 - 1" by (simp add: PORTS_def)
  then obtain cfg mgr where add: "add_node_list sock (map local_addr PORTS) (manager_new, runtime_new :: unit runtime) = (Some (Inr cfg), mgr)"
    using first_configuration_exists [OF assms(1,2)] by blast
  have cfg: "node_ids cfg = [1, 2, 3]" "length (cfg_nodes cfg) = 3"
    using first_configuration [OF add] by (simp_all add: PORTS_def config_size_def upt_rec)
  define nodes where "nodes = replicate 3 \<lparr>kn_store = Map.empty, kn_interceptors = [server_log], kn_lines = []\<rparr>"
  have spawn: "those (map (\<lambda>port. kv_spawn_node sock port Map.empty) PORTS) = Some nodes"
    using assms(1) by (auto simp: PORTS_def those_Some_iff kv_spawn_node_def nodes_def numeral_3_eq_3 split: option.splits)
  have "at_rest (13 + 3) (replicate 3 Map.empty) \<lparr>kw_lines = [], kw_chans = chs, kw_nodes = nodes\<rparr>"
    using assms(4) by (simp add: at_rest_def nodes_def serves_def list_all_iff)
  from session_done [OF cfg assms(3) this _ assms(5), of peer] obtain w where
    "kv_session cd peer orders cfg \<lparr>kw_lines = [], kw_chans = chs, kw_nodes = nodes\<rparr> =
      Some \<lparr>ko_size = 3, ko_majority = \<lparr>rr_ok = True, rr_value = ''blue''\<rparr>, ko_agreed = \<lparr>rr_ok = True, rr_value = ''blue''\<rparr>,
        ko_single = \<lparr>rr_ok = True, rr_value = ''blue''\<rparr>, ko_cancelled = Inl Cancelled, ko_world = w\<rparr>"
    "map ci_method (kw_lines w) = [write_path, read_path, read_path, read_path]"
    "map ci_node_ids (kw_lines w) = [[1, 2, 3], [1, 2, 3], [1, 2, 3], [1]]"
    "map kn_store (kw_nodes w) = replicate 3 [''color'' \<mapsto> ''blue'', ''traced-key'' \<mapsto> ''traced-value'']"
    by auto
  then show ?thesis
    by (simp add: kv_main_def spawn add)
qed


text \<open>A codec: characters as bytes, and the length of the key in front of a write.\<close>

definition bytes :: "string \<Rightarrow> u8 list" where
  "bytes = map (\<lambda>c. of_nat (of_char c))"

definition chars :: "u8 list \<Rightarrow> string" where
  "chars = map (\<lambda>b. char_of (unat b))"

lemma chars_bytes: "chars (bytes s) = s"
proof -
  have "char_of (unat (of_nat (of_char c) :: u8)) = c" for c
  proof -
    have "of_char c < (256 :: nat)" by (cases c) (auto simp: of_char_def)
    then have "unat (of_nat (of_char c) :: u8) = of_char c" by (simp add: unsigned_of_nat take_bit_nat_eq_self)
    then show ?thesis by simp
  qed
  then show ?thesis by (simp add: chars_def bytes_def comp_def map_idI)
qed

definition demo_codec :: kv_codec where
  "demo_codec = \<lparr>enc_read = (\<lambda>r. bytes (rq_key r)), dec_read = (\<lambda>bs. Inr \<lparr>rq_key = chars bs\<rparr>),
     enc_write = (\<lambda>w. replicate (length (wq_key w)) 1 @ 0 # bytes (wq_key w) @ bytes (wq_value w)),
     dec_write = (\<lambda>bs. let n = length (takeWhile (\<lambda>b. b = 1) bs); s = chars (drop (Suc n) bs) in Inr \<lparr>wq_key = take n s, wq_value = drop n s\<rparr>),
     enc_resp = (\<lambda>r. (if rr_ok r then 1 else 0) # bytes (rr_value r)),
     dec_resp = (\<lambda>bs. case bs of [] \<Rightarrow> Inl ''empty'' | b # bs \<Rightarrow> Inr \<lparr>rr_ok = (b = 1), rr_value = chars bs\<rparr>)\<rparr>"

lemma demo_codec_ok: "codec_ok demo_codec"
proof -
  have "length (takeWhile (\<lambda>b. b = 1) (replicate n (1 :: u8) @ 0 # bs)) = n" for n bs
    by (induction n) simp_all
  moreover have "chars (xs @ ys) = chars xs @ chars ys" "length (bytes s) = length s" for xs ys s
    by (simp_all add: chars_def bytes_def)
  ultimately show ?thesis
    by (auto simp: codec_ok_def demo_codec_def chars_bytes Let_def)
qed

theorem kv_main_prints_witness:
  "\<exists>out. kv_main Some demo_codec None (\<lambda>_. [2, 0, 1]) (\<lambda>_. connect router_new) = Some out
    \<and> ko_majority out = \<lparr>rr_ok = True, rr_value = ''blue''\<rparr> \<and> ko_cancelled out = Inl Cancelled
    \<and> map kn_store (kw_nodes (ko_world out)) = replicate 3 [''color'' \<mapsto> ''blue'', ''traced-key'' \<mapsto> ''traced-value'']"
proof -
  have "map Some (map local_addr PORTS) = map Some (map local_addr PORTS)" "distinct (map local_addr PORTS)"
    by (simp_all add: PORTS_def local_addr_inj)
  moreover have "ready 16 (\<lambda>_. connect router_new)"
    by (simp add: ready_def connect_def task_alive_def)
  moreover have "\<forall>c < 5. any_order ((\<lambda>_. [2, 0, 1]) (c :: nat))"
    by (auto simp: any_order_def)
  ultimately show ?thesis
    using kv_main_prints [OF _ _ demo_codec_ok, of Some "map local_addr PORTS" "\<lambda>_. connect router_new" "\<lambda>_. [2, 0, 1]" None] by blast
qed

end
