(* ===== verification/Epaxos_State.thy ===== *)
theory Epaxos_State
  imports Quorums_Prelude
begin

text \<open>
  \<^verbatim>\<open>examples/epaxos/replica.rs\<close>: the state of an EPaxos replica and the operations that compute the
  attributes of a command. An \<^verbatim>\<open>i32\<close> is an integer with its overflow checks written out; the outer
  option is the panic (which also poisons the mutex around the state). The operation of a command, an
  open protobuf enumeration, is the datatype of its three declared values; numbers outside it, which the
  clients of the example never send, are not represented.
\<close>

type_synonym i32 = int

definition in_i32 :: "int \<Rightarrow> bool" where
  "in_i32 x \<longleftrightarrow> - (2 ^ 31) \<le> x \<and> x < 2 ^ 31"

definition checked_i32 :: "int \<Rightarrow> i32 option" where
  "checked_i32 x = (if in_i32 x then Some x else None)"

text \<open>\<^verbatim>\<open>x as usize\<close> of an \<^verbatim>\<open>i32\<close> and \<^verbatim>\<open>x as i32\<close> of a \<^verbatim>\<open>usize\<close>.\<close>

definition as_usize :: "i32 \<Rightarrow> nat" where
  "as_usize x = nat (x mod 2 ^ 64)"

definition as_i32 :: "nat \<Rightarrow> i32" where
  "as_i32 k = (int k + 2 ^ 31) mod 2 ^ 32 - 2 ^ 31"

section \<open>Data\<close>

definition NONE :: i32 where "NONE = 0"
definition PREACCEPTED :: i32 where "PREACCEPTED = 1"
definition PREACCEPTED_EQ :: i32 where "PREACCEPTED_EQ = 2"
definition ACCEPTED :: i32 where "ACCEPTED = 3"
definition COMMITTED :: i32 where "COMMITTED = 4"

lemmas status_defs = NONE_def PREACCEPTED_def PREACCEPTED_EQ_def ACCEPTED_def COMMITTED_def

datatype operation = Nop | Put | Get

record command =
  c_op :: operation
  c_key :: string
  c_value :: string

record instance_rec =
  i_cmds :: "command list"
  i_seq :: i32
  i_deps :: "i32 list"
  i_status :: i32
  i_ballot :: i32

definition instance_new :: "nat \<Rightarrow> instance_rec" where
  "instance_new n = \<lparr>i_cmds = [], i_seq = 0, i_deps = replicate n (- 1), i_status = NONE, i_ballot = 0\<rparr>"

record conflict_entry =
  ce_max_seq :: i32
  ce_deps :: "i32 list"

record replica_inner =
  r_id :: nat
  r_n :: nat
  r_cur_slot :: i32
  r_instances :: "instance_rec list list"
  r_executed :: "bool list list"
  r_conflicts :: "string \<Rightarrow> conflict_entry option"
  r_store :: "string \<Rightarrow> string option"

definition replica_inner_new :: "nat \<Rightarrow> nat \<Rightarrow> replica_inner" where
  "replica_inner_new i n = \<lparr>r_id = i, r_n = n, r_cur_slot = 0, r_instances = replicate n [],
     r_executed = replicate n [], r_conflicts = Map.empty, r_store = Map.empty\<rparr>"

section \<open>Operations\<close>

text \<open>
  A negative slot is a huge index: the loop then pushes until the allocation fails, which does not
  return.
\<close>

definition ensure_slot :: "nat \<Rightarrow> i32 \<Rightarrow> replica_inner \<Rightarrow> replica_inner option" where
  "ensure_slot r slot st =
     (if length (r_instances st) \<le> r \<or> length (r_executed st) \<le> r \<or> slot < 0 then None
      else (let missing = Suc (nat slot) - length (r_instances st ! r)
            in Some (st\<lparr>r_instances := (r_instances st)[r := r_instances st ! r @ replicate missing (instance_new (r_n st))],
                        r_executed := (r_executed st)[r := r_executed st ! r @ replicate missing False]\<rparr>)))"

text \<open>
  The loop that raises a command's attributes above everything the conflict map knows about its keys.
\<close>

definition max_deps :: "nat \<Rightarrow> i32 list \<Rightarrow> i32 list \<Rightarrow> i32 list option" where
  "max_deps n deps known =
     (if length deps < n \<or> length known < n then None
      else Some (map (\<lambda>r. if r < n then max (deps ! r) (known ! r) else deps ! r) [0..<length deps]))"

fun raise_attrs ::
  "nat \<Rightarrow> (string \<Rightarrow> conflict_entry option) \<Rightarrow> command list \<Rightarrow> i32 \<times> i32 list \<Rightarrow> (i32 \<times> i32 list) option" where
  "raise_attrs n conflicts [] attrs = Some attrs"
| "raise_attrs n conflicts (cmd # cmds) (sq, deps) =
     (if c_key cmd = [] then raise_attrs n conflicts cmds (sq, deps)
      else case conflicts (c_key cmd) of
        None \<Rightarrow> raise_attrs n conflicts cmds (sq, deps)
      | Some entry \<Rightarrow> do {
          above \<leftarrow> checked_i32 (ce_max_seq entry + 1);
          deps' \<leftarrow> max_deps n deps (ce_deps entry);
          raise_attrs n conflicts cmds (max sq above, deps')
        })"

text \<open>The loop that records a command in the conflict map.\<close>

fun record_conflicts ::
  "nat \<Rightarrow> nat \<Rightarrow> i32 \<Rightarrow> i32 \<Rightarrow> command list \<Rightarrow> (string \<Rightarrow> conflict_entry option)
   \<Rightarrow> (string \<Rightarrow> conflict_entry option) option" where
  "record_conflicts n r slot sq [] conflicts = Some conflicts"
| "record_conflicts n r slot sq (cmd # cmds) conflicts =
     (if c_key cmd = [] then record_conflicts n r slot sq cmds conflicts
      else (let entry = (case conflicts (c_key cmd) of Some e \<Rightarrow> e
                         | None \<Rightarrow> \<lparr>ce_max_seq = 0, ce_deps = replicate n (- 1)\<rparr>)
            in if length (ce_deps entry) \<le> r then None
               else record_conflicts n r slot sq cmds (conflicts(c_key cmd \<mapsto>
                 \<lparr>ce_max_seq = max (ce_max_seq entry) sq,
                  ce_deps = (ce_deps entry)[r := max (ce_deps entry ! r) slot]\<rparr>))))"

text \<open>A command must not depend on itself.\<close>

definition cap_self :: "nat \<Rightarrow> i32 \<Rightarrow> i32 list \<Rightarrow> i32 list option" where
  "cap_self r slot deps =
     (if length deps \<le> r then None
      else if slot \<le> deps ! r then map_option (\<lambda>below. deps[r := below]) (checked_i32 (slot - 1))
      else Some deps)"

definition start_proposal ::
  "command list \<Rightarrow> replica_inner \<Rightarrow> ((i32 \<times> i32 \<times> i32 list) \<times> replica_inner) option" where
  "start_proposal cmds st = (let slot = r_cur_slot st in do {
     next \<leftarrow> checked_i32 (slot + 1);
     (sq, deps) \<leftarrow> raise_attrs (r_n st) (r_conflicts st) cmds (1, replicate (r_n st) (- 1));
     conflicts \<leftarrow> record_conflicts (r_n st) (r_id st) slot sq cmds (r_conflicts st);
     deps' \<leftarrow> cap_self (r_id st) slot deps;
     Some ((slot, sq, deps'), st\<lparr>r_cur_slot := next, r_conflicts := conflicts\<rparr>)
   })"

fun apply_cmds :: "command list \<Rightarrow> (string \<Rightarrow> string option) \<Rightarrow> string \<Rightarrow> string option" where
  "apply_cmds [] kv = kv"
| "apply_cmds (cmd # cmds) kv =
     apply_cmds cmds (case c_op cmd of Put \<Rightarrow> kv(c_key cmd \<mapsto> c_value cmd) | Get \<Rightarrow> kv | Nop \<Rightarrow> kv)"

end
