(* ===== verification/Epaxos_Executor.thy ===== *)
theory Epaxos_Executor
  imports Epaxos_State
begin

text \<open>
  \<^verbatim>\<open>execute_all_ready\<close> of \<^verbatim>\<open>examples/epaxos/replica.rs\<close>: which committed instances can run, and in
  which order. The iteration order of the \<^verbatim>\<open>HashSet\<close> of ready instances and
  \<^verbatim>\<open>petgraph::algo::tarjan_scc\<close> are parameters; what is documented of them is stated as
  \<open>iteration_ok\<close> and \<open>tarjan_ok\<close> below.
\<close>

type_synonym key = "nat \<times> i32"

section \<open>Steps 1 and 2: pending and ready instances\<close>

definition lookup :: "'a list list \<Rightarrow> nat \<Rightarrow> nat \<Rightarrow> 'a option" where
  "lookup xss r s = (if r < length xss \<and> s < length (xss ! r) then Some (xss ! r ! s) else None)"

text \<open>
  The scan for committed, unexecuted instances; an index out of bounds panics. The upper end of the
  slot range is the length as an \<^verbatim>\<open>i32\<close>.
\<close>

fun scan_slots :: "replica_inner \<Rightarrow> nat \<Rightarrow> i32 list \<Rightarrow> key list option" where
  "scan_slots st r [] = Some []"
| "scan_slots st r (slot # slots) = do {
     ex \<leftarrow> lookup (r_executed st) r (as_usize slot);
     hit \<leftarrow> (if ex then Some False
             else map_option (\<lambda>i. i_status i = COMMITTED) (lookup (r_instances st) r (as_usize slot)));
     rest \<leftarrow> scan_slots st r slots;
     Some (if hit then (r, slot) # rest else rest)
   }"

fun scan_replicas :: "replica_inner \<Rightarrow> nat list \<Rightarrow> key list option" where
  "scan_replicas st [] = Some []"
| "scan_replicas st (r # rs) =
     (if length (r_instances st) \<le> r then None
      else do {
        here \<leftarrow> scan_slots st r [0..as_i32 (length (r_instances st ! r)) - 1];
        rest \<leftarrow> scan_replicas st rs;
        Some (here @ rest)
      })"

definition pending :: "replica_inner \<Rightarrow> key list option" where
  "pending st = scan_replicas st [0..<r_n st]"

text \<open>The dependencies read in one turn of the search: \<^verbatim>\<open>for dep_r in 0..n\<close>, those that are not negative.\<close>

definition dep_keys :: "nat \<Rightarrow> i32 list \<Rightarrow> key list option" where
  "dep_keys n deps = (if length deps < n then None
     else Some (map (\<lambda>r. (r, deps ! r)) (filter (\<lambda>r. 0 \<le> deps ! r) [0..<n])))"

text \<open>
  The depth-first search of step 2. The stack is a list with its top first; the result is whether the
  root is ready, \<open>None\<close> a panic.
\<close>

definition cells :: "replica_inner \<Rightarrow> key set" where
  "cells st = {(r, s). r < length (r_executed st) \<and> 0 \<le> s \<and> s < int (length (r_executed st ! r))}
     \<union> {(r, s). r < length (r_instances st) \<and> 0 \<le> s \<and> s < int (length (r_instances st ! r))}"

lemma finite_table: "finite {(r, s). r < length xss \<and> 0 \<le> s \<and> s < int (length (xss ! r))}"
proof -
  have "{(r, s). r < length xss \<and> 0 \<le> s \<and> s < int (length (xss ! r))}
      = Sigma {r. r < length xss} (\<lambda>r. {0..<int (length (xss ! r))})" by auto
  then show ?thesis by simp
qed

lemma finite_cells: "finite (cells st)"
  using finite_table [of "r_executed st"] finite_table [of "r_instances st"] by (simp add: cells_def)

function (sequential) ready_search :: "replica_inner \<Rightarrow> key list \<Rightarrow> key set \<Rightarrow> bool option" where
  "ready_search st [] visited = Some True"
| "ready_search st ((dr, ds) # stack) visited =
     (if ds < 0 then ready_search st stack visited
      else if (dr, ds) \<in> visited then ready_search st stack visited
      else if length (r_executed st) \<le> dr then None
      else if lookup (r_executed st) dr (nat ds) = Some True then ready_search st stack (insert (dr, ds) visited)
      else if length (r_instances st) \<le> dr then None
      else case lookup (r_instances st) dr (nat ds) of
        None \<Rightarrow> Some False
      | Some inst \<Rightarrow>
          (if i_status inst < COMMITTED then Some False
           else case dep_keys (r_n st) (i_deps inst) of
             None \<Rightarrow> None
           | Some deps \<Rightarrow> ready_search st (rev deps @ stack) (insert (dr, ds) visited)))"
  by pat_completeness auto

lemma cells_lookup:
  "lookup (r_executed st) r (nat s) = Some b \<Longrightarrow> \<not> s < 0 \<Longrightarrow> (r, s) \<in> cells st"
  "lookup (r_instances st) r (nat s) = Some i \<Longrightarrow> \<not> s < 0 \<Longrightarrow> (r, s) \<in> cells st"
  by (auto simp: lookup_def cells_def split: if_splits)

lemma visit_decreases: "k \<in> cells st \<Longrightarrow> k \<notin> visited \<Longrightarrow> card (cells st - insert k visited) < card (cells st - visited)"
  by (rule psubset_card_mono) (auto simp: finite_cells)

termination ready_search
proof (relation "measures [\<lambda>(st, stack, visited). card (cells st - visited), \<lambda>(st, stack, visited). length stack]",
    goal_cases)
  case (4 st dr ds stack visited)
  then have "card (cells st - insert (dr, ds) visited) < card (cells st - visited)"
    by (intro visit_decreases cells_lookup(1))
  then show ?case by simp
next
  case (5 st dr ds stack visited inst deps)
  then have "card (cells st - insert (dr, ds) visited) < card (cells st - visited)"
    by (intro visit_decreases cells_lookup(2))
  then show ?case by simp
qed simp_all

fun ready_of :: "replica_inner \<Rightarrow> key list \<Rightarrow> key set option" where
  "ready_of st [] = Some {}"
| "ready_of st (k # ks) = do {
     ok \<leftarrow> ready_search st [k] {};
     rest \<leftarrow> ready_of st ks;
     Some (if ok then insert k rest else rest)
   }"

section \<open>Steps 3 and 4: the dependency graph and its components\<close>

fun key_edges :: "replica_inner \<Rightarrow> key list \<Rightarrow> key list \<Rightarrow> (key \<times> key) list option" where
  "key_edges st nodes [] = Some []"
| "key_edges st nodes ((r, slot) # ks) = do {
     inst \<leftarrow> lookup (r_instances st) r (as_usize slot);
     deps \<leftarrow> dep_keys (r_n st) (i_deps inst);
     rest \<leftarrow> key_edges st nodes ks;
     Some (map (\<lambda>b. ((r, slot), b)) (filter (\<lambda>b. b \<in> set nodes) deps) @ rest)
   }"

type_synonym scc_fn = "key list \<Rightarrow> (key \<times> key) list \<Rightarrow> key list list"

section \<open>Step 5: execution\<close>

text \<open>One group in ascending order of \<open>seq\<close>; \<^verbatim>\<open>sort_by_key\<close> is stable.\<close>

definition seq_of :: "replica_inner \<Rightarrow> key \<Rightarrow> i32" where
  "seq_of st k = (case lookup (r_instances st) (fst k) (as_usize (snd k)) of Some i \<Rightarrow> i_seq i | None \<Rightarrow> 0)"

definition exec_one :: "replica_inner \<Rightarrow> key \<Rightarrow> replica_inner option" where
  "exec_one st k = (let r = fst k; s = as_usize (snd k) in do {
     ex \<leftarrow> lookup (r_executed st) r s;
     if ex then Some st
     else do {
       inst \<leftarrow> lookup (r_instances st) r s;
       Some (st\<lparr>r_store := apply_cmds (i_cmds inst) (r_store st),
                r_executed := (r_executed st)[r := (r_executed st ! r)[s := True]]\<rparr>)
     }
   })"

fun exec_keys :: "replica_inner \<Rightarrow> key list \<Rightarrow> replica_inner option" where
  "exec_keys st [] = Some st"
| "exec_keys st (k # ks) = do { st' \<leftarrow> exec_one st k; exec_keys st' ks }"

text \<open>The order in which the groups are run.\<close>

definition exec_order :: "replica_inner \<Rightarrow> key list list \<Rightarrow> key list" where
  "exec_order st sccs = concat (map (\<lambda>group. sort_key (seq_of st) group) sccs)"

definition execute_plan ::
  "(key set \<Rightarrow> key list) \<Rightarrow> scc_fn \<Rightarrow> replica_inner \<Rightarrow> key list option" where
  "execute_plan iter tarjan_scc st = do {
     pend \<leftarrow> pending st;
     ready \<leftarrow> ready_of st pend;
     if ready = {} then Some []
     else do {
       edges \<leftarrow> key_edges st (iter ready) (iter ready);
       Some (exec_order st (tarjan_scc (iter ready) edges))
     }
   }"

definition execute_all_ready ::
  "(key set \<Rightarrow> key list) \<Rightarrow> scc_fn \<Rightarrow> replica_inner \<Rightarrow> replica_inner option" where
  "execute_all_ready iter tarjan_scc st = do {
     order \<leftarrow> execute_plan iter tarjan_scc st;
     exec_keys st order
   }"

section \<open>The replica's tables\<close>

text \<open>Keys are treated as atoms below.\<close>

declare split_paired_All [simp del] split_paired_Ex [simp del]

text \<open>
  The representation invariant: one table per replica, instances and execution flags of equal length,
  a status no later than committed, and a dependency for every replica in each committed instance.
  Slots are 32-bit, and a full table would make the scan's upper bound wrap, so tables stay below that.
\<close>

definition inst_ok :: "nat \<Rightarrow> instance_rec \<Rightarrow> bool" where
  "inst_ok n i \<longleftrightarrow> i_status i \<le> COMMITTED \<and> (i_status i = COMMITTED \<longrightarrow> n \<le> length (i_deps i))"

definition tables_ok :: "replica_inner \<Rightarrow> bool" where
  "tables_ok st \<longleftrightarrow> length (r_instances st) = r_n st \<and> length (r_executed st) = r_n st
     \<and> (\<forall>r < r_n st. length (r_executed st ! r) = length (r_instances st ! r)
          \<and> length (r_instances st ! r) < 2 ^ 31 \<and> list_all (inst_ok (r_n st)) (r_instances st ! r))"

definition executed_at :: "replica_inner \<Rightarrow> key \<Rightarrow> bool" where
  "executed_at st k \<longleftrightarrow> 0 \<le> snd k \<and> lookup (r_executed st) (fst k) (nat (snd k)) = Some True"

definition instance_at :: "replica_inner \<Rightarrow> key \<Rightarrow> instance_rec option" where
  "instance_at st k = (if 0 \<le> snd k then lookup (r_instances st) (fst k) (nat (snd k)) else None)"

definition committed_at :: "replica_inner \<Rightarrow> key \<Rightarrow> bool" where
  "committed_at st k \<longleftrightarrow> (\<exists>i. instance_at st k = Some i \<and> i_status i = COMMITTED)"

text \<open>\<open>needs st a b\<close>: the committed, unexecuted instance \<open>a\<close> depends on \<open>b\<close>.\<close>

definition needs :: "replica_inner \<Rightarrow> key \<Rightarrow> key \<Rightarrow> bool" where
  "needs st a b \<longleftrightarrow> \<not> executed_at st a \<and> committed_at st a
     \<and> (\<exists>i ds. instance_at st a = Some i \<and> dep_keys (r_n st) (i_deps i) = Some ds \<and> b \<in> set ds)"

text \<open>The specification of step 2: everything needed, directly or not, is executed or committed.\<close>

definition runnable :: "replica_inner \<Rightarrow> key \<Rightarrow> bool" where
  "runnable st k \<longleftrightarrow> (\<forall>b. (needs st)\<^sup>*\<^sup>* k b \<longrightarrow> executed_at st b \<or> committed_at st b)"

lemma dep_keys_props: "dep_keys n deps = Some ds \<Longrightarrow> k \<in> set ds \<Longrightarrow> fst k < n \<and> 0 \<le> snd k"
  by (auto simp: dep_keys_def split: if_splits)

lemma needs_key: "needs st a b \<Longrightarrow> fst b < r_n st \<and> 0 \<le> snd b"
  by (auto simp: needs_def dest: dep_keys_props)

lemma instance_at_ok:
  assumes "tables_ok st" "instance_at st k = Some i"
  shows "inst_ok (r_n st) i" and "fst k < r_n st" and "0 \<le> snd k"
  using assms
  by (auto simp: tables_ok_def instance_at_def lookup_def list_all_iff split: if_splits)

section \<open>The search decides readiness\<close>

definition search_inv :: "replica_inner \<Rightarrow> key set \<Rightarrow> key set \<Rightarrow> bool" where
  "search_inv st V S \<longleftrightarrow>
     (\<forall>a \<in> V. (executed_at st a \<or> committed_at st a) \<and> (\<forall>b. needs st a b \<longrightarrow> b \<in> V \<union> S))"

text \<open>One turn of the search on a key that is on the board and not yet visited.\<close>

lemma search_step:
  assumes "tables_ok st" "0 \<le> ds" "dr < r_n st" "(dr, ds) \<notin> visited"
  shows "ready_search st ((dr, ds) # stack) visited =
    (if executed_at st (dr, ds) then ready_search st stack (insert (dr, ds) visited)
     else if \<not> committed_at st (dr, ds) then Some False
     else case instance_at st (dr, ds) of
       Some i \<Rightarrow> (case dep_keys (r_n st) (i_deps i) of
         Some deps \<Rightarrow> ready_search st (rev deps @ stack) (insert (dr, ds) visited) | None \<Rightarrow> None)
     | None \<Rightarrow> None)"
proof -
  have "i_status i \<le> COMMITTED" if "lookup (r_instances st) dr (nat ds) = Some i" for i
    using instance_at_ok(1) [OF assms(1), of "(dr, ds)" i] that assms(2) by (simp add: instance_at_def inst_ok_def)
  then have "i_status i < COMMITTED \<longleftrightarrow> i_status i \<noteq> COMMITTED" if "lookup (r_instances st) dr (nat ds) = Some i" for i
    using that by fastforce
  with assms show ?thesis
    by (auto simp: executed_at_def committed_at_def instance_at_def tables_ok_def split: option.splits)
qed

definition on_board :: "replica_inner \<Rightarrow> key list \<Rightarrow> bool" where
  "on_board st stack \<longleftrightarrow> (\<forall>k \<in> set stack. 0 \<le> snd k \<longrightarrow> fst k < r_n st)"

lemma on_board_deps: "dep_keys (r_n st) deps = Some ds \<Longrightarrow> on_board st (rev ds @ stack) \<longleftrightarrow> on_board st stack"
  using dep_keys_props by (fastforce simp: on_board_def)

lemma ready_search_induct [consumes 2, case_names finish skip executed blocked expand]:
  assumes t: "tables_ok st" and b: "on_board st stack"
    and finish: "\<And>V. P [] V"
    and skip: "\<And>k S V. snd k < 0 \<or> k \<in> V \<Longrightarrow> ready_search st (k # S) V = ready_search st S V \<Longrightarrow> P S V \<Longrightarrow> P (k # S) V"
    and executed: "\<And>k S V. executed_at st k \<Longrightarrow> ready_search st (k # S) V = ready_search st S (insert k V) \<Longrightarrow>
      P S (insert k V) \<Longrightarrow> P (k # S) V"
    and blocked: "\<And>k S V. \<not> executed_at st k \<Longrightarrow> \<not> committed_at st k \<Longrightarrow> ready_search st (k # S) V = Some False \<Longrightarrow> P (k # S) V"
    and expand: "\<And>k S V ds. \<not> executed_at st k \<Longrightarrow> committed_at st k \<Longrightarrow> (\<And>b. b \<in> set ds \<longleftrightarrow> needs st k b) \<Longrightarrow>
      ready_search st (k # S) V = ready_search st (rev ds @ S) (insert k V) \<Longrightarrow> P (rev ds @ S) (insert k V) \<Longrightarrow> P (k # S) V"
  shows "P stack visited"
proof -
  have "st' = st \<Longrightarrow> on_board st S \<Longrightarrow> P S V" for st' S V
  proof (induction st' S V rule: ready_search.induct)
    case (1 st' V)
    show ?case by (rule finish)
  next
    case (2 st' dr ds S V)
    have st': "st' = st" and bS: "on_board st S" and k: "0 \<le> ds \<Longrightarrow> dr < r_n st"
      using 2(5,6) by (auto simp: on_board_def)
    show ?case
    proof (cases "ds < 0 \<or> (dr, ds) \<in> V")
      case True
      then show ?thesis using 2(1,2) st' bS by (intro skip) auto
    next
      case False
      then have k': "0 \<le> ds" "dr < r_n st" "(dr, ds) \<notin> V" using k by auto
      have len: "\<not> length (r_executed st) \<le> dr" "\<not> length (r_instances st) \<le> dr"
        using t k'(2) by (auto simp: tables_ok_def)
      note step = search_step [OF t k', of S]
      consider (ex) "executed_at st (dr, ds)" | (no) "\<not> executed_at st (dr, ds)" "\<not> committed_at st (dr, ds)"
        | (com) "\<not> executed_at st (dr, ds)" "committed_at st (dr, ds)" by blast
      then show ?thesis
      proof cases
        case ex
        then have "lookup (r_executed st) dr (nat ds) = Some True" by (simp add: executed_at_def)
        then have "P S (insert (dr, ds) V)" using 2(3) k' len st' bS by auto
        with ex step show ?thesis by (intro executed) auto
      next
        case no
        with step show ?thesis by (intro blocked) auto
      next
        case com
        then obtain i where i: "instance_at st (dr, ds) = Some i" "i_status i = COMMITTED" by (auto simp: committed_at_def)
        then obtain ds' where ds': "dep_keys (r_n st) (i_deps i) = Some ds'"
          using instance_at_ok(1) [OF t i(1)] by (auto simp: inst_ok_def dep_keys_def)
        have "lookup (r_instances st) dr (nat ds) = Some i" "lookup (r_executed st) dr (nat ds) \<noteq> Some True"
          using i(1) com(1) k'(1) by (auto simp: instance_at_def executed_at_def)
        then have "P (rev ds' @ S) (insert (dr, ds) V)"
          using 2(4) k' len i(2) ds' st' bS on_board_deps [OF ds'] by auto
        moreover have "b \<in> set ds' \<longleftrightarrow> needs st (dr, ds) b" for b
          using com i ds' by (auto simp: needs_def)
        ultimately show ?thesis using com i ds' step by (intro expand [of "(dr, ds)" ds']) auto
      qed
    qed
  qed
  with b show ?thesis by blast
qed

lemma search_total: "tables_ok st \<Longrightarrow> on_board st stack \<Longrightarrow> ready_search st stack visited \<noteq> None"
  by (induction stack visited rule: ready_search_induct) auto

lemma search_sound:
  assumes "tables_ok st" "on_board st stack" "ready_search st stack visited = Some True"
    and "search_inv st visited (set stack)"
  shows "\<exists>V. visited \<subseteq> V \<and> {k \<in> set stack. 0 \<le> snd k} \<subseteq> V \<and> search_inv st V {}"
  using assms
proof (induction stack visited rule: ready_search_induct)
  case (finish V)
  then show ?case by auto
next
  case (skip k S V)
  have "search_inv st V (set S)"
    unfolding search_inv_def
  proof (intro ballI conjI allI impI)
    fix a b assume "a \<in> V" "needs st a b"
    then have "b \<in> V \<union> set (k # S)" "0 \<le> snd b"
      using skip.prems(2) needs_key [of st a b] unfolding search_inv_def by blast+
    then show "b \<in> V \<union> set S" using skip.hyps(1) by auto
  qed (use skip.prems(2) in \<open>simp add: search_inv_def\<close>)
  with skip.IH skip.prems(1) skip.hyps(2) obtain V' where
    "V \<subseteq> V'" "{k \<in> set S. 0 \<le> snd k} \<subseteq> V'" "search_inv st V' {}" by auto
  with skip.hyps(1) show ?case by (intro exI [of _ V']) auto
next
  case (executed k S V)
  have "search_inv st (insert k V) (set S)"
    using executed.hyps(1) executed.prems(2) by (auto simp: search_inv_def needs_def)
  with executed.IH executed.prems(1) executed.hyps(2) obtain V' where
    "insert k V \<subseteq> V'" "{k \<in> set S. 0 \<le> snd k} \<subseteq> V'" "search_inv st V' {}" by auto
  then show ?case by (intro exI [of _ V']) auto
next
  case (expand k S V ds)
  have "search_inv st (insert k V) (set (rev ds @ S))"
    using expand.hyps expand.prems(2) by (auto simp: search_inv_def)
  with expand.IH expand.prems(1) expand.hyps(4) obtain V' where
    "insert k V \<subseteq> V'" "{k \<in> set (rev ds @ S). 0 \<le> snd k} \<subseteq> V'" "search_inv st V' {}" by auto
  then show ?case by (intro exI [of _ V']) auto
qed simp

lemma search_complete:
  assumes "tables_ok st" "on_board st stack" "ready_search st stack visited = Some False"
  shows "\<exists>a \<in> set stack. \<exists>b. (needs st)\<^sup>*\<^sup>* a b \<and> \<not> executed_at st b \<and> \<not> committed_at st b"
  using assms
proof (induction stack visited rule: ready_search_induct)
  case (blocked k S V)
  then show ?case by (intro bexI [of _ k] exI [of _ k]) auto
next
  case (expand k S V ds)
  then obtain a b where "a \<in> set (rev ds @ S)" "(needs st)\<^sup>*\<^sup>* a b" "\<not> executed_at st b" "\<not> committed_at st b"
    by metis
  with expand.hyps(3) show ?case
    by (cases "a \<in> set S") (auto intro: converse_rtranclp_into_rtranclp)
qed auto

lemma search_decides:
  assumes t: "tables_ok st" and k: "fst k < r_n st" "0 \<le> snd k"
  shows "ready_search st [k] {} = Some (runnable st k)"
proof -
  have b: "on_board st [k]" using k by (simp add: on_board_def)
  show ?thesis
  proof (cases "ready_search st [k] {}")
    case None
    with search_total [OF t b, of "{}"] show ?thesis by simp
  next
    case (Some ok)
    have "runnable st k" if ok
    proof -
      have "search_inv st {} (set [k])" by (simp add: search_inv_def)
      with Some that search_sound [OF t b, of "{}"] k(2) obtain V where "k \<in> V" and V: "search_inv st V {}" by auto
      have "b \<in> V" if "(needs st)\<^sup>*\<^sup>* k b" for b
        using that by induction (use \<open>k \<in> V\<close> V in \<open>auto simp: search_inv_def\<close>)
      with V show ?thesis unfolding runnable_def search_inv_def by blast
    qed
    moreover have "\<not> runnable st k" if "\<not> ok"
      using search_complete [OF t b, of "{}"] Some that by (auto simp: runnable_def)
    ultimately show ?thesis using Some by auto
  qed
qed

section \<open>The pending scan\<close>

lemma as_usize_slot [simp]: "0 \<le> s \<Longrightarrow> s < 2 ^ 31 \<Longrightarrow> as_usize s = nat s"
  by (simp add: as_usize_def)

lemma as_i32_len [simp]: "k < 2 ^ 31 \<Longrightarrow> as_i32 k = int k"
  by (simp add: as_i32_def)

definition waits :: "replica_inner \<Rightarrow> key \<Rightarrow> bool" where
  "waits st k \<longleftrightarrow> committed_at st k \<and> \<not> executed_at st k"

lemma scan_slots_eq:
  assumes t: "tables_ok st" and r: "r < r_n st"
  shows "set slots \<subseteq> {0..<int (length (r_instances st ! r))} \<Longrightarrow>
    scan_slots st r slots = Some (filter (waits st) (map (Pair r) slots))"
proof (induction slots)
  case (Cons s slots)
  have len: "length (r_instances st ! r) < 2 ^ 31" "length (r_executed st ! r) = length (r_instances st ! r)"
    "length (r_instances st) = r_n st" "length (r_executed st) = r_n st"
    using t r by (auto simp: tables_ok_def)
  have s: "0 \<le> s" "nat s < length (r_instances st ! r)" using Cons.prems by auto
  then have "as_usize s = nat s" using len(1) by (intro as_usize_slot) auto
  then show ?case
    using Cons s len r by (auto simp: lookup_def waits_def committed_at_def executed_at_def instance_at_def)
qed simp

lemma scan_replicas_eq:
  assumes t: "tables_ok st"
  shows "set rs \<subseteq> {..<r_n st} \<Longrightarrow> scan_replicas st rs =
    Some (filter (waits st) (concat (map (\<lambda>r. map (Pair r) [0..int (length (r_instances st ! r)) - 1]) rs)))"
proof (induction rs)
  case (Cons r rs)
  then have r: "r < r_n st" by simp
  moreover have "length (r_instances st) = r_n st" "length (r_instances st ! r) < 2 ^ 31"
    using t r by (auto simp: tables_ok_def)
  moreover have "scan_slots st r [0..int (length (r_instances st ! r)) - 1] =
      Some (filter (waits st) (map (Pair r) [0..int (length (r_instances st ! r)) - 1]))"
    by (rule scan_slots_eq [OF t r]) auto
  ultimately show ?case using Cons by simp
qed simp

lemma distinct_table:
  "distinct rs \<Longrightarrow> (\<And>r. distinct (f r)) \<Longrightarrow> distinct (concat (map (\<lambda>r. map (Pair r) (f r)) rs))"
  by (induction rs) (auto simp: distinct_map inj_on_def)

lemma pending_eq:
  assumes t: "tables_ok st"
  obtains ps where "pending st = Some ps" "distinct ps" "set ps = {k. waits st k}"
proof -
  let ?ps = "filter (waits st) (concat (map (\<lambda>r. map (Pair r) [0..int (length (r_instances st ! r)) - 1]) [0..<r_n st]))"
  have "pending st = Some ?ps"
    unfolding pending_def by (rule scan_replicas_eq [OF t]) auto
  moreover have "set ?ps = {k. waits st k}"
  proof -
    have "k \<in> set ?ps" if "waits st k" for k
    proof -
      obtain i where i: "instance_at st k = Some i" using \<open>waits st k\<close> by (auto simp: waits_def committed_at_def)
      note instance_at_ok [OF t i]
      moreover from i have "nat (snd k) < length (r_instances st ! fst k)"
        by (auto simp: instance_at_def lookup_def split: if_splits)
      ultimately show ?thesis using that by (cases k) force
    qed
    then show ?thesis by auto
  qed
  moreover have "distinct ?ps"
    by (intro distinct_filter distinct_table) auto
  ultimately show thesis using that by blast
qed

definition ready_keys :: "replica_inner \<Rightarrow> key set" where
  "ready_keys st = {k. waits st k \<and> runnable st k}"

lemma ready_of_eq:
  assumes t: "tables_ok st"
  shows "(\<And>k. k \<in> set ks \<Longrightarrow> waits st k) \<Longrightarrow> ready_of st ks = Some {k \<in> set ks. runnable st k}"
proof (induction ks)
  case (Cons k ks)
  have "waits st k" by (rule Cons.prems) simp
  then obtain i where "instance_at st k = Some i" by (auto simp: waits_def committed_at_def)
  from instance_at_ok [OF t this] have "ready_search st [k] {} = Some (runnable st k)"
    by (intro search_decides [OF t])
  moreover have "ready_of st ks = Some {k \<in> set ks. runnable st k}"
    by (rule Cons.IH) (rule Cons.prems, simp)
  ultimately show ?case by auto
qed simp

lemma ready_closed:
  assumes "a \<in> ready_keys st" "needs st a b"
  shows "executed_at st b \<or> b \<in> ready_keys st"
proof -
  have "runnable st b"
    using assms unfolding ready_keys_def runnable_def by (blast intro: converse_rtranclp_into_rtranclp)
  moreover have "executed_at st b \<or> committed_at st b"
    using assms unfolding ready_keys_def runnable_def by blast
  ultimately show ?thesis by (auto simp: ready_keys_def waits_def)
qed

lemma finite_ready: "tables_ok st \<Longrightarrow> finite (ready_keys st)"
  by (erule pending_eq) (auto simp: ready_keys_def intro: finite_subset [of _ "set _"])

section \<open>The dependency graph and the order of its components\<close>

lemma seq_of_at: "tables_ok st \<Longrightarrow> instance_at st k = Some i \<Longrightarrow> lookup (r_instances st) (fst k) (as_usize (snd k)) = Some i"
proof -
  assume t: "tables_ok st" and i: "instance_at st k = Some i"
  from i have "0 \<le> snd k" "nat (snd k) < length (r_instances st ! fst k)" "fst k < length (r_instances st)"
    by (auto simp: instance_at_def lookup_def split: if_splits)
  moreover from this t have "length (r_instances st ! fst k) < 2 ^ 31" by (auto simp: tables_ok_def)
  ultimately have "as_usize (snd k) = nat (snd k)" by (intro as_usize_slot) auto
  with i \<open>0 \<le> snd k\<close> show ?thesis by (simp add: instance_at_def)
qed

lemma key_edges_eq:
  assumes t: "tables_ok st"
  shows "(\<And>k. k \<in> set ks \<Longrightarrow> waits st k) \<Longrightarrow>
    \<exists>E. key_edges st nodes ks = Some E \<and> set E = {(a, b). a \<in> set ks \<and> b \<in> set nodes \<and> needs st a b}"
proof (induction ks)
  case (Cons k ks)
  have w: "waits st k" by (rule Cons.prems) simp
  then obtain i where i: "instance_at st k = Some i" "i_status i = COMMITTED" by (auto simp: waits_def committed_at_def)
  then obtain ds where ds: "dep_keys (r_n st) (i_deps i) = Some ds"
    using instance_at_ok(1) [OF t i(1)] by (auto simp: inst_ok_def dep_keys_def)
  have "\<exists>E. key_edges st nodes ks = Some E \<and> set E = {(a, b). a \<in> set ks \<and> b \<in> set nodes \<and> needs st a b}"
    by (rule Cons.IH) (rule Cons.prems, simp)
  then obtain E where E: "key_edges st nodes ks = Some E"
    "set E = {(a, b). a \<in> set ks \<and> b \<in> set nodes \<and> needs st a b}" by blast
  have "key_edges st nodes (k # ks) = Some (map (Pair k) (filter (\<lambda>b. b \<in> set nodes) ds) @ E)"
    using seq_of_at [OF t i(1)] ds E(1) by (cases k) (auto simp: comp_def)
  moreover have "b \<in> set ds \<longleftrightarrow> needs st k b" for b
    using w i ds by (auto simp: needs_def waits_def)
  ultimately show ?case using E(2) by auto
qed simp

text \<open>
  What is documented of \<^verbatim>\<open>tarjan_scc\<close> for one call: the groups are the strongly connected
  components, and no edge leads from a group to a later one.
\<close>

definition scc_ok :: "key list \<Rightarrow> (key \<times> key) list \<Rightarrow> key list list \<Rightarrow> bool" where
  "scc_ok nodes edges cs \<longleftrightarrow> distinct (concat cs) \<and> set (concat cs) = set nodes
     \<and> (\<forall>g \<in> set cs. \<forall>a \<in> set g. \<forall>b \<in> set nodes. b \<in> set g \<longleftrightarrow> (a, b) \<in> (set edges)\<^sup>* \<and> (b, a) \<in> (set edges)\<^sup>*)
     \<and> (\<forall>i < length cs. \<forall>j < length cs. \<forall>a \<in> set (cs ! i). \<forall>b \<in> set (cs ! j). (a, b) \<in> set edges \<longrightarrow> j \<le> i)"

definition before :: "'a list \<Rightarrow> 'a \<Rightarrow> 'a \<Rightarrow> bool" where
  "before xs a b \<longleftrightarrow> (\<exists>us vs. xs = us @ vs \<and> a \<in> set us \<and> b \<in> set vs)"

lemma before_concat:
  assumes "j < i" "i < length xss" "a \<in> set (xss ! j)" "b \<in> set (xss ! i)"
  shows "before (concat xss) a b"
proof -
  have "concat xss = concat (take i xss) @ concat (drop i xss)"
    by (metis append_take_drop_id concat_append)
  moreover have "a \<in> set (concat (take i xss))"
    using assms by (auto simp: in_set_conv_nth intro!: bexI [of _ "xss ! j"]) (metis (no_types) in_set_conv_nth length_take min.absorb4 nth_take order.strict_trans)
  moreover have "b \<in> set (concat (drop i xss))"
    using assms by (auto simp: Cons_nth_drop_Suc [symmetric])
  ultimately show ?thesis unfolding before_def by blast
qed

lemma before_sorted:
  assumes "a \<in> set xs" "b \<in> set xs" "f a < f b"
  shows "before (sort_key f xs) a b"
proof -
  let ?ys = "sort_key f xs"
  obtain us vs where ys: "?ys = us @ b # vs" using assms(2) split_list [of b ?ys] by auto
  have "sorted (map f ?ys)" by simp
  then have "\<forall>x \<in> set vs. f b \<le> f x" unfolding ys by (simp add: sorted_append)
  moreover have "a \<in> set ?ys" using assms(1) by simp
  ultimately have "a \<in> set us" using assms(3) ys by force
  then show ?thesis unfolding before_def ys by (intro exI [of _ us] exI [of _ "b # vs"]) simp
qed

lemma before_concat_group:
  assumes "g < length xss" "before (xss ! g) a b"
  shows "before (concat xss) a b"
proof -
  obtain us vs where g: "xss ! g = us @ vs" "a \<in> set us" "b \<in> set vs" using assms(2) by (auto simp: before_def)
  have "concat xss = (concat (take g xss) @ us) @ vs @ concat (drop (Suc g) xss)"
    using id_take_nth_drop [OF assms(1)] g(1) by (metis append.assoc concat.simps(2) concat_append)
  with g show ?thesis unfolding before_def by (metis Un_iff set_append)
qed

lemma exec_order_props:
  assumes ok: "scc_ok nodes edges cs"
  shows "distinct (exec_order st cs)" and "set (exec_order st cs) = set nodes"
    and "(a, b) \<in> set edges \<Longrightarrow> a \<in> set nodes \<Longrightarrow> b \<in> set nodes \<Longrightarrow> (b, a) \<notin> (set edges)\<^sup>* \<Longrightarrow> before (exec_order st cs) b a"
    and "a \<in> set nodes \<Longrightarrow> b \<in> set nodes \<Longrightarrow> (a, b) \<in> (set edges)\<^sup>* \<Longrightarrow> (b, a) \<in> (set edges)\<^sup>* \<Longrightarrow>
      seq_of st a < seq_of st b \<Longrightarrow> before (exec_order st cs) a b"
proof -
  let ?cs = "map (sort_key (seq_of st)) cs"
  have mset: "mset (exec_order st cs) = mset (concat cs)"
    unfolding exec_order_def by (induction cs) simp_all
  then show "distinct (exec_order st cs)" "set (exec_order st cs) = set nodes"
    using ok mset_eq_imp_distinct_iff [OF mset] mset_eq_setD [OF mset] by (simp_all add: scc_ok_def)
  have group: "\<exists>i < length cs. k \<in> set (cs ! i)" if "k \<in> set nodes" for k
    using ok that unfolding scc_ok_def by (metis in_set_conv_nth UN_E set_concat)
  {
    assume e: "(a, b) \<in> set edges" "a \<in> set nodes" "b \<in> set nodes" "(b, a) \<notin> (set edges)\<^sup>*"
    obtain i j where ij: "i < length cs" "a \<in> set (cs ! i)" "j < length cs" "b \<in> set (cs ! j)" using group e by blast
    then have "j \<le> i" using ok e(1) unfolding scc_ok_def by blast
    moreover have "i \<noteq> j"
    proof
      assume "i = j"
      with ij ok e(2,3) have "(b, a) \<in> (set edges)\<^sup>*" unfolding scc_ok_def by (metis nth_mem)
      with e(4) show False by simp
    qed
    ultimately show "before (exec_order st cs) b a"
      unfolding exec_order_def using ij by (intro before_concat [of j i]) auto
  }
  assume s: "a \<in> set nodes" "b \<in> set nodes" "(a, b) \<in> (set edges)\<^sup>*" "(b, a) \<in> (set edges)\<^sup>*" "seq_of st a < seq_of st b"
  obtain i where i: "i < length cs" "a \<in> set (cs ! i)" using group s(1) by blast
  with ok s have "b \<in> set (cs ! i)" unfolding scc_ok_def by (metis nth_mem)
  with i s(5) show "before (exec_order st cs) a b"
    unfolding exec_order_def by (intro before_concat_group [of i]) (simp_all add: before_sorted)
qed

section \<open>Execution\<close>

lemma lookup_update:
  assumes "lookup xss r s = Some x"
  shows "lookup (xss[r := (xss ! r)[s := y]]) r' s' = (if r' = r \<and> s' = s then Some y else lookup xss r' s')"
  using assms by (auto simp: lookup_def nth_list_update split: if_splits)

lemma exec_one_waits:
  assumes t: "tables_ok st" and i: "instance_at st k = Some i" and n: "\<not> executed_at st k"
  shows "\<exists>st'. exec_one st k = Some st' \<and> tables_ok st' \<and> r_instances st' = r_instances st \<and> r_n st' = r_n st
    \<and> r_store st' = apply_cmds (i_cmds i) (r_store st) \<and> (\<forall>k'. executed_at st' k' \<longleftrightarrow> executed_at st k' \<or> k' = k)"
proof -
  let ?r = "fst k" and ?s = "as_usize (snd k)"
  let ?st = "st\<lparr>r_store := apply_cmds (i_cmds i) (r_store st),
      r_executed := (r_executed st)[?r := (r_executed st ! ?r)[?s := True]]\<rparr>"
  note inst = seq_of_at [OF t i] and ok = instance_at_ok [OF t i]
  have s: "?s = nat (snd k)"
  proof -
    have "nat (snd k) < length (r_instances st ! ?r)" using i by (auto simp: instance_at_def lookup_def split: if_splits)
    moreover have "length (r_instances st ! ?r) < 2 ^ 31" using t ok by (auto simp: tables_ok_def)
    ultimately show ?thesis using ok by (intro as_usize_slot) auto
  qed
  have ex: "lookup (r_executed st) ?r ?s = Some False"
    using inst n t ok s by (auto simp: lookup_def executed_at_def tables_ok_def split: if_splits)
  have "exec_one st k = Some ?st" using ex inst by (simp add: exec_one_def Let_def)
  moreover have "tables_ok ?st" using t ok(2) by (auto simp: tables_ok_def nth_list_update)
  moreover have "executed_at ?st k' \<longleftrightarrow> executed_at st k' \<or> k' = k" for k'
    using lookup_update [OF ex, of True "fst k'" "nat (snd k')"] ok(3) s
    by (auto simp: executed_at_def prod_eq_iff)
  ultimately show ?thesis by (intro exI [of _ ?st]) simp
qed

definition run_keys :: "replica_inner \<Rightarrow> key list \<Rightarrow> (string \<Rightarrow> string option) \<Rightarrow> string \<Rightarrow> string option" where
  "run_keys st ks kv = fold (\<lambda>k. apply_cmds (case instance_at st k of Some i \<Rightarrow> i_cmds i | None \<Rightarrow> [])) ks kv"

lemma exec_keys_effect:
  assumes "tables_ok st" "distinct ks" "\<And>k. k \<in> set ks \<Longrightarrow> waits st k"
  shows "\<exists>st'. exec_keys st ks = Some st' \<and> tables_ok st' \<and> r_instances st' = r_instances st
    \<and> r_store st' = run_keys st ks (r_store st) \<and> (\<forall>k. executed_at st' k \<longleftrightarrow> executed_at st k \<or> k \<in> set ks)"
  using assms
proof (induction ks arbitrary: st)
  case (Cons k ks)
  have "waits st k" by (rule Cons.prems(3)) simp
  then obtain i where i: "instance_at st k = Some i" "i_status i = COMMITTED" "\<not> executed_at st k"
    by (auto simp: waits_def committed_at_def)
  obtain st1 where st1: "exec_one st k = Some st1" "tables_ok st1" "r_instances st1 = r_instances st"
    "r_store st1 = apply_cmds (i_cmds i) (r_store st)" "\<forall>k'. executed_at st1 k' \<longleftrightarrow> executed_at st k' \<or> k' = k"
    using exec_one_waits [OF Cons.prems(1) i(1,3)] by blast
  have same: "instance_at st1 k' = instance_at st k'" for k' using st1(3) by (simp add: instance_at_def)
  have w: "waits st1 k'" if "k' \<in> set ks" for k'
  proof -
    have "waits st k'" "k' \<noteq> k" using Cons.prems that by auto
    then show ?thesis using st1(5) same by (simp add: waits_def committed_at_def)
  qed
  obtain st' where "exec_keys st1 ks = Some st'" "tables_ok st'" "r_instances st' = r_instances st1"
    "r_store st' = run_keys st1 ks (r_store st1)" "\<forall>k. executed_at st' k \<longleftrightarrow> executed_at st1 k \<or> k \<in> set ks"
    using Cons.IH [OF st1(2) _ w] Cons.prems(2) by auto
  moreover have "run_keys st1 ks kv = run_keys st ks kv" for kv by (simp add: run_keys_def same)
  moreover have "run_keys st (k # ks) (r_store st) = run_keys st ks (r_store st1)"
    using i(1) st1(4) by (simp add: run_keys_def)
  ultimately show ?case using st1 by (intro exI [of _ st']) auto
qed (simp add: run_keys_def)

lemma ready_path:
  assumes "(needs st)\<^sup>*\<^sup>* a b" "a \<in> ready_keys st" "b \<in> ready_keys st"
    and E: "E = {(x, y). x \<in> ready_keys st \<and> y \<in> ready_keys st \<and> needs st x y}"
  shows "(a, b) \<in> E\<^sup>*"
  using assms(1,2)
proof (induction rule: converse_rtranclp_induct)
  case (step x y)
  have "\<not> executed_at st y"
  proof (cases "y = b")
    case True
    then show ?thesis using assms(3) by (simp add: ready_keys_def waits_def)
  next
    case False
    with step.hyps(2) obtain z where "needs st y z" by (auto elim: converse_rtranclpE)
    then show ?thesis by (simp add: needs_def)
  qed
  with ready_closed [OF step.prems step.hyps(1)] have "y \<in> ready_keys st" by blast
  with step show ?case by (auto simp: E intro: converse_rtrancl_into_rtrancl)
qed simp

lemma edges_path: "(a, b) \<in> {(x, y). P x y \<and> needs st x y}\<^sup>* \<Longrightarrow> (needs st)\<^sup>*\<^sup>* a b"
  by (induction rule: rtrancl_induct) (auto intro: rtranclp.rtrancl_into_rtrancl)

section \<open>The plan\<close>

lemma execute_plan_eq:
  assumes t: "tables_ok st" and "distinct (iter (ready_keys st))" and it: "set (iter (ready_keys st)) = ready_keys st"
  shows "\<exists>E. key_edges st (iter (ready_keys st)) (iter (ready_keys st)) = Some E
    \<and> set E = {(a, b). a \<in> ready_keys st \<and> b \<in> ready_keys st \<and> needs st a b}
    \<and> execute_plan iter tarjan_scc st =
        Some (if ready_keys st = {} then [] else exec_order st (tarjan_scc (iter (ready_keys st)) E))"
proof -
  obtain ps where ps: "pending st = Some ps" "distinct ps" "set ps = {k. waits st k}"
    by (rule pending_eq [OF t])
  have "ready_of st ps = Some {k \<in> set ps. runnable st k}" by (rule ready_of_eq [OF t]) (use ps in simp)
  moreover have "{k \<in> set ps. runnable st k} = ready_keys st" using ps by (auto simp: ready_keys_def)
  ultimately have r: "ready_of st ps = Some (ready_keys st)" by simp
  have "\<exists>E. key_edges st (iter (ready_keys st)) (iter (ready_keys st)) = Some E
      \<and> set E = {(a, b). a \<in> set (iter (ready_keys st)) \<and> b \<in> set (iter (ready_keys st)) \<and> needs st a b}"
    by (rule key_edges_eq [OF t]) (use it in \<open>simp add: ready_keys_def\<close>)
  with ps r it show ?thesis by (auto simp: execute_plan_def)
qed

lemma ready_set:
  assumes t: "tables_ok st"
  shows "\<exists>ps. pending st = Some ps \<and> distinct ps \<and> set ps = {k. waits st k} \<and> ready_of st ps = Some (ready_keys st)"
proof -
  obtain ps where ps: "pending st = Some ps" "distinct ps" "set ps = {k. waits st k}"
    by (rule pending_eq [OF t])
  moreover have "ready_of st ps = Some {k \<in> set ps. runnable st k}" by (rule ready_of_eq [OF t]) (use ps in simp)
  moreover have "{k \<in> set ps. runnable st k} = ready_keys st" using ps by (auto simp: ready_keys_def)
  ultimately show ?thesis by simp
qed

text \<open>
  The parameters behave as documented for one state: the set is iterated without repetition, and the
  groups are the components of the graph that was built.
\<close>

definition params_ok :: "(key set \<Rightarrow> key list) \<Rightarrow> scc_fn \<Rightarrow> replica_inner \<Rightarrow> bool" where
  "params_ok iter tarjan_scc st \<longleftrightarrow>
     distinct (iter (ready_keys st)) \<and> set (iter (ready_keys st)) = ready_keys st
     \<and> (\<forall>E. key_edges st (iter (ready_keys st)) (iter (ready_keys st)) = Some E \<longrightarrow>
          scc_ok (iter (ready_keys st)) E (tarjan_scc (iter (ready_keys st)) E))"

lemma execute_plan_order:
  assumes t: "tables_ok st" and p: "params_ok iter tarjan_scc st"
  obtains order where "execute_plan iter tarjan_scc st = Some order" "distinct order" "set order = ready_keys st"
    and "\<And>a b. a \<in> set order \<Longrightarrow> needs st a b \<Longrightarrow>
      executed_at st b \<or> (b \<in> set order \<and> (before order b a \<or> (needs st)\<^sup>*\<^sup>* b a))"
    and "\<And>a b. a \<in> set order \<Longrightarrow> b \<in> set order \<Longrightarrow> (needs st)\<^sup>*\<^sup>* a b \<Longrightarrow> (needs st)\<^sup>*\<^sup>* b a \<Longrightarrow>
      seq_of st a < seq_of st b \<Longrightarrow> before order a b"
proof -
  let ?R = "ready_keys st" and ?ns = "iter (ready_keys st)"
  have ns: "distinct ?ns" "set ?ns = ?R" using p by (simp_all add: params_ok_def)
  obtain E where E: "key_edges st ?ns ?ns = Some E" "set E = {(a, b). a \<in> ?R \<and> b \<in> ?R \<and> needs st a b}"
    and plan: "execute_plan iter tarjan_scc st = Some (if ?R = {} then [] else exec_order st (tarjan_scc ?ns E))"
    using execute_plan_eq [where iter = iter, OF t ns] by blast
  have scc: "scc_ok ?ns E (tarjan_scc ?ns E)" using p E(1) by (simp add: params_ok_def)
  let ?o = "exec_order st (tarjan_scc ?ns E)"
  note order = exec_order_props [where st = st, OF scc, unfolded ns(2)]
  have "?R = {} \<Longrightarrow> ?o = []" using order(2) by simp
  then have "execute_plan iter tarjan_scc st = Some ?o" using plan by auto
  moreover have "executed_at st b \<or> (b \<in> set ?o \<and> (before ?o b a \<or> (needs st)\<^sup>*\<^sup>* b a))"
    if "a \<in> set ?o" "needs st a b" for a b
  proof (cases "executed_at st b")
    case False
    have "a \<in> ?R" using that(1) order(2) by simp
    with False that(2) ready_closed [of a st b] have R: "a \<in> ?R" "b \<in> ?R" by blast+
    then have e: "(a, b) \<in> set E" using that(2) E(2) by simp
    have "(b, a) \<in> (set E)\<^sup>* \<Longrightarrow> (needs st)\<^sup>*\<^sup>* b a"
      unfolding E(2) using edges_path [of b a "\<lambda>x y. x \<in> ?R \<and> y \<in> ?R"] by (simp add: conj_assoc)
    with order(2,3) e R show ?thesis by blast
  qed simp
  moreover have "before ?o a b"
    if "a \<in> set ?o" "b \<in> set ?o" "(needs st)\<^sup>*\<^sup>* a b" "(needs st)\<^sup>*\<^sup>* b a" "seq_of st a < seq_of st b" for a b
    using that order(2) by (intro order(4)) (auto intro!: ready_path [of st, OF _ _ _ E(2)])
  ultimately show thesis using order(1,2) by (intro that)
qed

section \<open>Properties\<close>

text \<open>
  C16. The executor's search is exact: the pending list holds each committed, unexecuted instance once,
  the depth-first search ends without a panic on each of them, and it declares ready exactly those
  whose whole transitive dependency closure is executed or committed.
\<close>

theorem ready_set_exact:
  assumes "tables_ok st"
  shows "\<exists>ps. pending st = Some ps \<and> distinct ps
    \<and> set ps = {k. committed_at st k \<and> \<not> executed_at st k}
    \<and> ready_of st ps = Some {k \<in> set ps. \<forall>b. (needs st)\<^sup>*\<^sup>* k b \<longrightarrow> executed_at st b \<or> committed_at st b}"
proof -
  obtain ps where ps: "pending st = Some ps" "distinct ps" "set ps = {k. waits st k}" "ready_of st ps = Some (ready_keys st)"
    using ready_set [OF assms] by blast
  then have "ready_keys st = {k \<in> set ps. \<forall>b. (needs st)\<^sup>*\<^sup>* k b \<longrightarrow> executed_at st b \<or> committed_at st b}"
    by (auto simp: ready_keys_def runnable_def)
  with ps show ?thesis by (simp add: waits_def)
qed

text \<open>
  C17. Execution respects dependencies: for every instance run, each dependency was executed before the
  call or is run in the same call, and then earlier, unless the two depend on each other; and within a
  cycle the instance with the smaller \<open>seq\<close> runs first.
\<close>

theorem execution_order:
  assumes "tables_ok st" and "params_ok iter tarjan_scc st"
  shows "\<exists>order. execute_plan iter tarjan_scc st = Some order \<and> distinct order \<and> set order = ready_keys st
    \<and> (\<forall>a b. a \<in> set order \<and> needs st a b \<longrightarrow>
         executed_at st b \<or> (b \<in> set order \<and> (before order b a \<or> (needs st)\<^sup>*\<^sup>* b a)))
    \<and> (\<forall>a b. a \<in> set order \<and> b \<in> set order \<and> (needs st)\<^sup>*\<^sup>* a b \<and> (needs st)\<^sup>*\<^sup>* b a \<and> seq_of st a < seq_of st b \<longrightarrow>
         before order a b)"
  by (rule execute_plan_order [OF assms]) blast

lemma execute_all_ready_effect:
  assumes t: "tables_ok st" and p: "params_ok iter tarjan_scc st"
  obtains order st' where "execute_plan iter tarjan_scc st = Some order" "execute_all_ready iter tarjan_scc st = Some st'"
    "set order = ready_keys st" "tables_ok st'" "r_instances st' = r_instances st"
    "r_store st' = run_keys st order (r_store st)" "\<And>k. executed_at st' k \<longleftrightarrow> executed_at st k \<or> k \<in> ready_keys st"
proof (rule execute_plan_order [OF t p])
  fix order
  assume plan: "execute_plan iter tarjan_scc st = Some order" and o: "distinct order" "set order = ready_keys st"
  have "\<exists>st'. exec_keys st order = Some st' \<and> tables_ok st' \<and> r_instances st' = r_instances st
    \<and> r_store st' = run_keys st order (r_store st) \<and> (\<forall>k. executed_at st' k \<longleftrightarrow> executed_at st k \<or> k \<in> set order)"
    by (rule exec_keys_effect [OF t o(1)]) (use o(2) in \<open>simp add: ready_keys_def\<close>)
  then show thesis using that plan o(2) by (auto simp: execute_all_ready_def)
qed

lemma no_key_left:
  assumes ex: "\<And>k. executed_at st' k \<longleftrightarrow> executed_at st k \<or> k \<in> ready_keys st"
    and inst: "r_instances st' = r_instances st" and n: "r_n st' = r_n st"
  shows "ready_keys st' = {}"
proof (rule ccontr)
  assume "ready_keys st' \<noteq> {}"
  then obtain k where k: "k \<in> ready_keys st'" by blast
  have com: "committed_at st' = committed_at st" and ia: "instance_at st' = instance_at st"
    using inst by (simp_all add: committed_at_def instance_at_def fun_eq_iff)
  have run: "(needs st')\<^sup>*\<^sup>* k y \<or> runnable st y" if "(needs st)\<^sup>*\<^sup>* k y" for y
    using that
  proof induction
    case (step y z)
    show ?case
    proof (cases "y \<in> ready_keys st \<or> runnable st y")
      case True
      then have "runnable st y" by (auto simp: ready_keys_def)
      then have "runnable st z" using step.hyps(2) unfolding runnable_def by (blast intro: converse_rtranclp_into_rtranclp)
      then show ?thesis by simp
    next
      case False
      then have "needs st' y z" using step.hyps(2) ex [of y] by (simp add: needs_def com ia n)
      with step.IH False show ?thesis by (auto intro: rtranclp.rtrancl_into_rtrancl)
    qed
  qed simp
  have "executed_at st b \<or> committed_at st b" if "(needs st)\<^sup>*\<^sup>* k b" for b
  proof -
    from run [OF that] show ?thesis
    proof
      assume "(needs st')\<^sup>*\<^sup>* k b"
      then have "executed_at st' b \<or> committed_at st b" using k com by (auto simp: ready_keys_def runnable_def)
      then show ?thesis using ex [of b] by (auto simp: ready_keys_def waits_def)
    qed (auto simp: runnable_def)
  qed
  then have "runnable st k" by (simp add: runnable_def)
  with k have "k \<in> ready_keys st" using com ex [of k] by (auto simp: ready_keys_def waits_def)
  with k ex [of k] show False by (auto simp: ready_keys_def waits_def)
qed

lemma exec_keys_n: "exec_keys st ks = Some st' \<Longrightarrow> r_n st' = r_n st"
  by (induction ks arbitrary: st)
    (auto simp: exec_one_def Let_def split: bind_splits if_splits)

text \<open>
  C18. The executor runs everything it can, exactly once: it does not panic, it marks exactly the ready
  instances as executed and leaves the instances alone, the store is what applying their commands in
  the planned order gives, and afterwards no instance is ready, so running it again changes nothing.
\<close>

theorem executor_runs_all_once:
  assumes "tables_ok st" and "params_ok iter tarjan_scc st"
  shows "\<exists>order st'. execute_plan iter tarjan_scc st = Some order \<and> execute_all_ready iter tarjan_scc st = Some st'
    \<and> tables_ok st' \<and> r_instances st' = r_instances st \<and> r_store st' = run_keys st order (r_store st)
    \<and> (\<forall>k. executed_at st' k \<longleftrightarrow> executed_at st k \<or> k \<in> ready_keys st)
    \<and> ready_keys st' = {} \<and> (\<forall>iter' scc'. execute_all_ready iter' scc' st' = Some st')"
proof (rule execute_all_ready_effect [OF assms])
  fix order st'
  assume plan: "execute_plan iter tarjan_scc st = Some order" and run: "execute_all_ready iter tarjan_scc st = Some st'"
    and t: "tables_ok st'" and inst: "r_instances st' = r_instances st"
    and kv: "r_store st' = run_keys st order (r_store st)"
    and ex: "\<And>k. executed_at st' k \<longleftrightarrow> executed_at st k \<or> k \<in> ready_keys st"
  have "r_n st' = r_n st" using plan run by (auto simp: execute_all_ready_def dest: exec_keys_n)
  with ex inst have none: "ready_keys st' = {}" by (intro no_key_left)
  obtain ps where "pending st' = Some ps" "ready_of st' ps = Some {}" using ready_set [OF t] none by auto
  then have "execute_all_ready iter' scc' st' = Some st'" for iter' scc'
    by (simp add: execute_all_ready_def execute_plan_def)
  with plan run t inst kv ex none show ?thesis by blast
qed

section \<open>A cycle of two instances\<close>

definition cycle_inst :: "string \<Rightarrow> i32 list \<Rightarrow> instance_rec" where
  "cycle_inst v ds = \<lparr>i_cmds = [\<lparr>c_op = Put, c_key = ''k'', c_value = v\<rparr>], i_seq = 1, i_deps = ds,
     i_status = COMMITTED, i_ballot = 0\<rparr>"

definition cycle_st :: replica_inner where
  "cycle_st = (replica_inner_new 0 2)\<lparr>r_instances := [[cycle_inst ''a'' [- 1, 0]], [cycle_inst ''b'' [0, - 1]]],
     r_executed := [[False], [False]]\<rparr>"

definition one_group :: scc_fn where
  "one_group nodes edges = [nodes]"

lemma cycle_tables: "tables_ok cycle_st"
  by (auto simp: tables_ok_def cycle_st_def replica_inner_new_def cycle_inst_def inst_ok_def less_2_cases_iff)

lemma cycle_ready: "ready_keys cycle_st = {(0, 0), (1, 0)}"
proof -
  have "pending cycle_st = Some [(0, 0), (1, 0)]"
    by code_simp
  moreover have "ready_of cycle_st [(0, 0), (1, 0)] = Some {(0, 0), (1, 0)}"
    by code_simp
  ultimately show ?thesis using ready_set [OF cycle_tables] by auto
qed

lemma cycle_edges:
  "key_edges cycle_st [(0, 0), (1, 0)] [(0, 0), (1, 0)] = Some [((0, 0), (1, 0)), ((1, 0), (0, 0))]"
  "key_edges cycle_st [(1, 0), (0, 0)] [(1, 0), (0, 0)] = Some [((1, 0), (0, 0)), ((0, 0), (1, 0))]"
  by code_simp+

lemma cycle_scc: "x \<noteq> y \<Longrightarrow> scc_ok [x, y] [(x, y), (y, x)] [[x, y]]"
  by (auto simp: scc_ok_def intro: r_into_rtrancl)

lemma cycle_params:
  "params_ok (\<lambda>_. [(0, 0), (1, 0)]) one_group cycle_st" "params_ok (\<lambda>_. [(1, 0), (0, 0)]) one_group cycle_st"
  by (auto simp: params_ok_def cycle_ready cycle_edges one_group_def intro!: cycle_scc
      simp del: key_edges.simps One_nat_def)

theorem ready_set_exact_witness:
  "\<exists>ps. pending cycle_st = Some ps \<and> set ps = {k. committed_at cycle_st k \<and> \<not> executed_at cycle_st k}"
  using ready_set_exact [OF cycle_tables] by blast

theorem execution_order_witness:
  "\<exists>order. execute_plan (\<lambda>_. [(0, 0), (1, 0)]) one_group cycle_st = Some order \<and> distinct order \<and> set order = {(0, 0), (1, 0)}"
  using execution_order [OF cycle_tables cycle_params(1)] cycle_ready by auto

theorem executor_runs_all_once_witness:
  "\<exists>st'. execute_all_ready (\<lambda>_. [(0, 0), (1, 0)]) one_group cycle_st = Some st' \<and> ready_keys st' = {}"
  using executor_runs_all_once [OF cycle_tables cycle_params(1)] by blast

text \<open>
  Two replicas with the same committed instances can end with different stores: in a cycle of two
  instances with equal \<open>seq\<close> writing one key, the order, and so the final value, follows the iteration
  order of the hash set.
\<close>

theorem equal_seq_diverges:
  "\<exists>st it1 it2 scc st1 st2. tables_ok st \<and> params_ok it1 scc st \<and> params_ok it2 scc st
     \<and> execute_all_ready it1 scc st = Some st1 \<and> execute_all_ready it2 scc st = Some st2
     \<and> r_store st1 ''k'' = Some ''b'' \<and> r_store st2 ''k'' = Some ''a''"
proof -
  obtain st1 where "execute_all_ready (\<lambda>_. [(0, 0), (1, 0)]) one_group cycle_st = Some st1" "r_store st1 ''k'' = Some ''b''"
  proof -
    have "map_option (\<lambda>st. r_store st ''k'') (execute_all_ready (\<lambda>_. [(0, 0), (1, 0)]) one_group cycle_st) = Some (Some ''b'')"
      by code_simp
    then show thesis using that by auto
  qed
  moreover obtain st2 where "execute_all_ready (\<lambda>_. [(1, 0), (0, 0)]) one_group cycle_st = Some st2" "r_store st2 ''k'' = Some ''a''"
  proof -
    have "map_option (\<lambda>st. r_store st ''k'') (execute_all_ready (\<lambda>_. [(1, 0), (0, 0)]) one_group cycle_st) = Some (Some ''a'')"
      by code_simp
    then show thesis using that by auto
  qed
  ultimately show ?thesis using cycle_tables cycle_params by blast
qed

end
