(* ===== verification/Epaxos_Handlers.thy ===== *)
theory Epaxos_Handlers
  imports Epaxos_Executor
begin

text \<open>
  The message handlers of \<^verbatim>\<open>examples/epaxos/replica.rs\<close> and the messages of
  \<^verbatim>\<open>proto/epaxos.proto\<close>. Each handler runs under the mutex of the replica, so it is one atomic
  function of the state; \<open>None\<close> is a panic.
\<close>

section \<open>Messages\<close>

record pre_accept_request =
  pa_leader_id :: i32
  pa_replica :: i32
  pa_slot :: i32
  pa_ballot :: i32
  pa_seq :: i32
  pa_deps :: "i32 list"
  pa_cmds :: "command list"

record pre_accept_reply =
  par_replica :: i32
  par_slot :: i32
  par_status :: i32
  par_ballot :: i32
  par_seq :: i32
  par_deps :: "i32 list"
  par_committed_deps :: "i32 list"

record accept_request =
  ac_leader_id :: i32
  ac_replica :: i32
  ac_slot :: i32
  ac_ballot :: i32
  ac_seq :: i32
  ac_deps :: "i32 list"
  ac_cmds :: "command list"

record accept_reply =
  acr_replica :: i32
  acr_slot :: i32
  acr_ok :: bool
  acr_ballot :: i32

record commit_request =
  cm_leader_id :: i32
  cm_replica :: i32
  cm_slot :: i32
  cm_cmds :: "command list"
  cm_seq :: i32
  cm_deps :: "i32 list"

record prepare_request =
  pr_leader_id :: i32
  pr_replica :: i32
  pr_slot :: i32
  pr_ballot :: i32

record prepare_reply =
  prr_replica :: i32
  prr_slot :: i32
  prr_ok :: bool
  prr_ballot :: i32
  prr_status :: i32
  prr_seq :: i32
  prr_deps :: "i32 list"
  prr_cmds :: "command list"

record try_pre_accept_request =
  tp_leader_id :: i32
  tp_replica :: i32
  tp_slot :: i32
  tp_ballot :: i32
  tp_seq :: i32
  tp_deps :: "i32 list"
  tp_cmds :: "command list"

record try_pre_accept_reply =
  tpr_replica :: i32
  tpr_slot :: i32
  tpr_ok :: bool
  tpr_ballot :: i32
  tpr_conflict_replica :: i32
  tpr_conflict_slot :: i32

section \<open>Handlers\<close>

text \<open>\<^verbatim>\<open>Vec::resize(n, -1)\<close>.\<close>

definition resize :: "nat \<Rightarrow> i32 list \<Rightarrow> i32 list" where
  "resize n deps = take n deps @ replicate (n - length deps) (- 1)"

definition set_instance :: "nat \<Rightarrow> i32 \<Rightarrow> (instance_rec \<Rightarrow> instance_rec) \<Rightarrow> replica_inner \<Rightarrow> replica_inner" where
  "set_instance r slot f st =
     st\<lparr>r_instances := (r_instances st)[r := (r_instances st ! r)[nat slot := f (r_instances st ! r ! nat slot)]]\<rparr>"

definition handle_pre_accept_inner ::
  "pre_accept_request \<Rightarrow> replica_inner \<Rightarrow> (pre_accept_reply \<times> replica_inner) option" where
  "handle_pre_accept_inner req st = (let r = as_usize (pa_replica req); slot = pa_slot req; n = r_n st in do {
     st1 \<leftarrow> ensure_slot r slot st;
     (local_seq, raised) \<leftarrow> raise_attrs n (r_conflicts st1) (pa_cmds req) (pa_seq req, resize n (pa_deps req));
     local_deps \<leftarrow> cap_self r slot raised;
     conflicts \<leftarrow> record_conflicts n r slot local_seq (pa_cmds req) (r_conflicts st1);
     let st2 = set_instance r slot
           (\<lambda>inst. inst\<lparr>i_cmds := pa_cmds req, i_seq := local_seq, i_deps := local_deps,
              i_status := PREACCEPTED, i_ballot := pa_ballot req\<rparr>)
           (st1\<lparr>r_conflicts := conflicts\<rparr>);
         equal = (local_seq = pa_seq req \<and> local_deps = resize n (pa_deps req));
         reply_status = (if equal then PREACCEPTED_EQ else PREACCEPTED)
     in Some (\<lparr>par_replica = as_i32 (r_id st), par_slot = slot, par_status = reply_status, par_ballot = pa_ballot req,
          par_seq = local_seq, par_deps = local_deps, par_committed_deps = replicate n (- 1)\<rparr>, st2)
   })"

definition handle_accept_inner :: "accept_request \<Rightarrow> replica_inner \<Rightarrow> (accept_reply \<times> replica_inner) option" where
  "handle_accept_inner req st = (let r = as_usize (ac_replica req); slot = ac_slot req in do {
     st1 \<leftarrow> ensure_slot r slot st;
     Some (\<lparr>acr_replica = as_i32 (r_id st), acr_slot = slot, acr_ok = True, acr_ballot = ac_ballot req\<rparr>,
       set_instance r slot
         (\<lambda>inst. inst\<lparr>i_cmds := ac_cmds req, i_seq := ac_seq req, i_deps := ac_deps req,
            i_status := ACCEPTED, i_ballot := ac_ballot req\<rparr>) st1)
   })"

definition commit_instance :: "nat \<Rightarrow> i32 \<Rightarrow> command list \<Rightarrow> i32 \<Rightarrow> i32 list \<Rightarrow> replica_inner \<Rightarrow> replica_inner" where
  "commit_instance r slot cmds sq deps st =
     set_instance r slot (\<lambda>inst. inst\<lparr>i_cmds := cmds, i_seq := sq, i_deps := deps, i_status := COMMITTED\<rparr>) st"

definition handle_commit_inner ::
  "(key set \<Rightarrow> key list) \<Rightarrow> scc_fn \<Rightarrow> commit_request \<Rightarrow> replica_inner \<Rightarrow> replica_inner option" where
  "handle_commit_inner iter tarjan_scc req st = (let r = as_usize (cm_replica req); slot = cm_slot req in do {
     st1 \<leftarrow> ensure_slot r slot st;
     if COMMITTED \<le> i_status (r_instances st1 ! r ! nat slot) then Some st1
     else execute_all_ready iter tarjan_scc (commit_instance r slot (cm_cmds req) (cm_seq req) (cm_deps req) st1)
   })"

definition handle_prepare_inner :: "prepare_request \<Rightarrow> replica_inner \<Rightarrow> prepare_reply" where
  "handle_prepare_inner req st = (let r = as_usize (pr_replica req); slot = pr_slot req in
     (case lookup (r_instances st) r (as_usize slot) of
        None \<Rightarrow> \<lparr>prr_replica = as_i32 (r_id st), prr_slot = slot, prr_ok = True, prr_ballot = pr_ballot req,
          prr_status = NONE, prr_seq = 0, prr_deps = [], prr_cmds = []\<rparr>
      | Some inst \<Rightarrow> \<lparr>prr_replica = as_i32 (r_id st), prr_slot = slot, prr_ok = True, prr_ballot = pr_ballot req,
          prr_status = i_status inst, prr_seq = i_seq inst, prr_deps = i_deps inst, prr_cmds = i_cmds inst\<rparr>))"

text \<open>The search of \<^verbatim>\<open>handle_try_pre_accept_inner\<close> for a conflicting slot that the request does not cover.\<close>

fun conflict_in :: "try_pre_accept_request \<Rightarrow> i32 list \<Rightarrow> nat list \<Rightarrow> (i32 \<times> i32) option option" where
  "conflict_in req known [] = Some None"
| "conflict_in req known (dep_r # rs) =
     (if length known \<le> dep_r then None
      else (let known_slot = known ! dep_r;
                covered = (if dep_r < length (tp_deps req) then tp_deps req ! dep_r else - 1)
            in if known_slot < 0 then conflict_in req known rs
               else if covered < known_slot \<and> \<not> (dep_r = as_usize (tp_replica req) \<and> known_slot = tp_slot req)
               then Some (Some (as_i32 dep_r, known_slot))
               else conflict_in req known rs))"

fun find_conflict ::
  "try_pre_accept_request \<Rightarrow> nat \<Rightarrow> (string \<Rightarrow> conflict_entry option) \<Rightarrow> command list \<Rightarrow> (i32 \<times> i32) option option" where
  "find_conflict req n conflicts [] = Some None"
| "find_conflict req n conflicts (cmd # cmds) =
     (if c_key cmd = [] then find_conflict req n conflicts cmds
      else case conflicts (c_key cmd) of
        None \<Rightarrow> find_conflict req n conflicts cmds
      | Some entry \<Rightarrow> (case conflict_in req (ce_deps entry) [0..<n] of
          None \<Rightarrow> None
        | Some (Some c) \<Rightarrow> Some (Some c)
        | Some None \<Rightarrow> find_conflict req n conflicts cmds))"

definition handle_try_pre_accept_inner ::
  "try_pre_accept_request \<Rightarrow> replica_inner \<Rightarrow> try_pre_accept_reply option" where
  "handle_try_pre_accept_inner req st = (let r = as_usize (tp_replica req); slot = tp_slot req;
       already_settled = (case lookup (r_instances st) r (as_usize slot) of
         Some inst \<Rightarrow> ACCEPTED \<le> i_status inst | None \<Rightarrow> False)
     in if already_settled
        then Some \<lparr>tpr_replica = as_i32 (r_id st), tpr_slot = slot, tpr_ok = True, tpr_ballot = tp_ballot req,
               tpr_conflict_replica = - 1, tpr_conflict_slot = - 1\<rparr>
        else do {
          found \<leftarrow> find_conflict req (r_n st) (r_conflicts st) (tp_cmds req);
          let (cr, cs) = (case found of Some c \<Rightarrow> c | None \<Rightarrow> (- 1, - 1))
          in Some \<lparr>tpr_replica = as_i32 (r_id st), tpr_slot = slot, tpr_ok = (cr = - 1), tpr_ballot = tp_ballot req,
               tpr_conflict_replica = cr, tpr_conflict_slot = cs\<rparr>
        })"

definition commit_local ::
  "(key set \<Rightarrow> key list) \<Rightarrow> scc_fn \<Rightarrow> nat \<Rightarrow> i32 \<Rightarrow> command list \<Rightarrow> i32 \<Rightarrow> i32 list \<Rightarrow> replica_inner \<Rightarrow> replica_inner option" where
  "commit_local iter tarjan_scc r slot cmds sq deps st = do {
     st1 \<leftarrow> ensure_slot r slot st;
     execute_all_ready iter tarjan_scc
       (if i_status (r_instances st1 ! r ! nat slot) < COMMITTED then commit_instance r slot cmds sq deps st1 else st1)
   }"

section \<open>The conflict map only grows\<close>

type_synonym conflict_map = "string \<Rightarrow> conflict_entry option"

definition entry_le :: "conflict_entry \<Rightarrow> conflict_entry \<Rightarrow> bool" where
  "entry_le e e' \<longleftrightarrow> ce_max_seq e \<le> ce_max_seq e' \<and> list_all2 (\<le>) (ce_deps e) (ce_deps e')"

definition conflict_le :: "conflict_map \<Rightarrow> conflict_map \<Rightarrow> bool" where
  "conflict_le c c' \<longleftrightarrow> (\<forall>k e. c k = Some e \<longrightarrow> (\<exists>e'. c' k = Some e' \<and> entry_le e e'))"

text \<open>\<open>knows c k r s q\<close>: the map covers slot \<open>s\<close> of replica \<open>r\<close> and sequence number \<open>q\<close> for key \<open>k\<close>.\<close>

definition knows :: "conflict_map \<Rightarrow> string \<Rightarrow> nat \<Rightarrow> i32 \<Rightarrow> i32 \<Rightarrow> bool" where
  "knows c k r s q \<longleftrightarrow> (\<exists>e. c k = Some e \<and> r < length (ce_deps e) \<and> s \<le> ce_deps e ! r \<and> q \<le> ce_max_seq e)"

lemma entry_le_refl [simp]: "entry_le e e"
  by (simp add: entry_le_def list_all2_refl)

lemma entry_le_trans: "entry_le a b \<Longrightarrow> entry_le b c \<Longrightarrow> entry_le a c"
  unfolding entry_le_def using list_all2_trans [of "(\<le>)" "(\<le>)" "(\<le>)" "ce_deps a" "ce_deps b" "ce_deps c"] by auto

lemma conflict_le_refl [simp]: "conflict_le c c"
  by (simp add: conflict_le_def)

lemma conflict_le_trans: "conflict_le a b \<Longrightarrow> conflict_le b c \<Longrightarrow> conflict_le a c"
  unfolding conflict_le_def by (blast intro: entry_le_trans)

lemma knows_mono: "conflict_le c c' \<Longrightarrow> knows c k r s q \<Longrightarrow> knows c' k r s q"
proof -
  assume le: "conflict_le c c'" and "knows c k r s q"
  then obtain e where e: "c k = Some e" "r < length (ce_deps e)" "s \<le> ce_deps e ! r" "q \<le> ce_max_seq e"
    by (auto simp: knows_def)
  with le obtain e' where e': "c' k = Some e'" "ce_max_seq e \<le> ce_max_seq e'" "list_all2 (\<le>) (ce_deps e) (ce_deps e')"
    by (auto simp: conflict_le_def entry_le_def)
  with e show ?thesis
    using list_all2_nthD [OF e'(3) e(2)] list_all2_lengthD [OF e'(3)] by (auto simp: knows_def)
qed

definition entries_ok :: "nat \<Rightarrow> conflict_map \<Rightarrow> bool" where
  "entries_ok n c \<longleftrightarrow> (\<forall>k e. c k = Some e \<longrightarrow> length (ce_deps e) = n)"

lemma max_deps_eq:
  "max_deps n deps known = Some ds \<longleftrightarrow> n \<le> length deps \<and> n \<le> length known
     \<and> ds = map (\<lambda>r. if r < n then max (deps ! r) (known ! r) else deps ! r) [0..<length deps]"
  by (auto simp: max_deps_def)

lemma raise_attrs_spec:
  assumes "raise_attrs n c cmds (q, ds) = Some (q', ds')"
  shows "length ds' = length ds \<and> q \<le> q' \<and> (\<forall>i < length ds. ds ! i \<le> ds' ! i)
    \<and> (\<forall>cmd \<in> set cmds. \<forall>e. c_key cmd \<noteq> [] \<and> c (c_key cmd) = Some e \<longrightarrow>
         ce_max_seq e < q' \<and> (\<forall>i < n. ce_deps e ! i \<le> ds' ! i))"
  using assms
proof (induction cmds arbitrary: q ds)
  case (Cons cmd cmds)
  show ?case
  proof (cases "c_key cmd = [] \<or> c (c_key cmd) = None")
    case True
    with Cons.prems have "raise_attrs n c cmds (q, ds) = Some (q', ds')" by (auto split: if_splits)
    from Cons.IH [OF this] True show ?thesis by auto
  next
    case False
    then obtain e where e: "c (c_key cmd) = Some e" "c_key cmd \<noteq> []" by auto
    with Cons.prems obtain ds1 where ds1: "max_deps n ds (ce_deps e) = Some ds1"
      and rest: "raise_attrs n c cmds (max q (ce_max_seq e + 1), ds1) = Some (q', ds')"
      by (auto simp: checked_i32_def split: bind_splits if_splits)
    from ds1 have len: "length ds1 = length ds" "n \<le> length ds" "\<forall>i < length ds. ds ! i \<le> ds1 ! i" "\<forall>i < n. ce_deps e ! i \<le> ds1 ! i"
      by (auto simp: max_deps_eq)
    note IH = Cons.IH [OF rest]
    then have "\<forall>i < length ds. ds ! i \<le> ds' ! i" "\<forall>i < n. ce_deps e ! i \<le> ds' ! i"
      using len by (metis order_trans, metis order_trans order_less_le_trans)
    with IH len e show ?thesis by auto
  qed
qed simp

lemma record_conflicts_spec:
  assumes "record_conflicts n r slot q cmds c = Some c'"
  shows "conflict_le c c' \<and> (entries_ok n c \<longrightarrow> entries_ok n c')
    \<and> (\<forall>cmd \<in> set cmds. c_key cmd \<noteq> [] \<longrightarrow> knows c' (c_key cmd) r slot q)"
  using assms
proof (induction cmds arbitrary: c)
  case (Cons cmd cmds)
  show ?case
  proof (cases "c_key cmd = []")
    case True
    with Cons show ?thesis by auto
  next
    case False
    define e where "e = (case c (c_key cmd) of Some e \<Rightarrow> e | None \<Rightarrow> \<lparr>ce_max_seq = 0, ce_deps = replicate n (- 1)\<rparr>)"
    define c1 where "c1 = c(c_key cmd \<mapsto> \<lparr>ce_max_seq = max (ce_max_seq e) q, ce_deps = (ce_deps e)[r := max (ce_deps e ! r) slot]\<rparr>)"
    from Cons.prems False have r: "r < length (ce_deps e)" and rest: "record_conflicts n r slot q cmds c1 = Some c'"
      by (auto simp: e_def c1_def Let_def split: if_splits)
    have "entry_le e \<lparr>ce_max_seq = max (ce_max_seq e) q, ce_deps = (ce_deps e)[r := max (ce_deps e ! r) slot]\<rparr>"
      using r by (auto simp: entry_le_def list_all2_conv_all_nth nth_list_update)
    then have "conflict_le c c1" by (auto simp: conflict_le_def c1_def e_def)
    moreover have "entries_ok n c \<longrightarrow> entries_ok n c1"
      by (auto simp: entries_ok_def c1_def e_def split: option.splits)
    moreover have "knows c1 (c_key cmd) r slot q" using r by (auto simp: knows_def c1_def)
    ultimately show ?thesis
      using Cons.IH [OF rest] conflict_le_trans knows_mono by (metis set_ConsD)
  qed
qed simp

lemma cap_self_spec:
  "cap_self r slot ds = Some ds' \<Longrightarrow> r < length ds \<and> length ds' = length ds \<and> ds' ! r < slot
     \<and> (ds ! r < slot \<longrightarrow> ds' ! r = ds ! r) \<and> (slot \<le> ds ! r \<longrightarrow> ds' ! r = slot - 1) \<and> (\<forall>i. i \<noteq> r \<longrightarrow> ds' ! i = ds ! i)"
  by (auto simp: cap_self_def checked_i32_def split: if_splits)

section \<open>Steps of a replica\<close>

text \<open>Everything that happens under the mutex, in any order and with any message.\<close>

inductive replica_step :: "replica_inner \<Rightarrow> replica_inner \<Rightarrow> bool" where
  propose: "start_proposal cmds st = Some (attrs, st') \<Longrightarrow> replica_step st st'"
| pre_accept: "handle_pre_accept_inner req st = Some (reply, st') \<Longrightarrow> replica_step st st'"
| accept: "handle_accept_inner areq st = Some (areply, st') \<Longrightarrow> replica_step st st'"
| commit: "handle_commit_inner iter tarjan_scc creq st = Some st' \<Longrightarrow> replica_step st st'"
| local: "commit_local iter tarjan_scc r slot cmds sq deps st = Some st' \<Longrightarrow> replica_step st st'"

text \<open>A replica assigns attributes to a command as its leader, or as an acceptor.\<close>

inductive assigns ::
  "replica_inner \<Rightarrow> nat \<Rightarrow> i32 \<Rightarrow> command list \<Rightarrow> i32 \<Rightarrow> i32 list \<Rightarrow> replica_inner \<Rightarrow> bool" where
  as_leader: "start_proposal cmds st = Some ((slot, sq, deps), st') \<Longrightarrow> assigns st (r_id st) slot cmds sq deps st'"
| as_acceptor: "handle_pre_accept_inner req st = Some (reply, st') \<Longrightarrow>
    assigns st (as_usize (pa_replica req)) (pa_slot req) (pa_cmds req) (par_seq reply) (par_deps reply) st'"

inductive_cases replica_stepE: "replica_step st st'"
inductive_cases assignsE: "assigns st r slot cmds sq deps st'"

lemma ensure_slot_same:
  "ensure_slot r slot st = Some st' \<Longrightarrow> r_conflicts st' = r_conflicts st \<and> r_n st' = r_n st \<and> r_id st' = r_id st"
  by (auto simp: ensure_slot_def Let_def split: if_splits)

lemma set_instance_same [simp]:
  "r_conflicts (set_instance r slot f st) = r_conflicts st" "r_n (set_instance r slot f st) = r_n st"
  "r_id (set_instance r slot f st) = r_id st" "r_executed (set_instance r slot f st) = r_executed st"
  by (simp_all add: set_instance_def)

lemma exec_keys_same:
  "exec_keys st ks = Some st' \<Longrightarrow> r_conflicts st' = r_conflicts st \<and> r_n st' = r_n st \<and> r_id st' = r_id st"
  by (induction ks arbitrary: st) (auto simp: exec_one_def Let_def split: bind_splits if_splits)

lemma execute_all_ready_same:
  "execute_all_ready iter scc st = Some st' \<Longrightarrow> r_conflicts st' = r_conflicts st \<and> r_n st' = r_n st \<and> r_id st' = r_id st"
  by (auto simp: execute_all_ready_def dest: exec_keys_same split: bind_splits)

lemma commit_same:
  "handle_commit_inner iter scc req st = Some st' \<Longrightarrow> r_conflicts st' = r_conflicts st \<and> r_n st' = r_n st \<and> r_id st' = r_id st"
  "commit_local iter scc r slot cmds sq deps st = Some st' \<Longrightarrow> r_conflicts st' = r_conflicts st \<and> r_n st' = r_n st \<and> r_id st' = r_id st"
  by (auto simp: handle_commit_inner_def commit_local_def commit_instance_def Let_def
      dest!: ensure_slot_same execute_all_ready_same split: bind_splits if_splits)

lemma accept_same:
  "handle_accept_inner req st = Some (reply, st') \<Longrightarrow> r_conflicts st' = r_conflicts st \<and> r_n st' = r_n st \<and> r_id st' = r_id st"
  by (auto simp: handle_accept_inner_def Let_def dest!: ensure_slot_same split: bind_splits)

lemma assigns_elim:
  assumes "assigns st r slot cmds sq deps st'"
  obtains q0 ds0 raised where "raise_attrs (r_n st) (r_conflicts st) cmds (q0, ds0) = Some (sq, raised)" "length ds0 = r_n st"
    "cap_self r slot raised = Some deps"
    "record_conflicts (r_n st) r slot sq cmds (r_conflicts st) = Some (r_conflicts st')"
    "r_n st' = r_n st" "r_id st' = r_id st"
  using assms
proof (cases rule: assigns.cases)
  case as_leader
  then show ?thesis
    using that [of 1 "replicate (r_n st) (- 1)"]
    by (auto simp: start_proposal_def Let_def split: bind_splits)
next
  case (as_acceptor req reply)
  then obtain st1 q raised ds c where "ensure_slot r slot st = Some st1"
    "raise_attrs (r_n st) (r_conflicts st1) cmds (pa_seq req, resize (r_n st) (pa_deps req)) = Some (q, raised)"
    "cap_self r slot raised = Some ds"
    "record_conflicts (r_n st) r slot q cmds (r_conflicts st1) = Some c"
    "sq = q" "deps = ds" "r_conflicts st' = c" "r_n st' = r_n st1" "r_id st' = r_id st1"
    by (auto simp: handle_pre_accept_inner_def Let_def split: bind_splits)
  moreover have "length (resize (r_n st) (pa_deps req)) = r_n st" by (simp add: resize_def)
  ultimately show ?thesis using that ensure_slot_same [of r slot st st1] by metis
qed

lemma replica_step_assigns:
  assumes "replica_step st st'"
  shows "(\<exists>r slot cmds sq deps. assigns st r slot cmds sq deps st')
     \<or> (r_conflicts st' = r_conflicts st \<and> r_n st' = r_n st \<and> r_id st' = r_id st)"
  using assms
proof (cases rule: replica_step.cases)
  case (propose cmds attrs)
  then show ?thesis by (cases attrs) (blast intro: as_leader)
next
  case (pre_accept req reply)
  then show ?thesis by (blast intro: as_acceptor)
qed (auto dest: accept_same commit_same)

lemma replica_step_conflicts:
  assumes "replica_step st st'"
  shows "conflict_le (r_conflicts st) (r_conflicts st') \<and> r_n st' = r_n st
    \<and> (entries_ok (r_n st) (r_conflicts st) \<longrightarrow> entries_ok (r_n st) (r_conflicts st'))"
  using replica_step_assigns [OF assms]
proof
  assume "\<exists>r slot cmds sq deps. assigns st r slot cmds sq deps st'"
  then obtain r slot cmds sq deps where "assigns st r slot cmds sq deps st'" by blast
  then show ?thesis by (rule assigns_elim) (use record_conflicts_spec in blast)
qed simp

lemma replica_steps_conflicts:
  assumes "replica_step\<^sup>*\<^sup>* st st'"
  shows "conflict_le (r_conflicts st) (r_conflicts st') \<and> r_n st' = r_n st
    \<and> (entries_ok (r_n st) (r_conflicts st) \<longrightarrow> entries_ok (r_n st) (r_conflicts st'))"
  using assms
proof induction
  case (step y z)
  then show ?case using replica_step_conflicts [OF step.hyps(2)] conflict_le_trans by auto
qed simp

text \<open>What an assignment knows afterwards, and what it puts below the command.\<close>

lemma assigns_knows:
  assumes "assigns st r slot cmds sq deps st'"
  shows "conflict_le (r_conflicts st) (r_conflicts st') \<and> r_n st' = r_n st \<and> r_id st' = r_id st
    \<and> (entries_ok (r_n st) (r_conflicts st) \<longrightarrow> entries_ok (r_n st) (r_conflicts st'))
    \<and> (\<forall>cmd \<in> set cmds. c_key cmd \<noteq> [] \<longrightarrow> knows (r_conflicts st') (c_key cmd) r slot sq)"
  using assms by (rule assigns_elim) (use record_conflicts_spec in blast)

lemma assigns_above:
  assumes a: "assigns st r slot cmds sq deps st'" and ok: "entries_ok (r_n st) (r_conflicts st)"
    and known: "knows (r_conflicts st) (c_key cmd) r1 s1 q1" and cmd: "cmd \<in> set cmds" "c_key cmd \<noteq> []"
    and later: "r1 \<noteq> r \<or> s1 < slot"
  shows "s1 \<le> deps ! r1 \<and> q1 < sq \<and> deps ! r < slot"
proof -
  obtain e where e: "r_conflicts st (c_key cmd) = Some e" "r1 < length (ce_deps e)" "s1 \<le> ce_deps e ! r1" "q1 \<le> ce_max_seq e"
    using known by (auto simp: knows_def)
  then have r1: "r1 < r_n st" using ok by (simp add: entries_ok_def)
  show ?thesis
  proof (rule assigns_elim [OF a])
    fix q0 ds0 raised
    assume raise: "raise_attrs (r_n st) (r_conflicts st) cmds (q0, ds0) = Some (sq, raised)"
      and cap: "cap_self r slot raised = Some deps"
    have up: "ce_max_seq e < sq" "ce_deps e ! r1 \<le> raised ! r1"
      using raise_attrs_spec [OF raise] cmd e(1) r1 by auto
    with e have "q1 < sq" "s1 \<le> raised ! r1" by auto
    moreover have "s1 \<le> deps ! r1"
      using cap_self_spec [OF cap] \<open>s1 \<le> raised ! r1\<close> later by (cases "r1 = r") auto
    ultimately show ?thesis using cap_self_spec [OF cap] by blast
  qed
qed

section \<open>Properties\<close>

text \<open>
  Interfering commands are ordered by every replica that sees both: once a replica has assigned
  attributes to a command of instance \<open>(r1, s1)\<close>, as leader or acceptor, then whatever it does in
  between, any command sharing a key that it later assigns attributes to depends on replica \<open>r1\<close> up to
  slot \<open>s1\<close> at least and has a strictly larger sequence number; and no command depends on itself or a
  later slot of its own replica.
\<close>

theorem interference_ordered:
  assumes ok: "entries_ok (r_n st1) (r_conflicts st1)"
    and a1: "assigns st1 r1 s1 cmds1 q1 ds1 st1'"
    and steps: "replica_step\<^sup>*\<^sup>* st1' st2"
    and a2: "assigns st2 r2 s2 cmds2 q2 ds2 st2'"
    and key: "cmd1 \<in> set cmds1" "cmd2 \<in> set cmds2" "c_key cmd1 = c_key cmd2" "c_key cmd1 \<noteq> []"
    and later: "r1 \<noteq> r2 \<or> s1 < s2"
  shows "s1 \<le> ds2 ! r1 \<and> q1 < q2 \<and> ds2 ! r2 < s2"
proof -
  obtain n where n: "n = r_n st1" by simp
  have one: "knows (r_conflicts st1') (c_key cmd1) r1 s1 q1" "entries_ok n (r_conflicts st1')" "r_n st1' = n"
    using assigns_knows [OF a1] key ok n by auto
  have two: "knows (r_conflicts st2) (c_key cmd2) r1 s1 q1" "entries_ok n (r_conflicts st2)" "r_n st2 = n"
    using replica_steps_conflicts [OF steps] one key(3) by (auto intro: knows_mono)
  show ?thesis by (rule assigns_above [OF a2 _ two(1)]) (use two key later in auto)
qed

definition put_k :: "string \<Rightarrow> command" where
  "put_k v = \<lparr>c_op = Put, c_key = ''k'', c_value = v\<rparr>"

theorem interference_ordered_witness:
  "\<exists>st1 st2 ds2 q2. start_proposal [put_k ''a''] (replica_inner_new 0 3) = Some ((0, 1, [- 1, - 1, - 1]), st1)
     \<and> start_proposal [put_k ''b''] st1 = Some ((1, q2, ds2), st2) \<and> 0 \<le> ds2 ! 0 \<and> 1 < q2 \<and> ds2 ! 0 < 1"
proof -
  let ?st = "replica_inner_new 0 3"
  have "map_option fst (start_proposal [put_k ''a''] ?st) = Some (0, 1, [- 1, - 1, - 1])" by code_simp
  then obtain st1 where one: "start_proposal [put_k ''a''] ?st = Some ((0, 1, [- 1, - 1, - 1]), st1)" by auto
  have "map_option fst (start_proposal [put_k ''a''] ?st \<bind> (\<lambda>(_, st). start_proposal [put_k ''b''] st)) = Some (1, 2, [0, - 1, - 1])"
    by code_simp
  with one obtain st2 where two: "start_proposal [put_k ''b''] st1 = Some ((1, 2, [0, - 1, - 1]), st2)" by auto
  have ids: "r_id ?st = 0" by (simp add: replica_inner_new_def)
  have "assigns st1 (r_id st1) 1 [put_k ''b''] 2 [0, - 1, - 1] st2" using two by (rule as_leader)
  moreover have "r_id st1 = 0" using one ids by (auto simp: start_proposal_def Let_def split: bind_splits)
  ultimately have a2: "assigns st1 0 1 [put_k ''b''] 2 [0, - 1, - 1] st2" by simp
  have a1: "assigns ?st 0 0 [put_k ''a''] 1 [- 1, - 1, - 1] st1" using as_leader [OF one] ids by simp
  have "entries_ok (r_n ?st) (r_conflicts ?st)" by (simp add: entries_ok_def replica_inner_new_def)
  from interference_ordered [OF this a1 rtranclp.rtrancl_refl a2, of "put_k ''a''" "put_k ''b''"]
  have "0 \<le> [0, - 1, - 1 :: i32] ! 0 \<and> (1 :: i32) < 2 \<and> [0, - 1, - 1 :: i32] ! 0 < 1" by (simp add: put_k_def)
  with one two show ?thesis by blast
qed

section \<open>The handlers keep the tables well formed\<close>

definition replica_ok :: "replica_inner \<Rightarrow> bool" where
  "replica_ok st \<longleftrightarrow> tables_ok st \<and> entries_ok (r_n st) (r_conflicts st) \<and> r_id st < r_n st"

definition on_table :: "replica_inner \<Rightarrow> i32 \<Rightarrow> i32 \<Rightarrow> bool" where
  "on_table st rep slot \<longleftrightarrow> 0 \<le> rep \<and> rep < 2 ^ 31 \<and> nat rep < r_n st \<and> 0 \<le> slot \<and> slot < 2 ^ 31 - 1"

text \<open>Room for one more sequence number above every conflict.\<close>

definition seq_room :: "replica_inner \<Rightarrow> bool" where
  "seq_room st \<longleftrightarrow> (\<forall>k e. r_conflicts st k = Some e \<longrightarrow> in_i32 (ce_max_seq e + 1))"

lemma inst_new_ok: "inst_ok n (instance_new n)"
  by (simp add: inst_ok_def instance_new_def status_defs)

lemma ensure_slot_ok:
  assumes "replica_ok st" "on_table st rep slot"
  shows "\<exists>st'. ensure_slot (as_usize rep) slot st = Some st' \<and> replica_ok st' \<and> r_n st' = r_n st \<and> r_id st' = r_id st
    \<and> r_conflicts st' = r_conflicts st \<and> r_store st' = r_store st \<and> nat slot < length (r_instances st' ! as_usize rep)
    \<and> as_usize rep < r_n st"
proof -
  have r: "as_usize rep < r_n st" and s: "0 \<le> slot" "slot < 2 ^ 31 - 1" using assms(2) by (auto simp: on_table_def)
  let ?r = "as_usize rep"
  let ?k = "Suc (nat slot) - length (r_instances st ! ?r)"
  let ?st = "st\<lparr>r_instances := (r_instances st)[?r := r_instances st ! ?r @ replicate ?k (instance_new (r_n st))],
     r_executed := (r_executed st)[?r := r_executed st ! ?r @ replicate ?k False]\<rparr>"
  have t: "length (r_instances st) = r_n st" "length (r_executed st) = r_n st" "tables_ok st"
    using assms(1) by (auto simp: replica_ok_def tables_ok_def)
  have "tables_ok ?st"
    using t r s inst_new_ok by (auto simp: tables_ok_def nth_list_update list_all_iff)
  moreover have "ensure_slot ?r slot st = Some ?st" using t r s by (simp add: ensure_slot_def Let_def)
  ultimately show ?thesis using assms(1) t r by (auto simp: replica_ok_def nth_list_update)
qed

lemma set_instance_ok:
  assumes "replica_ok st" "r < r_n st" "nat slot < length (r_instances st ! r)" "\<And>i. inst_ok (r_n st) (f i)"
  shows "replica_ok (set_instance r slot f st)"
  using assms
  by (auto simp: replica_ok_def tables_ok_def set_instance_def nth_list_update list_all_iff dest!: set_update_subset_insert [THEN subsetD])

lemma raise_attrs_total:
  assumes "entries_ok n c" "\<forall>k e. c k = Some e \<longrightarrow> in_i32 (ce_max_seq e + 1)" "length ds = n"
  shows "\<exists>q' ds'. raise_attrs n c cmds (q, ds) = Some (q', ds')"
  using assms(3)
proof (induction cmds arbitrary: q ds)
  case (Cons cmd cmds)
  show ?case
  proof (cases "c_key cmd = [] \<or> c (c_key cmd) = None")
    case True
    with Cons show ?thesis by auto
  next
    case False
    then obtain e where e: "c (c_key cmd) = Some e" by auto
    with assms(1) Cons.prems obtain ds1 where ds1: "max_deps n ds (ce_deps e) = Some ds1" "length ds1 = n"
      by (auto simp: entries_ok_def max_deps_def)
    with Cons.IH [of ds1] e False assms(2) show ?thesis by (simp add: checked_i32_def)
  qed
qed simp

lemma record_conflicts_total:
  assumes "r < n"
  shows "entries_ok n c \<Longrightarrow> \<exists>c'. record_conflicts n r slot q cmds c = Some c'"
proof (induction cmds arbitrary: c)
  case (Cons cmd cmds)
  define e where "e = (case c (c_key cmd) of Some e \<Rightarrow> e | None \<Rightarrow> \<lparr>ce_max_seq = 0, ce_deps = replicate n (- 1)\<rparr>)"
  have len: "length (ce_deps e) = n" using Cons.prems by (auto simp: entries_ok_def e_def split: option.splits)
  let ?c = "c(c_key cmd \<mapsto> \<lparr>ce_max_seq = max (ce_max_seq e) q, ce_deps = (ce_deps e)[r := max (ce_deps e ! r) slot]\<rparr>)"
  have "entries_ok n ?c" using Cons.prems len by (auto simp: entries_ok_def)
  then obtain c' where "record_conflicts n r slot q cmds ?c = Some c'" using Cons.IH by blast
  moreover obtain c'' where "record_conflicts n r slot q cmds c = Some c''" using Cons.IH Cons.prems by blast
  ultimately show ?case using len assms by (simp only: record_conflicts.simps Let_def e_def [symmetric]) simp
qed simp

lemma cap_self_total: "r < length ds \<Longrightarrow> 0 \<le> slot \<Longrightarrow> slot < 2 ^ 31 \<Longrightarrow> \<exists>ds'. cap_self r slot ds = Some ds'"
  by (simp add: cap_self_def checked_i32_def in_i32_def)

lemma commit_instance_ok:
  assumes "replica_ok st" "r < r_n st" "nat slot < length (r_instances st ! r)" "r_n st \<le> length deps"
  shows "replica_ok (commit_instance r slot cmds sq deps st)"
  unfolding commit_instance_def
  by (rule set_instance_ok [OF assms(1-3)]) (use assms(4) in \<open>simp add: inst_ok_def\<close>)

lemma execute_ok:
  assumes "replica_ok st" "params_ok iter scc st"
  shows "\<exists>st'. execute_all_ready iter scc st = Some st' \<and> replica_ok st'"
proof -
  have "tables_ok st" using assms(1) by (simp add: replica_ok_def)
  from execute_all_ready_effect [OF this assms(2)] obtain st' where
    "execute_all_ready iter scc st = Some st'" "tables_ok st'" by metis
  with assms(1) execute_all_ready_same [of iter scc st st'] show ?thesis by (auto simp: replica_ok_def)
qed

lemma pre_accept_ok:
  assumes ok: "replica_ok st" and a: "on_table st (pa_replica req) (pa_slot req) \<and> seq_room st"
  shows "\<exists>reply st'. handle_pre_accept_inner req st = Some (reply, st') \<and> replica_ok st'"
proof -
  let ?r = "as_usize (pa_replica req)" and ?s = "pa_slot req" and ?n = "r_n st"
  from ensure_slot_ok [OF ok] a obtain st1 where st1: "ensure_slot ?r ?s st = Some st1" "replica_ok st1" "r_n st1 = ?n"
    "r_id st1 = r_id st" "r_conflicts st1 = r_conflicts st" "nat ?s < length (r_instances st1 ! ?r)" "?r < ?n" by blast
  have ent: "entries_ok ?n (r_conflicts st)" using ok by (simp add: replica_ok_def)
  have "length (resize ?n (pa_deps req)) = ?n" by (simp add: resize_def)
  with ent a obtain q ds where raise: "raise_attrs ?n (r_conflicts st) (pa_cmds req) (pa_seq req, resize ?n (pa_deps req)) = Some (q, ds)"
    using raise_attrs_total by (metis seq_room_def)
  then have "length ds = ?n" using raise_attrs_spec [OF raise] by (simp add: resize_def)
  then obtain ds' where cap: "cap_self ?r ?s ds = Some ds'" "length ds' = ?n"
    using cap_self_total [of ?r ds ?s] a st1(7) cap_self_spec by (auto simp: on_table_def)
  obtain c where c: "record_conflicts ?n ?r ?s q (pa_cmds req) (r_conflicts st) = Some c"
    using record_conflicts_total [OF st1(7) ent] by blast
  then have "entries_ok ?n c" using record_conflicts_spec [OF c] ent by blast
  then have "replica_ok (st1\<lparr>r_conflicts := c\<rparr>)"
    using st1(2,3) by (simp add: replica_ok_def tables_ok_def)
  then have "replica_ok (set_instance ?r ?s (\<lambda>inst. inst\<lparr>i_cmds := pa_cmds req, i_seq := q, i_deps := ds',
      i_status := PREACCEPTED, i_ballot := pa_ballot req\<rparr>) (st1\<lparr>r_conflicts := c\<rparr>))"
    by (rule set_instance_ok) (use st1 in \<open>simp_all add: inst_ok_def status_defs\<close>)
  with st1 raise cap c show ?thesis
    by (simp add: handle_pre_accept_inner_def Let_def)
qed

lemma accept_ok:
  assumes ok: "replica_ok st" and a: "on_table st (ac_replica areq) (ac_slot areq)"
  shows "\<exists>reply st'. handle_accept_inner areq st = Some (reply, st') \<and> replica_ok st'"
proof -
  let ?r = "as_usize (ac_replica areq)" and ?s = "ac_slot areq"
  from ensure_slot_ok [OF ok a] obtain st1 where st1: "ensure_slot ?r ?s st = Some st1" "replica_ok st1"
    "r_n st1 = r_n st" "nat ?s < length (r_instances st1 ! ?r)" "?r < r_n st" by blast
  have "replica_ok (set_instance ?r ?s (\<lambda>inst. inst\<lparr>i_cmds := ac_cmds areq, i_seq := ac_seq areq, i_deps := ac_deps areq,
      i_status := ACCEPTED, i_ballot := ac_ballot areq\<rparr>) st1)"
    by (rule set_instance_ok) (use st1 in \<open>simp_all add: inst_ok_def status_defs\<close>)
  with st1 show ?thesis
    by (simp add: handle_accept_inner_def Let_def)
qed

lemma commit_ok:
  assumes ok: "replica_ok st" and a: "on_table st (cm_replica creq) (cm_slot creq) \<and> r_n st \<le> length (cm_deps creq)
        \<and> (\<forall>st1. ensure_slot (as_usize (cm_replica creq)) (cm_slot creq) st = Some st1 \<longrightarrow>
             params_ok iter scc (commit_instance (as_usize (cm_replica creq)) (cm_slot creq) (cm_cmds creq) (cm_seq creq) (cm_deps creq) st1))"
  shows "\<exists>st'. handle_commit_inner iter scc creq st = Some st' \<and> replica_ok st'"
proof -
  let ?r = "as_usize (cm_replica creq)" and ?s = "cm_slot creq"
  from ensure_slot_ok [OF ok] a obtain st1 where st1: "ensure_slot ?r ?s st = Some st1" "replica_ok st1"
    "r_n st1 = r_n st" "nat ?s < length (r_instances st1 ! ?r)" "?r < r_n st" by blast
  have "replica_ok (commit_instance ?r ?s (cm_cmds creq) (cm_seq creq) (cm_deps creq) st1)"
    by (rule commit_instance_ok) (use st1 a in simp_all)
  from execute_ok [OF this] a st1 show ?thesis
    by (simp add: handle_commit_inner_def Let_def)
qed

text \<open>
  The handlers are total and keep the replica well formed: on a well-formed replica and a message
  for a replica of the group and a 32-bit slot, PreAccept (while sequence numbers have room), Accept,
  and Commit (when it carries a dependency per replica) do not panic and leave a well-formed replica.
\<close>

theorem handlers_total:
  assumes "replica_ok st"
  shows "(on_table st (pa_replica req) (pa_slot req) \<and> seq_room st \<longrightarrow>
      (\<exists>reply st'. handle_pre_accept_inner req st = Some (reply, st') \<and> replica_ok st'))
    \<and> (on_table st (ac_replica areq) (ac_slot areq) \<longrightarrow>
      (\<exists>reply st'. handle_accept_inner areq st = Some (reply, st') \<and> replica_ok st'))
    \<and> (on_table st (cm_replica creq) (cm_slot creq) \<and> r_n st \<le> length (cm_deps creq)
        \<and> (\<forall>st1. ensure_slot (as_usize (cm_replica creq)) (cm_slot creq) st = Some st1 \<longrightarrow>
             params_ok iter scc (commit_instance (as_usize (cm_replica creq)) (cm_slot creq) (cm_cmds creq) (cm_seq creq) (cm_deps creq) st1)) \<longrightarrow>
      (\<exists>st'. handle_commit_inner iter scc creq st = Some st' \<and> replica_ok st'))"
  using pre_accept_ok [OF assms] accept_ok [OF assms] commit_ok [OF assms] by blast

definition demo_pa :: pre_accept_request where
  "demo_pa = \<lparr>pa_leader_id = 1, pa_replica = 1, pa_slot = 0, pa_ballot = 0, pa_seq = 1, pa_deps = [- 1, - 1], pa_cmds = [put_k ''a'']\<rparr>"

definition demo_ac :: accept_request where
  "demo_ac = \<lparr>ac_leader_id = 1, ac_replica = 0, ac_slot = 0, ac_ballot = 0, ac_seq = 1, ac_deps = [- 1, - 1], ac_cmds = [put_k ''b'']\<rparr>"

definition demo_cm :: "string \<Rightarrow> i32 list \<Rightarrow> commit_request" where
  "demo_cm v ds = \<lparr>cm_leader_id = 0, cm_replica = 0, cm_slot = 0, cm_cmds = [put_k v], cm_seq = 1, cm_deps = ds\<rparr>"

definition demo_committed :: replica_inner where
  "demo_committed = commit_instance 0 0 [put_k ''a''] 1 [- 1, - 1] (the (ensure_slot 0 0 (replica_inner_new 0 2)))"

lemma demo_new_ok: "replica_ok (replica_inner_new 0 2)"
  by (simp add: replica_ok_def tables_ok_def entries_ok_def replica_inner_new_def)

lemma demo_ensure: "ensure_slot 0 0 (replica_inner_new 0 2) = Some (the (ensure_slot 0 0 (replica_inner_new 0 2)))"
  by (simp add: ensure_slot_def replica_inner_new_def Let_def)

lemma demo_committed_tables: "tables_ok demo_committed"
  by (auto simp: demo_committed_def commit_instance_def set_instance_def ensure_slot_def replica_inner_new_def
      tables_ok_def inst_ok_def instance_new_def Let_def less_2_cases_iff)

lemma demo_committed_ready: "ready_keys demo_committed = {(0, 0)}"
proof -
  have "pending demo_committed = Some [(0, 0)]" by code_simp
  moreover have "ready_of demo_committed [(0, 0)] = Some {(0, 0)}" by code_simp
  ultimately show ?thesis using ready_set [OF demo_committed_tables] by auto
qed

lemma demo_committed_params: "params_ok (\<lambda>_. [(0, 0)]) one_group demo_committed"
proof -
  have "key_edges demo_committed [(0, 0)] [(0, 0)] = Some []" by code_simp
  then show ?thesis
    by (auto simp: params_ok_def demo_committed_ready one_group_def scc_ok_def simp del: key_edges.simps)
qed

theorem handlers_total_witness:
  "(\<exists>reply st'. handle_pre_accept_inner demo_pa (replica_inner_new 0 2) = Some (reply, st') \<and> replica_ok st')
   \<and> (\<exists>reply st'. handle_accept_inner demo_ac (replica_inner_new 0 2) = Some (reply, st') \<and> replica_ok st')
   \<and> (\<exists>st'. handle_commit_inner (\<lambda>_. [(0, 0)]) one_group (demo_cm ''a'' [- 1, - 1]) (replica_inner_new 0 2) = Some st' \<and> replica_ok st')"
proof -
  let ?st = "replica_inner_new 0 2"
  have "on_table ?st (pa_replica demo_pa) (pa_slot demo_pa) \<and> seq_room ?st"
    by (simp add: on_table_def seq_room_def demo_pa_def replica_inner_new_def)
  moreover have "on_table ?st (ac_replica demo_ac) (ac_slot demo_ac)"
    by (simp add: on_table_def demo_ac_def replica_inner_new_def)
  moreover have "on_table ?st (cm_replica (demo_cm ''a'' [- 1, - 1])) (cm_slot (demo_cm ''a'' [- 1, - 1]))
      \<and> r_n ?st \<le> length (cm_deps (demo_cm ''a'' [- 1, - 1]))"
    by (simp add: on_table_def demo_cm_def replica_inner_new_def)
  moreover have "params_ok (\<lambda>_. [(0, 0)]) one_group (commit_instance (as_usize (cm_replica (demo_cm ''a'' [- 1, - 1])))
      (cm_slot (demo_cm ''a'' [- 1, - 1])) (cm_cmds (demo_cm ''a'' [- 1, - 1])) (cm_seq (demo_cm ''a'' [- 1, - 1]))
      (cm_deps (demo_cm ''a'' [- 1, - 1])) st1)"
    if "ensure_slot (as_usize (cm_replica (demo_cm ''a'' [- 1, - 1]))) (cm_slot (demo_cm ''a'' [- 1, - 1])) ?st = Some st1" for st1
    using that demo_committed_params demo_ensure by (simp add: demo_cm_def demo_committed_def as_usize_def)
  ultimately show ?thesis
    using handlers_total [OF demo_new_ok, of demo_pa demo_ac "demo_cm ''a'' [- 1, - 1]" "\<lambda>_. [(0, 0)]" one_group] by blast
qed

text \<open>
  What a PreAccept reply says: its attributes are at least the proposed ones and above every conflict
  the replica knew for the keys of the command (for the own replica, below the slot itself), its status
  is \<^verbatim>\<open>PREACCEPTED_EQ\<close> exactly when they equal the padded proposal, and they are what the replica stored.
\<close>

theorem pre_accept_reply:
  assumes h: "handle_pre_accept_inner req st = Some (reply, st')"
  shows "length (par_deps reply) = r_n st \<and> pa_seq req \<le> par_seq reply
    \<and> par_deps reply ! as_usize (pa_replica req) < pa_slot req
    \<and> (\<forall>i < r_n st. i \<noteq> as_usize (pa_replica req) \<longrightarrow> resize (r_n st) (pa_deps req) ! i \<le> par_deps reply ! i)
    \<and> (\<forall>cmd \<in> set (pa_cmds req). \<forall>e. c_key cmd \<noteq> [] \<and> r_conflicts st (c_key cmd) = Some e \<longrightarrow>
         ce_max_seq e < par_seq reply
         \<and> (\<forall>i < r_n st. i \<noteq> as_usize (pa_replica req) \<longrightarrow> ce_deps e ! i \<le> par_deps reply ! i))
    \<and> par_status reply = (if par_seq reply = pa_seq req \<and> par_deps reply = resize (r_n st) (pa_deps req)
         then PREACCEPTED_EQ else PREACCEPTED)
    \<and> (\<exists>inst. instance_at st' (as_usize (pa_replica req), pa_slot req) = Some inst \<and> i_status inst = PREACCEPTED
         \<and> i_cmds inst = pa_cmds req \<and> i_seq inst = par_seq reply \<and> i_deps inst = par_deps reply)"
proof -
  let ?r = "as_usize (pa_replica req)" and ?s = "pa_slot req" and ?n = "r_n st"
  obtain st1 q raised ds c where ens: "ensure_slot ?r ?s st = Some st1"
    and raise: "raise_attrs ?n (r_conflicts st1) (pa_cmds req) (pa_seq req, resize ?n (pa_deps req)) = Some (q, raised)"
    and cap: "cap_self ?r ?s raised = Some ds"
    and reply: "par_seq reply = q" "par_deps reply = ds"
      "par_status reply = (if q = pa_seq req \<and> ds = resize ?n (pa_deps req) then PREACCEPTED_EQ else PREACCEPTED)"
    and st': "st' = set_instance ?r ?s (\<lambda>inst. inst\<lparr>i_cmds := pa_cmds req, i_seq := q, i_deps := ds,
              i_status := PREACCEPTED, i_ballot := pa_ballot req\<rparr>) (st1\<lparr>r_conflicts := c\<rparr>)"
    using h by (auto simp: handle_pre_accept_inner_def Let_def split: bind_splits)
  have len: "length (resize ?n (pa_deps req)) = ?n" by (simp add: resize_def)
  note up = raise_attrs_spec [OF raise, unfolded len] and below = cap_self_spec [OF cap]
  have "0 \<le> ?s" "?r < length (r_instances st1)" "nat ?s < length (r_instances st1 ! ?r)"
    using ens by (auto simp: ensure_slot_def Let_def split: if_splits)
  then have "\<exists>inst. instance_at st' (?r, ?s) = Some inst \<and> i_status inst = PREACCEPTED
      \<and> i_cmds inst = pa_cmds req \<and> i_seq inst = q \<and> i_deps inst = ds"
    by (simp add: st' instance_at_def lookup_def set_instance_def)
  moreover have "r_conflicts st1 = r_conflicts st" using ensure_slot_same [OF ens] by blast
  ultimately show ?thesis using up below reply by auto
qed

theorem pre_accept_reply_witness:
  "\<exists>reply st'. handle_pre_accept_inner demo_pa (replica_inner_new 0 2) = Some (reply, st')
     \<and> par_deps reply ! as_usize (pa_replica demo_pa) < pa_slot demo_pa"
proof -
  have "map_option (\<lambda>_. ()) (handle_pre_accept_inner demo_pa (replica_inner_new 0 2)) = Some ()" by code_simp
  then obtain reply st' where h: "handle_pre_accept_inner demo_pa (replica_inner_new 0 2) = Some (reply, st')" by auto
  from pre_accept_reply [OF h] h show ?thesis by blast
qed

section \<open>Commits\<close>

lemma exec_keys_tables:
  "exec_keys st ks = Some st' \<Longrightarrow> r_instances st' = r_instances st \<and> length (r_executed st') = length (r_executed st)"
  by (induction ks arbitrary: st) (fastforce simp: exec_one_def Let_def split: bind_splits if_splits)+

lemma execute_all_ready_tables:
  "execute_all_ready iter scc st = Some st' \<Longrightarrow> r_instances st' = r_instances st \<and> length (r_executed st') = length (r_executed st)"
  by (auto simp: execute_all_ready_def dest: exec_keys_tables split: bind_splits)

lemma ensure_slot_again:
  assumes "ensure_slot r slot st = Some st1" and "length (r_instances st') = length (r_instances st1)"
    and "length (r_instances st' ! r) = length (r_instances st1 ! r)" and "length (r_executed st') = length (r_executed st1)"
  shows "ensure_slot r slot st' = Some st'"
  using assms by (auto simp: ensure_slot_def Let_def split: if_splits)

text \<open>
  A second Commit for an instance changes nothing, whatever it carries: after a Commit has been
  handled, the instance is committed, and handling any Commit for the same replica and slot returns the
  same state, so no command is executed twice on account of duplicates.
\<close>

theorem commit_idempotent:
  assumes h: "handle_commit_inner iter scc req st = Some st'"
    and same: "cm_replica req' = cm_replica req" "cm_slot req' = cm_slot req"
  shows "handle_commit_inner iter' scc' req' st' = Some st'
    \<and> COMMITTED \<le> i_status (r_instances st' ! as_usize (cm_replica req) ! nat (cm_slot req))"
proof -
  let ?r = "as_usize (cm_replica req)" and ?s = "cm_slot req"
  obtain st1 where ens: "ensure_slot ?r ?s st = Some st1"
    and rest: "if COMMITTED \<le> i_status (r_instances st1 ! ?r ! nat ?s) then st' = st1
      else execute_all_ready iter scc (commit_instance ?r ?s (cm_cmds req) (cm_seq req) (cm_deps req) st1) = Some st'"
    using h by (auto simp: handle_commit_inner_def Let_def split: bind_splits if_splits)
  have idx: "?r < length (r_instances st1)" "nat ?s < length (r_instances st1 ! ?r)"
    using ens by (auto simp: ensure_slot_def Let_def split: if_splits)
  have "COMMITTED \<le> i_status (r_instances st' ! ?r ! nat ?s) \<and> ensure_slot ?r ?s st' = Some st'"
  proof (cases "COMMITTED \<le> i_status (r_instances st1 ! ?r ! nat ?s)")
    case True
    with rest ens show ?thesis by (auto intro: ensure_slot_again)
  next
    case False
    with rest execute_all_ready_tables [of iter scc "commit_instance ?r ?s (cm_cmds req) (cm_seq req) (cm_deps req) st1" st']
    have "r_instances st' = r_instances (commit_instance ?r ?s (cm_cmds req) (cm_seq req) (cm_deps req) st1)"
      "length (r_executed st') = length (r_executed st1)" by (auto simp: commit_instance_def)
    with idx ens show ?thesis
      by (auto simp: commit_instance_def set_instance_def intro!: ensure_slot_again)
  qed
  then show ?thesis by (simp add: handle_commit_inner_def Let_def same)
qed

theorem commit_idempotent_witness:
  "\<exists>st'. handle_commit_inner (\<lambda>_. [(0, 0)]) one_group (demo_cm ''a'' [- 1, - 1]) (replica_inner_new 0 2) = Some st'
     \<and> handle_commit_inner (\<lambda>_. [(0, 0)]) one_group (demo_cm ''b'' [0, 7]) st' = Some st'"
proof -
  have "map_option (\<lambda>_. ()) (handle_commit_inner (\<lambda>_. [(0, 0)]) one_group (demo_cm ''a'' [- 1, - 1]) (replica_inner_new 0 2)) = Some ()"
    by code_simp
  then obtain st' where h: "handle_commit_inner (\<lambda>_. [(0, 0)]) one_group (demo_cm ''a'' [- 1, - 1]) (replica_inner_new 0 2) = Some st'"
    by auto
  have "cm_replica (demo_cm ''b'' [0, 7]) = cm_replica (demo_cm ''a'' [- 1, - 1])"
    "cm_slot (demo_cm ''b'' [0, 7]) = cm_slot (demo_cm ''a'' [- 1, - 1])" by (simp_all add: demo_cm_def)
  from commit_idempotent [OF h this] h show ?thesis by blast
qed

text \<open>
  Nothing protects a committed instance from the other handlers. A replica that has committed and
  executed \<open>k := a\<close> in slot \<open>(0, 0)\<close> and then handles an Accept for the same slot holds it as merely
  accepted; the next Commit is taken for the first one, and the replica ends up with an instance that
  says \<open>k := b\<close>, marked as executed, over a store that says \<open>a\<close>.
\<close>

theorem commit_overwritten:
  "(do {
      st1 \<leftarrow> handle_commit_inner (\<lambda>_. [(0, 0)]) one_group (demo_cm ''a'' [- 1, - 1]) (replica_inner_new 0 2);
      (reply, st2) \<leftarrow> handle_accept_inner demo_ac st1;
      st3 \<leftarrow> handle_commit_inner (\<lambda>_. [(0, 0)]) one_group (demo_cm ''b'' [- 1, - 1]) st2;
      Some (map_option i_status (instance_at st1 (0, 0)), acr_ok reply, map_option i_status (instance_at st2 (0, 0)),
        map_option i_cmds (instance_at st3 (0, 0)), executed_at st3 (0, 0), r_store st3 ''k'')
    }) = Some (Some COMMITTED, True, Some ACCEPTED, Some [put_k ''b''], True, Some ''a'')"
  by code_simp

text \<open>
  A Commit must carry a dependency for every replica. One that is committed with fewer makes the
  executor index past the end of the list: the handler panics under the mutex, which poisons it, whatever
  the iteration order and the graph library do.
\<close>

theorem short_deps_panic:
  "handle_commit_inner iter scc (demo_cm ''a'' []) (replica_inner_new 0 2) = None"
proof -
  let ?st = "commit_instance 0 0 [put_k ''a''] 1 [] (the (ensure_slot 0 0 (replica_inner_new 0 2)))"
  have "pending ?st = Some [(0, 0)]" by code_simp
  moreover have "ready_of ?st [(0, 0)] = None" by code_simp
  ultimately have none: "execute_all_ready iter scc ?st = None" by (simp add: execute_all_ready_def execute_plan_def)
  have new: "i_status (r_instances (the (ensure_slot 0 0 (replica_inner_new 0 2))) ! 0 ! 0) = NONE" by code_simp
  obtain st1 where st1: "ensure_slot 0 0 (replica_inner_new 0 2) = Some st1" using demo_ensure by blast
  from none new show ?thesis
    by (simp add: st1 handle_commit_inner_def demo_cm_def as_usize_def Let_def status_defs)
qed

end
