(* ===== verification/Epaxos_Propose.thy ===== *)
theory Epaxos_Propose
  imports Epaxos_Handlers Responses Node_Config
begin

text \<open>
  The leader and recovery paths of \<^verbatim>\<open>examples/epaxos/replica.rs\<close>, \<^verbatim>\<open>propose\<close> and \<^verbatim>\<open>recover\<close>. Both are
  asynchronous; they are split at their suspension points, where they wait for the replies of a quorum
  call. Each part is a function of the replica's state (under the mutex) or of what the terminal method
  of the call observes; between the parts other handlers may run.
\<close>

section \<open>Proposing\<close>

record commit_info =
  inf_replica :: nat
  inf_slot :: i32
  inf_seq :: i32
  inf_deps :: "i32 list"
  inf_fast_path :: bool

text \<open>The first part: the attributes are computed under the lock, and the PreAccept request is built.\<close>

definition propose_start :: "command list \<Rightarrow> replica_inner \<Rightarrow> (pre_accept_request \<times> replica_inner) option" where
  "propose_start cmds st = do {
     ((slot, sq, deps), st') \<leftarrow> start_proposal cmds st;
     let my_id = as_i32 (r_id st) in
     Some (\<lparr>pa_leader_id = my_id, pa_replica = my_id, pa_slot = slot, pa_ballot = 0, pa_seq = sq,
            pa_deps = deps, pa_cmds = cmds\<rparr>, st')
   }"

text \<open>Sizes, from the number of peers. The slice of the thrifty quorum is never longer than the peers.\<close>

definition total_replicas :: "configuration \<Rightarrow> nat" where
  "total_replicas peers = config_size peers + 1"

definition slow_quorum_peers :: "configuration \<Rightarrow> nat" where
  "slow_quorum_peers peers = total_replicas peers div 2"

definition commit_peers :: "bool \<Rightarrow> configuration \<Rightarrow> configuration" where
  "commit_peers thrifty peers =
     (if thrifty then sub_config peers (map nid (take (slow_quorum_peers peers) (cfg_nodes peers))) else peers)"

text \<open>The loop over the replies inside the quorum closure: merged attributes, and whether all replies agreed.\<close>

definition merge_deps :: "i32 list \<Rightarrow> i32 list \<Rightarrow> i32 list" where
  "merge_deps merged deps = map (\<lambda>i. if i < length deps then max (merged ! i) (deps ! i) else merged ! i) [0..<length merged]"

fun merge_replies :: "i32 \<times> i32 list \<times> bool \<Rightarrow> pre_accept_reply list \<Rightarrow> i32 \<times> i32 list \<times> bool" where
  "merge_replies acc [] = acc"
| "merge_replies (sq, deps, all_eq) (r # rs) =
     merge_replies (max sq (par_seq r), merge_deps deps (par_deps r), all_eq \<and> par_status r = PREACCEPTED_EQ) rs"

text \<open>The quorum closure. It is called with at least one reply; its cell holds \<open>(seq, deps, fast_path)\<close>.\<close>

type_synonym attrs = "i32 \<times> i32 list \<times> bool"

definition pre_accept_quorum ::
  "pre_accept_request \<Rightarrow> configuration \<Rightarrow> attrs \<Rightarrow> pre_accept_reply list \<Rightarrow> pre_accept_reply option \<times> attrs" where
  "pre_accept_quorum req peers cell replies =
     (let cnt = length replies; fast_quorum = total_replicas peers - 1;
          (merged_seq, merged_deps, all_eq) = merge_replies (pa_seq req, pa_deps req, True) replies
      in if fast_quorum \<le> cnt \<and> all_eq then (Some (replies ! (cnt - 1)), (pa_seq req, pa_deps req, True))
         else if fast_quorum \<le> cnt then (Some (replies ! (cnt - 1)), (merged_seq, merged_deps, False))
         else if \<not> all_eq \<and> slow_quorum_peers peers \<le> cnt then (Some (replies ! (cnt - 1)), (merged_seq, merged_deps, False))
         else (None, cell))"

text \<open>Phase 1: the terminal method of the PreAccept call, then the cell is read.\<close>

definition propose_pre_accept ::
  "pre_accept_request \<Rightarrow> configuration \<Rightarrow> 'l responses \<Rightarrow> pre_accept_reply node_response obs list \<Rightarrow> (error + attrs) progress" where
  "propose_pre_accept req peers h obs =
     (case snd (quorum (pre_accept_quorum req peers) (pa_seq req, pa_deps req, True) h obs) of
        Waiting \<Rightarrow> Waiting
      | Panicked \<Rightarrow> Panicked
      | Finished (Inl e, cell) \<Rightarrow> Finished (Inl e)
      | Finished (Inr _, cell) \<Rightarrow> Finished (Inr cell))"

text \<open>Phase 2, on the slow path only.\<close>

definition propose_accept_request :: "pre_accept_request \<Rightarrow> attrs \<Rightarrow> accept_request option" where
  "propose_accept_request req a = (case a of (final_seq, final_deps, fast_path) \<Rightarrow>
     if fast_path then None
     else Some \<lparr>ac_leader_id = pa_leader_id req, ac_replica = pa_replica req, ac_slot = pa_slot req, ac_ballot = pa_ballot req,
            ac_seq = final_seq, ac_deps = final_deps, ac_cmds = pa_cmds req\<rparr>)"

definition propose_accept :: "configuration \<Rightarrow> 'l responses \<Rightarrow> accept_reply node_response obs list \<Rightarrow> (error + accept_reply) progress" where
  "propose_accept peers h obs = snd (threshold (slow_quorum_peers peers) h obs)"

text \<open>Phase 3: the local commit, the Commit request for the peers, and the result.\<close>

definition propose_commit_request :: "pre_accept_request \<Rightarrow> attrs \<Rightarrow> commit_request" where
  "propose_commit_request req a = (case a of (final_seq, final_deps, fast_path) \<Rightarrow>
     \<lparr>cm_leader_id = pa_leader_id req, cm_replica = pa_replica req, cm_slot = pa_slot req, cm_cmds = pa_cmds req,
      cm_seq = final_seq, cm_deps = final_deps\<rparr>)"

definition propose_commit ::
  "(key set \<Rightarrow> key list) \<Rightarrow> scc_fn \<Rightarrow> pre_accept_request \<Rightarrow> attrs \<Rightarrow> replica_inner
   \<Rightarrow> (commit_request \<times> commit_info \<times> replica_inner) option" where
  "propose_commit iter tarjan_scc req a st = (case a of (final_seq, final_deps, fast_path) \<Rightarrow> do {
     st' \<leftarrow> commit_local iter tarjan_scc (as_usize (pa_replica req)) (pa_slot req) (pa_cmds req) final_seq final_deps st;
     Some (propose_commit_request req a,
       \<lparr>inf_replica = as_usize (pa_replica req), inf_slot = pa_slot req, inf_seq = final_seq, inf_deps = final_deps,
        inf_fast_path = fast_path\<rparr>, st')
   })"

section \<open>Recovering\<close>

definition recover_start :: "nat \<Rightarrow> i32 \<Rightarrow> replica_inner \<Rightarrow> prepare_request" where
  "recover_start target_r target_slot st =
     \<lparr>pr_leader_id = as_i32 (r_id st), pr_replica = as_i32 target_r, pr_slot = target_slot, pr_ballot = 1\<rparr>"

definition last_reply :: "'a list \<Rightarrow> 'a option" where
  "last_reply rs = (if rs = [] then None else Some (last rs))"

text \<open>Phase 1: the closure waits for every peer and saves the replies.\<close>

definition prepare_quorum :: "nat \<Rightarrow> prepare_reply list \<Rightarrow> prepare_reply list \<Rightarrow> prepare_reply option \<times> prepare_reply list" where
  "prepare_quorum n_peers cell replies =
     (if n_peers \<le> length replies then (last_reply replies, replies) else (None, cell))"

definition recover_prepare ::
  "nat \<Rightarrow> 'l responses \<Rightarrow> prepare_reply node_response obs list \<Rightarrow> (error + prepare_reply list) progress" where
  "recover_prepare n_peers h obs =
     (case snd (quorum (prepare_quorum n_peers) [] h obs) of
        Waiting \<Rightarrow> Waiting
      | Panicked \<Rightarrow> Panicked
      | Finished (Inl e, cell) \<Rightarrow> Finished (Inl e)
      | Finished (Inr _, cell) \<Rightarrow> Finished (Inr cell))"

text \<open>\<^verbatim>\<open>max_by_key\<close> returns the last of several maximal elements.\<close>

fun max_by_ballot :: "prepare_reply option \<Rightarrow> prepare_reply list \<Rightarrow> prepare_reply option" where
  "max_by_ballot best [] = best"
| "max_by_ballot best (r # rs) =
     max_by_ballot (case best of None \<Rightarrow> Some r
       | Some b \<Rightarrow> if prr_ballot b \<le> prr_ballot r then Some r else Some b) rs"

text \<open>
  Phase 2: what recovery does with the replies. A choice carries the commands and attributes it is
  about; \<open>Try_Fast\<close> asks all peers with TryPreAccept first. The underflow of \<^verbatim>\<open>n - 1\<close> is a panic.
\<close>

datatype recovery =
    Commit_Now "command list" i32 "i32 list"
  | Accept_First "command list" i32 "i32 list"
  | Try_Fast "command list" i32 "i32 list"

definition is_preaccepted :: "prepare_reply \<Rightarrow> bool" where
  "is_preaccepted r \<longleftrightarrow> prr_status r = PREACCEPTED \<or> prr_status r = PREACCEPTED_EQ"

definition recover_analyze :: "nat \<Rightarrow> prepare_reply list \<Rightarrow> recovery option" where
  "recover_analyze n replies =
     (case find (\<lambda>r. prr_status r = COMMITTED) replies of
        Some r \<Rightarrow> Some (Commit_Now (prr_cmds r) (prr_seq r) (prr_deps r))
      | None \<Rightarrow>
     (case max_by_ballot None (filter (\<lambda>r. prr_status r = ACCEPTED) replies) of
        Some r \<Rightarrow> Some (Accept_First (prr_cmds r) (prr_seq r) (prr_deps r))
      | None \<Rightarrow>
     (let preaccepted = filter is_preaccepted replies;
          (rec_sq, rec_deps, rec_cmds) = (case preaccepted of
             r # _ \<Rightarrow> (prr_seq r, prr_deps r, prr_cmds r)
           | [] \<Rightarrow> (0, replicate n (- 1), []));
          eq_count = length (filter (\<lambda>r. prr_seq r = rec_sq \<and> prr_deps r = rec_deps) preaccepted)
      in if n = 0 then None
         else if preaccepted \<noteq> [] \<and> n - 1 \<le> eq_count then Some (Try_Fast rec_cmds rec_sq rec_deps)
         else Some (Accept_First rec_cmds rec_sq rec_deps))))"

text \<open>The TryPreAccept closure: its cell stays true as long as no reply objects.\<close>

definition try_quorum :: "nat \<Rightarrow> bool \<Rightarrow> try_pre_accept_reply list \<Rightarrow> try_pre_accept_reply option \<times> bool" where
  "try_quorum n_peers ok replies =
     (if n_peers \<le> length replies then last_reply replies else None, ok \<and> list_all tpr_ok replies)"

text \<open>After TryPreAccept: commit at once if it succeeded with no objection, otherwise the Accept round; errors are not returned.\<close>

definition recover_after_try :: "((error + try_pre_accept_reply) \<times> bool) \<Rightarrow> command list \<Rightarrow> i32 \<Rightarrow> i32 list \<Rightarrow> recovery" where
  "recover_after_try tpa rec_cmds rec_sq rec_deps =
     (case tpa of
        (Inr _, True) \<Rightarrow> Commit_Now rec_cmds rec_sq rec_deps
      | _ \<Rightarrow> Accept_First rec_cmds rec_sq rec_deps)"

text \<open>The requests of the rounds.\<close>

definition recover_accept_request :: "nat \<Rightarrow> nat \<Rightarrow> i32 \<Rightarrow> command list \<Rightarrow> i32 \<Rightarrow> i32 list \<Rightarrow> accept_request" where
  "recover_accept_request my target_r slot cmds sq deps =
     \<lparr>ac_leader_id = as_i32 my, ac_replica = as_i32 target_r, ac_slot = slot, ac_ballot = 1, ac_seq = sq, ac_deps = deps, ac_cmds = cmds\<rparr>"

definition recover_try_request :: "nat \<Rightarrow> nat \<Rightarrow> i32 \<Rightarrow> command list \<Rightarrow> i32 \<Rightarrow> i32 list \<Rightarrow> try_pre_accept_request" where
  "recover_try_request my target_r slot cmds sq deps =
     \<lparr>tp_leader_id = as_i32 my, tp_replica = as_i32 target_r, tp_slot = slot, tp_ballot = 1, tp_seq = sq, tp_deps = deps, tp_cmds = cmds\<rparr>"

definition recover_accept :: "nat \<Rightarrow> 'l responses \<Rightarrow> accept_reply node_response obs list \<Rightarrow> (error + accept_reply) progress" where
  "recover_accept n h obs = snd (threshold (n div 2) h obs)"

text \<open>Phase 3.\<close>

definition recover_commit ::
  "(key set \<Rightarrow> key list) \<Rightarrow> scc_fn \<Rightarrow> nat \<Rightarrow> i32 \<Rightarrow> command list \<Rightarrow> i32 \<Rightarrow> i32 list \<Rightarrow> bool \<Rightarrow> replica_inner
   \<Rightarrow> (commit_request \<times> commit_info \<times> replica_inner) option" where
  "recover_commit iter tarjan_scc target_r slot cmds sq deps fast st = do {
     st' \<leftarrow> commit_local iter tarjan_scc target_r slot cmds sq deps st;
     Some (\<lparr>cm_leader_id = as_i32 (r_id st), cm_replica = as_i32 target_r, cm_slot = slot, cm_cmds = cmds, cm_seq = sq, cm_deps = deps\<rparr>,
       \<lparr>inf_replica = target_r, inf_slot = slot, inf_seq = sq, inf_deps = deps, inf_fast_path = fast\<rparr>, st')
   }"

section \<open>What the closures decide\<close>

lemma decide_Some:
  "decide f c acc vs = (Some r, c') \<Longrightarrow> \<exists>m < length vs. \<exists>c0. f c0 (acc @ take (Suc m) vs) = (Some r, c')"
proof (induction vs arbitrary: c acc)
  case (Cons v vs)
  show ?case
  proof (cases "f c (acc @ [v])")
    case (Pair res c1)
    show ?thesis
    proof (cases res)
      case None
      with Cons Pair show ?thesis by (fastforce simp: Ex_less_Suc2)
    next
      case (Some r')
      with Cons.prems Pair show ?thesis by (auto simp: Ex_less_Suc2)
    qed
  qed
qed simp

lemma merge_deps_nth [simp]:
  "length (merge_deps ds ds') = length ds"
  "i < length ds \<Longrightarrow> merge_deps ds ds' ! i = (if i < length ds' then max (ds ! i) (ds' ! i) else ds ! i)"
  by (simp_all add: merge_deps_def)

text \<open>The values the replies propose for one dependency.\<close>

definition dep_votes :: "nat \<Rightarrow> pre_accept_reply list \<Rightarrow> i32 set" where
  "dep_votes i rs = {par_deps r ! i | r. r \<in> set rs \<and> i < length (par_deps r)}"

lemma dep_votes_simps [simp]:
  "dep_votes i [] = {}"
  "dep_votes i (r # rs) = (if i < length (par_deps r) then insert (par_deps r ! i) (dep_votes i rs) else dep_votes i rs)"
  by (auto simp: dep_votes_def)

lemma finite_dep_votes [simp]: "finite (dep_votes i rs)"
  by (induction rs) auto

lemma Max_pull: "finite S \<Longrightarrow> Max (insert (max a b) S) = (Max (insert a (insert b S)) :: 'a::linorder)"
  by (cases "S = {}") (auto simp: max.assoc)

lemma merge_replies_eq:
  "merge_replies (sq, ds, e) rs = (sq', ds', e') \<longleftrightarrow>
     sq' = Max (insert sq (par_seq ` set rs)) \<and> length ds' = length ds
     \<and> (\<forall>i < length ds. ds' ! i = Max (insert (ds ! i) (dep_votes i rs)))
     \<and> e' = (e \<and> list_all (\<lambda>r. par_status r = PREACCEPTED_EQ) rs)"
proof (induction rs arbitrary: sq ds e)
  case Nil
  then show ?case by (auto intro: nth_equalityI)
next
  case (Cons r rs)
  have "Max (insert (max sq (par_seq r)) (par_seq ` set rs)) = Max (insert sq (insert (par_seq r) (par_seq ` set rs)))"
    by (rule Max_pull) simp
  moreover have "Max (insert (merge_deps ds (par_deps r) ! i) (dep_votes i rs)) = Max (insert (ds ! i) (dep_votes i (r # rs)))"
    if "i < length ds" for i using that by (simp add: Max_pull)
  ultimately show ?case by (simp add: Cons.IH)
qed

text \<open>When a list of replies justifies a decision.\<close>

fun replies_decide :: "pre_accept_request \<Rightarrow> configuration \<Rightarrow> pre_accept_reply list \<Rightarrow> attrs \<Rightarrow> bool" where
  "replies_decide req peers replies (sq, ds, fast) \<longleftrightarrow> fast = list_all (\<lambda>r. par_status r = PREACCEPTED_EQ) replies
    \<and> (if fast then config_size peers \<le> length replies \<and> sq = pa_seq req \<and> ds = pa_deps req
       else (config_size peers \<le> length replies \<or> slow_quorum_peers peers \<le> length replies)
         \<and> sq = Max (insert (pa_seq req) (par_seq ` set replies)) \<and> length ds = length (pa_deps req)
         \<and> (\<forall>i < length ds. ds ! i = Max (insert (pa_deps req ! i) (dep_votes i replies))))"

lemma pre_accept_quorum_Some:
  assumes "pre_accept_quorum req peers c0 replies = (Some v, (sq, ds, fast))"
  shows "replies_decide req peers replies (sq, ds, fast)"
proof -
  obtain msq mds meq where merged: "merge_replies (pa_seq req, pa_deps req, True) replies = (msq, mds, meq)"
    by (cases "merge_replies (pa_seq req, pa_deps req, True) replies")
  note spec = merged [unfolded merge_replies_eq]
  from assms have "meq \<and> config_size peers \<le> length replies \<and> (sq, ds, fast) = (pa_seq req, pa_deps req, True)
    \<or> \<not> meq \<and> (config_size peers \<le> length replies \<or> slow_quorum_peers peers \<le> length replies) \<and> (sq, ds, fast) = (msq, mds, False)"
    unfolding pre_accept_quorum_def merged total_replicas_def Let_def by (auto split: if_splits)
  with spec show ?thesis by (elim disjE) simp_all
qed

lemma oks_prefix:
  "m \<le> length (oks (items obs)) \<Longrightarrow> \<exists>pre post. obs = pre @ post \<and> oks (items pre) = take m (oks (items obs))"
proof (induction obs arbitrary: m rule: items.induct)
  case 1
  then show ?case by simp
next
  case (2 c x obs)
  show ?case
  proof (cases "\<exists>v. nr_result x = Inr v")
    case False
    then have skip: "oks (items ((c, Item x) # obs)) = oks (items obs)" by (auto split: sum.splits)
    with 2 obtain pre post where "obs = pre @ post" "oks (items pre) = take m (oks (items obs))"
      by metis
    with False show ?thesis
      by - (rule exI [of _ "(c, Item x) # pre"], rule exI [of _ post], auto split: sum.splits)
  next
    case True
    then obtain v where v: "nr_result x = Inr v" by blast
    show ?thesis
    proof (cases m)
      case 0
      then show ?thesis by - (rule exI [of _ "[]"], simp)
    next
      case (Suc m')
      have "m' \<le> length (oks (items obs))" using Suc 2(2) v by simp
      then obtain pre post where "obs = pre @ post" "oks (items pre) = take m' (oks (items obs))"
        using 2(1) by blast
      with v Suc show ?thesis by - (rule exI [of _ "(c, Item x) # pre"], rule exI [of _ post], simp)
    qed
  qed
next
  case (3 c obs)
  then have "m \<le> length (oks (items obs))" by simp
  then obtain pre post where "obs = pre @ post" "oks (items pre) = take m (oks (items obs))"
    using 3(1) by blast
  then show ?case by - (rule exI [of _ "(c, Empty) # pre"], rule exI [of _ post], simp)
next
  case (4 c obs)
  then have "m \<le> length (oks (items obs))" by simp
  then obtain pre post where "obs = pre @ post" "oks (items pre) = take m (oks (items obs))"
    using 4(1) by blast
  then show ?case by - (rule exI [of _ "(c, Disconnected) # pre"], rule exI [of _ post], simp)
qed

lemma pre_accept_finished:
  assumes "propose_pre_accept req peers h obs = Finished (Inr (sq, ds, fast))"
  shows "\<exists>pre post replies. obs = pre @ post \<and> replies = oks (items pre) \<and> replies \<noteq> [] \<and> replies_decide req peers replies (sq, ds, fast)"
proof -
  let ?f = "pre_accept_quorum req peers" and ?c = "(pa_seq req, pa_deps req, True)"
  obtain v where "quorum_loop ?f (?c, [], []) obs = Finished (Inr v, (sq, ds, fast))"
    using assms by (auto simp: propose_pre_accept_def quorum_def split: progress.splits sum.splits prod.splits)
  then obtain pre post where obs: "obs = pre @ post" and dec: "decide ?f ?c [] (oks (items pre)) = (Some v, (sq, ds, fast))"
  proof (cases rule: quorum_select.loop_finished)
    case (returned pre post)
    with that show ?thesis by (auto simp: feed_quorum split: prod.splits option.splits)
  qed (auto simp: feed_quorum split: prod.splits option.splits)
  obtain m c0 where m: "m < length (oks (items pre))"
    and f: "?f c0 (take (Suc m) (oks (items pre))) = (Some v, (sq, ds, fast))"
    using decide_Some [OF dec] by auto
  have "\<exists>pre' post'. pre = pre' @ post' \<and> oks (items pre') = take (Suc m) (oks (items pre))"
    by (rule oks_prefix) (use m in simp)
  then obtain pre' post' where pre': "pre = pre' @ post'" "oks (items pre') = take (Suc m) (oks (items pre))" by blast
  define replies where "replies = oks (items pre')"
  have "replies \<noteq> []" using pre'(2) m by (auto simp: replies_def)
  moreover have "?f c0 replies = (Some v, (sq, ds, fast))" using f pre'(2) by (simp add: replies_def)
  note pre_accept_quorum_Some [OF this]
  ultimately show ?thesis
    using obs pre'(1) replies_def append_assoc by blast
qed

section \<open>Properties\<close>

text \<open>
  C19. The decision of \<^verbatim>\<open>propose\<close>. When the PreAccept round ends without an error, it ended on some
  non-empty list of replies, in arrival order. On the fast path every peer replied and every reply
  agreed, and the proposal's own attributes are taken; on the slow path some reply disagreed and, with
  the leader, a majority of the replicas is heard, and each attribute is the maximum of the proposed and
  the replied ones. Conversely, once all peers replied the round has ended.
\<close>

theorem propose_decision:
  "(propose_pre_accept req peers h obs = Finished (Inr (sq, ds, fast)) \<longrightarrow>
     (\<exists>pre post replies. obs = pre @ post \<and> replies = oks (items pre) \<and> replies \<noteq> [] \<and> replies_decide req peers replies (sq, ds, fast)))
   \<and> (list_all quiet obs \<and> 0 < config_size peers \<and> config_size peers \<le> length (oks (items obs)) \<longrightarrow>
     (\<exists>a. propose_pre_accept req peers h obs = Finished (Inr a)))"
proof (intro conjI impI)
  assume "propose_pre_accept req peers h obs = Finished (Inr (sq, ds, fast))"
  then show "\<exists>pre post replies. obs = pre @ post \<and> replies = oks (items pre) \<and> replies \<noteq> [] \<and> replies_decide req peers replies (sq, ds, fast)"
    by (rule pre_accept_finished)
next
  let ?f = "pre_accept_quorum req peers" and ?c = "(pa_seq req, pa_deps req, True)"
  assume a: "list_all quiet obs \<and> 0 < config_size peers \<and> config_size peers \<le> length (oks (items obs))"
  have "fst (decide ?f c acc vs) \<noteq> None" if "config_size peers \<le> length acc + length vs" "vs \<noteq> []" for c acc vs
    using that
  proof (induction vs arbitrary: c acc)
    case (Cons v vs)
    then show ?case
      by (cases "vs = []")
        (auto simp: pre_accept_quorum_def total_replicas_def Let_def split: prod.splits if_splits option.splits)
  qed simp
  moreover have "oks (items obs) \<noteq> []" using a by auto
  ultimately have "fst (decide ?f ?c [] (oks (items obs))) \<noteq> None" using a by simp
  then obtain v a' where "decide ?f ?c [] (oks (items obs)) = (Some v, a')"
    by (cases "decide ?f ?c [] (oks (items obs))") auto
  with a show "\<exists>a. propose_pre_accept req peers h obs = Finished (Inr a)"
    by (cases a') (simp add: propose_pre_accept_def quorum_def quorum_select.loop_quiet_only feed_quorum)
qed

text \<open>Replies for the examples: replica 1 has seen a conflict, replica 2 has not.\<close>

definition demo_reply :: "i32 \<Rightarrow> i32 \<Rightarrow> i32 \<Rightarrow> i32 list \<Rightarrow> pre_accept_reply" where
  "demo_reply j s q ds = \<lparr>par_replica = j, par_slot = 0, par_status = s, par_ballot = 0, par_seq = q, par_deps = ds,
     par_committed_deps = [- 1, - 1, - 1]\<rparr>"

definition demo_req :: pre_accept_request where
  "demo_req = \<lparr>pa_leader_id = 0, pa_replica = 0, pa_slot = 0, pa_ballot = 0, pa_seq = 1, pa_deps = [- 1, - 1, - 1], pa_cmds = [put_k ''a'']\<rparr>"

definition demo_peers :: configuration where
  "demo_peers = \<lparr>cfg_nodes = [\<lparr>nid = 2, naddr = ''b'', nchan = 1\<rparr>, \<lparr>nid = 3, naddr = ''c'', nchan = 2\<rparr>]\<rparr>"

theorem propose_decision_witness:
  "\<exists>pre post replies. [(False, Item \<lparr>nr_node_id = 2, nr_result = Inr (demo_reply 1 PREACCEPTED 6 [- 1, 9, - 1])\<rparr>)] = pre @ post
     \<and> replies = oks (items pre) \<and> replies \<noteq> [] \<and> replies_decide demo_req demo_peers replies (6, [- 1, 9, - 1], False)"
proof -
  let ?obs = "[(False, Item \<lparr>nr_node_id = 2, nr_result = Inr (demo_reply 1 PREACCEPTED 6 [- 1, 9, - 1])\<rparr>)]"
  have "propose_pre_accept demo_req demo_peers \<lparr>rs_size = 2, launch = Some ()\<rparr> ?obs = Finished (Inr (6, [- 1, 9, - 1], False))"
    by code_simp
  with propose_decision [of demo_req demo_peers "\<lparr>rs_size = 2, launch = Some ()\<rparr>" ?obs 6 "[- 1, 9, - 1]" False]
  show ?thesis by blast
qed

lemma find_Some_iff': "find P xs = Some x \<Longrightarrow> x \<in> set xs \<and> P x"
  by (auto simp: find_Some_iff)

lemma max_by_ballot_in: "max_by_ballot best rs = Some r \<Longrightarrow> r \<in> set rs \<or> best = Some r"
  by (induction rs arbitrary: best) (fastforce split: option.splits if_splits)+

lemma max_by_ballot_None: "max_by_ballot best rs = None \<longleftrightarrow> best = None \<and> rs = []"
  by (induction rs arbitrary: best) (auto split: option.splits if_splits)

text \<open>
  The ballot of a Prepare reply is that of the request, so all replies of one round have the same, and
  \<^verbatim>\<open>max_by_key\<close>, which prefers later elements, takes the last.
\<close>

lemma prepare_ballot: "prr_ballot (handle_prepare_inner req st) = pr_ballot req"
  by (simp add: handle_prepare_inner_def Let_def split: option.splits)

lemma max_by_ballot_same:
  assumes "\<forall>r \<in> set rs. prr_ballot r = b"
  shows "max_by_ballot None rs = (if rs = [] then None else Some (last rs))"
proof -
  have "max_by_ballot (Some r) rs = Some (last (r # rs))" if "prr_ballot r = b" "\<forall>r \<in> set rs. prr_ballot r = b" for r rs
    using that by (induction rs arbitrary: r) auto
  with assms show ?thesis by (cases rs) auto
qed

section \<open>What recovery decides from replies that agree\<close>

text \<open>The peer knows the instance, and what it reports of it.\<close>

definition reports_some :: "prepare_reply \<Rightarrow> bool" where
  "reports_some r \<longleftrightarrow> prr_status r \<in> {PREACCEPTED, PREACCEPTED_EQ, ACCEPTED, COMMITTED}"

definition report_of :: "prepare_reply \<Rightarrow> command list \<times> i32 \<times> i32 list" where
  "report_of r = (prr_cmds r, prr_seq r, prr_deps r)"

text \<open>
  Replies of all other replicas that agree on what they report, with none committed: when all are
  pre-accepted they lead to fast recovery, otherwise to the Accept round, with the value they agree on.
\<close>

lemma analyze_agreed:
  assumes len: "length replies = n - 1" and nc: "\<forall>r \<in> set replies. prr_status r \<noteq> COMMITTED" and ex: "\<exists>r \<in> set replies. reports_some r"
    and agree: "\<forall>r \<in> set replies. reports_some r \<longrightarrow> report_of r = (cmds, sq, ds)"
  shows "recover_analyze n replies = Some (if list_all is_preaccepted replies then Try_Fast cmds sq ds else Accept_First cmds sq ds)"
proof -
  have n: "n \<noteq> 0" using len ex by (cases replies) auto
  have none: "find (\<lambda>r. prr_status r = COMMITTED) replies = None" using nc by (auto simp: find_None_iff)
  show ?thesis
  proof (cases "max_by_ballot None (filter (\<lambda>r. prr_status r = ACCEPTED) replies)")
    case (Some r)
    then have "r \<in> set replies" "prr_status r = ACCEPTED" using max_by_ballot_in [OF Some] by auto
    moreover from this have "report_of r = (cmds, sq, ds)" using agree by (simp add: reports_some_def)
    ultimately have "report_of r = (cmds, sq, ds)" "\<not> list_all is_preaccepted replies"
      by (auto simp: list_all_iff is_preaccepted_def status_defs intro!: bexI [of _ r])
    with none Some show ?thesis by (auto simp: recover_analyze_def report_of_def)
  next
    case None
    then have na: "\<forall>r \<in> set replies. prr_status r \<noteq> ACCEPTED" by (simp add: max_by_ballot_None filter_empty_conv)
    let ?pre = "filter is_preaccepted replies"
    have same: "report_of r = (cmds, sq, ds)" if "r \<in> set ?pre" for r
      using that agree by (auto simp: is_preaccepted_def reports_some_def)
    have "?pre \<noteq> []" using ex nc na by (auto simp: filter_empty_conv is_preaccepted_def reports_some_def)
    then obtain p ps where p: "?pre = p # ps" by (cases ?pre) auto
    then have "report_of p = (cmds, sq, ds)" using same by simp
    moreover have "filter (\<lambda>r. prr_seq r = sq \<and> prr_deps r = ds) ?pre = ?pre"
      using same by (intro filter_True) (auto simp: report_of_def)
    moreover have "n - 1 \<le> length ?pre \<longleftrightarrow> list_all is_preaccepted replies"
      using length_filter_less [of _ replies is_preaccepted] len by (fastforce simp: list_all_iff not_le)
    ultimately show ?thesis
      using none None n p by (simp add: recover_analyze_def report_of_def)
  qed
qed

text \<open>
  Recovery asks the peers and not the recoverer. Replica 1 holds \<open>k := a\<close> committed and executed in
  slot \<open>(0, 0)\<close>; its two peers hold nothing. It recovers the instance as a no-operation: its own copy stays,
  and the peers commit the empty command in the same slot.
\<close>

theorem recover_ignores_self:
  "(do {
      mine \<leftarrow> handle_commit_inner (\<lambda>_. [(0, 0)]) one_group (demo_cm ''a'' [- 1, - 1, - 1]) (replica_inner_new 1 3);
      let req = recover_start 0 0 mine;
          replies = [handle_prepare_inner req (replica_inner_new 0 3), handle_prepare_inner req (replica_inner_new 2 3)] in
      recover_analyze 3 replies \<bind> (\<lambda>choice.
      case choice of Accept_First cmds sq ds \<Rightarrow> do {
        (creq, info, mine') \<leftarrow> recover_commit (\<lambda>_. []) one_group 0 0 cmds sq ds False mine;
        peer' \<leftarrow> handle_commit_inner (\<lambda>_. [(0, 0)]) one_group creq (replica_inner_new 2 3);
        Some (map_option i_cmds (instance_at mine' (0, 0)), r_store mine' ''k'', map_option i_cmds (instance_at peer' (0, 0)), executed_at peer' (0, 0), r_store peer' ''k'')
      } | _ \<Rightarrow> None)
    }) = Some (Some [put_k ''a''], Some ''a'', Some [], True, None)"
  by code_simp

end
