(* ===== verification/Epaxos_Cluster.thy ===== *)
theory Epaxos_Cluster
  imports Epaxos_Propose Majorities
begin

text \<open>
  A group of EPaxos replicas, as \<^verbatim>\<open>examples/epaxos/main.rs\<close> sets it up: every replica is a server, and
  the nodes of the configuration have the IDs \<open>1 .. n\<close>, replica \<open>i\<close> being node \<open>i + 1\<close>. Each
  \<^verbatim>\<open>propose\<close> is a task; requests and replies may be delayed, reordered, repeated or lost, and any number
  of proposals run concurrently. The theory shows that the replicas agree on committed instances and
  that committed commands on the same key are ordered by their dependencies. Recovery is not part of
  these steps.
\<close>

section \<open>The group\<close>

record proposal =
  p_req :: pre_accept_request
  p_decision :: "attrs option"
  p_accepted :: bool
  p_committed :: bool

text \<open>The replies sent so far, each under its instance and with the replica that sent it.\<close>

record cluster =
  c_replicas :: "nat \<Rightarrow> replica_inner"
  c_proposals :: "key \<Rightarrow> proposal option"
  c_replies :: "(key \<times> nat \<times> pre_accept_reply) set"
  c_acks :: "(key \<times> nat \<times> accept_reply) set"

definition cluster_init :: "configuration \<Rightarrow> cluster" where
  "cluster_init cfg = \<lparr>c_replicas = (\<lambda>i. replica_inner_new i (config_size cfg)), c_proposals = Map.empty,
     c_replies = {}, c_acks = {}\<rparr>"

definition node_id_of :: "nat \<Rightarrow> u32" where
  "node_id_of i = of_nat (i + 1)"

definition peers_of :: "configuration \<Rightarrow> nat \<Rightarrow> configuration" where
  "peers_of all_cfg i = (let self_id = node_id_of i in without_nodes all_cfg [self_id])"

definition group_config :: "configuration \<Rightarrow> bool" where
  "group_config cfg \<longleftrightarrow> node_ids cfg = map node_id_of [0..<config_size cfg] \<and> config_size cfg < 2 ^ 31"

text \<open>
  What a terminal method of a call for instance \<open>k\<close> may observe: at most one answer per node, and
  successful ones only from the replies that were sent.
\<close>

definition heard :: "key \<Rightarrow> (key \<times> nat \<times> 'r) set \<Rightarrow> 'r node_response obs list \<Rightarrow> bool" where
  "heard k sent obs \<longleftrightarrow> distinct (map nr_node_id (items obs))
     \<and> (\<forall>nr \<in> set (items obs). \<forall>v. nr_result nr = Inr v \<longrightarrow> (\<exists>j. (k, j, v) \<in> sent \<and> nr_node_id nr = node_id_of j))"

abbreviation set_replica :: "nat \<Rightarrow> replica_inner \<Rightarrow> cluster \<Rightarrow> cluster" where
  "set_replica j st c \<equiv> c\<lparr>c_replicas := (c_replicas c)(j := st)\<rparr>"

abbreviation set_proposal :: "key \<Rightarrow> proposal \<Rightarrow> cluster \<Rightarrow> cluster" where
  "set_proposal k p c \<equiv> c\<lparr>c_proposals := (c_proposals c)(k \<mapsto> p)\<rparr>"

text \<open>
  The steps, with the executor calling a hash set and a graph library of which \<open>lib\<close> holds; a hash set
  may iterate differently each time.
\<close>

inductive group_step ::
  "((key set \<Rightarrow> key list) \<Rightarrow> scc_fn \<Rightarrow> bool) \<Rightarrow> configuration \<Rightarrow> cluster \<Rightarrow> cluster \<Rightarrow> bool"
  for lib cfg where
  start: "\<lbrakk>i < config_size cfg; propose_start cmds (c_replicas c i) = Some (req, st')\<rbrakk> \<Longrightarrow>
    group_step lib cfg c (set_proposal (i, pa_slot req)
      \<lparr>p_req = req, p_decision = None, p_accepted = False, p_committed = False\<rparr> (set_replica i st' c))"
| pre_accept: "\<lbrakk>c_proposals c k = Some p; j < config_size cfg; j \<noteq> fst k;
    handle_pre_accept_inner (p_req p) (c_replicas c j) = Some (reply, st')\<rbrakk> \<Longrightarrow>
    group_step lib cfg c ((set_replica j st' c)\<lparr>c_replies := insert (k, j, reply) (c_replies c)\<rparr>)"
| decide: "\<lbrakk>c_proposals c k = Some p; p_decision p = None; heard k (c_replies c) obs;
    propose_pre_accept (p_req p) (peers_of cfg (fst k)) (h :: unit responses) obs = Finished (Inr a)\<rbrakk> \<Longrightarrow>
    group_step lib cfg c (set_proposal k (p\<lparr>p_decision := Some a\<rparr>) c)"
| accept: "\<lbrakk>c_proposals c k = Some p; p_decision p = Some a; propose_accept_request (p_req p) a = Some areq;
    j < config_size cfg; j \<noteq> fst k; handle_accept_inner areq (c_replicas c j) = Some (ack, st')\<rbrakk> \<Longrightarrow>
    group_step lib cfg c ((set_replica j st' c)\<lparr>c_acks := insert (k, j, ack) (c_acks c)\<rparr>)"
| accepted: "\<lbrakk>c_proposals c k = Some p; p_decision p = Some a; propose_accept_request (p_req p) a \<noteq> None;
    heard k (c_acks c) obs; propose_accept (peers_of cfg (fst k)) (h :: unit responses) obs = Finished (Inr ack)\<rbrakk> \<Longrightarrow>
    group_step lib cfg c (set_proposal k (p\<lparr>p_accepted := True\<rparr>) c)"
| commit: "\<lbrakk>c_proposals c k = Some p; p_decision p = Some a; \<not> p_committed p;
    propose_accept_request (p_req p) a = None \<or> p_accepted p;
    propose_commit iter tarjan_scc (p_req p) a (c_replicas c (fst k)) = Some (creq, info, st'); lib iter tarjan_scc\<rbrakk> \<Longrightarrow>
    group_step lib cfg c (set_proposal k (p\<lparr>p_committed := True\<rparr>) (set_replica (fst k) st' c))"
| learn: "\<lbrakk>c_proposals c k = Some p; p_decision p = Some a; p_committed p; j < config_size cfg; j \<noteq> fst k;
    handle_commit_inner iter tarjan_scc (propose_commit_request (p_req p) a) (c_replicas c j) = Some st'; lib iter tarjan_scc\<rbrakk> \<Longrightarrow>
    group_step lib cfg c (set_replica j st' c)"

text \<open>Agreement needs nothing of the libraries.\<close>

abbreviation cluster_step :: "configuration \<Rightarrow> cluster \<Rightarrow> cluster \<Rightarrow> bool" where
  "cluster_step \<equiv> group_step (\<lambda>_ _. True)"

abbreviation reachable_cluster :: "configuration \<Rightarrow> cluster \<Rightarrow> bool" where
  "reachable_cluster cfg c \<equiv> (cluster_step cfg)\<^sup>*\<^sup>* (cluster_init cfg) c"

section \<open>Which handlers commit\<close>

type_synonym decided = "command list \<times> i32 \<times> i32 list"

definition committed_with :: "replica_inner \<Rightarrow> key \<Rightarrow> decided \<Rightarrow> bool" where
  "committed_with st k v \<longleftrightarrow> (\<exists>i. instance_at st k = Some i \<and> i_status i = COMMITTED \<and> v = (i_cmds i, i_seq i, i_deps i))"

lemma ensure_slot_committed:
  "ensure_slot r slot st = Some st' \<Longrightarrow> committed_with st' k v \<Longrightarrow> committed_with st k v"
  by (auto simp: ensure_slot_def Let_def committed_with_def instance_at_def lookup_def nth_list_update nth_append
      instance_new_def status_defs split: if_splits)

lemma ensure_slot_nonneg: "ensure_slot r slot st = Some st' \<Longrightarrow> 0 \<le> slot"
  by (auto simp: ensure_slot_def split: if_splits)

lemma instance_at_set_instance:
  assumes "0 \<le> slot"
  shows "instance_at (set_instance r slot f st) k = (if k = (r, slot) then map_option f (instance_at st k) else instance_at st k)"
proof (cases "0 \<le> snd k \<and> fst k = r \<and> r < length (r_instances st)")
  case True
  then show ?thesis using assms
    by (cases k) (simp add: instance_at_def lookup_def set_instance_def nth_list_update eq_nat_nat_iff)
next
  case False
  then show ?thesis using assms
    by (cases k) (auto simp: instance_at_def lookup_def set_instance_def)
qed

lemma set_instance_committed:
  assumes "committed_with (set_instance r slot f st) k v" and "0 \<le> slot"
  shows "committed_with st k v \<or> k = (r, slot) \<and> (\<exists>i. i_status (f i) = COMMITTED \<and> v = (i_cmds (f i), i_seq (f i), i_deps (f i)))"
  using assms by (auto simp: committed_with_def instance_at_set_instance split: if_splits)

lemma pre_accept_committed:
  assumes "handle_pre_accept_inner req st = Some (reply, st')" "committed_with st' k v"
  shows "committed_with st k v"
proof -
  obtain st1 c f where ens: "ensure_slot (as_usize (pa_replica req)) (pa_slot req) st = Some st1"
    and st': "st' = set_instance (as_usize (pa_replica req)) (pa_slot req) f (st1\<lparr>r_conflicts := c\<rparr>)"
    and f: "\<And>i. i_status (f i) = PREACCEPTED"
    using assms(1) by (auto simp: handle_pre_accept_inner_def Let_def split: bind_splits)
  have "committed_with (st1\<lparr>r_conflicts := c\<rparr>) k v"
    using set_instance_committed [of _ _ f] assms(2) ensure_slot_nonneg [OF ens] f st' by (fastforce simp: status_defs)
  moreover have "instance_at (st1\<lparr>r_conflicts := c\<rparr>) k = instance_at st1 k" by (simp add: instance_at_def)
  ultimately have "committed_with st1 k v" by (simp add: committed_with_def)
  then show ?thesis by (rule ensure_slot_committed [OF ens])
qed

lemma accept_committed:
  assumes "handle_accept_inner req st = Some (reply, st')" "committed_with st' k v"
  shows "committed_with st k v"
proof -
  obtain st1 f where ens: "ensure_slot (as_usize (ac_replica req)) (ac_slot req) st = Some st1"
    and st': "st' = set_instance (as_usize (ac_replica req)) (ac_slot req) f st1" and f: "\<And>i. i_status (f i) = ACCEPTED"
    using assms(1) by (auto simp: handle_accept_inner_def Let_def split: bind_splits)
  have "committed_with st1 k v"
    using set_instance_committed [of _ _ f] assms(2) ensure_slot_nonneg [OF ens] f st' by (fastforce simp: status_defs)
  then show ?thesis by (rule ensure_slot_committed [OF ens])
qed

lemma execute_committed:
  "execute_all_ready iter scc st = Some st' \<Longrightarrow> committed_with st' k v = committed_with st k v"
  using execute_all_ready_tables by (simp add: committed_with_def instance_at_def)

lemma commit_instance_committed:
  assumes "committed_with (commit_instance r slot cmds sq ds st) k v" "0 \<le> slot"
  shows "committed_with st k v \<or> k = (r, slot) \<and> v = (cmds, sq, ds)"
  using set_instance_committed [OF assms [unfolded commit_instance_def]] by auto

lemma commit_committed:
  assumes "handle_commit_inner iter scc req st = Some st'" "committed_with st' k v"
  shows "committed_with st k v \<or> k = (as_usize (cm_replica req), cm_slot req) \<and> v = (cm_cmds req, cm_seq req, cm_deps req)"
  using assms
  by (auto simp: handle_commit_inner_def Let_def execute_committed ensure_slot_committed
      dest: commit_instance_committed ensure_slot_nonneg split: bind_splits if_splits)

lemma commit_local_committed:
  assumes "commit_local iter scc r slot cmds sq ds st = Some st'" "committed_with st' k v"
  shows "committed_with st k v \<or> k = (r, slot) \<and> v = (cmds, sq, ds)"
  using assms
  by (auto simp: commit_local_def execute_committed ensure_slot_committed
      dest: commit_instance_committed ensure_slot_nonneg split: bind_splits if_splits)

lemma start_proposal_committed:
  "start_proposal cmds st = Some (a, st') \<Longrightarrow> committed_with st' k v = committed_with st k v"
  by (auto simp: start_proposal_def Let_def committed_with_def instance_at_def split: bind_splits)

section \<open>What each replica assigned\<close>

declare split_paired_All [simp del] split_paired_Ex [simp del]

definition req_of :: "cluster \<Rightarrow> key \<Rightarrow> pre_accept_request option" where
  "req_of c k = map_option p_req (c_proposals c k)"

definition cmds_of :: "cluster \<Rightarrow> key \<Rightarrow> command list" where
  "cmds_of c k = (case req_of c k of Some req \<Rightarrow> pa_cmds req | None \<Rightarrow> [])"

text \<open>Replica \<open>j\<close> gave instance \<open>k\<close> these attributes, as its leader or in a reply.\<close>

definition assigned :: "cluster \<Rightarrow> nat \<Rightarrow> key \<Rightarrow> i32 \<Rightarrow> i32 list \<Rightarrow> bool" where
  "assigned c j k q ds \<longleftrightarrow> (fst k = j \<and> (\<exists>req. req_of c k = Some req \<and> q = pa_seq req \<and> ds = pa_deps req))
     \<or> (\<exists>rep. (k, j, rep) \<in> c_replies c \<and> q = par_seq rep \<and> ds = par_deps rep)"

definition interfere :: "cluster \<Rightarrow> key \<Rightarrow> key \<Rightarrow> bool" where
  "interfere c k1 k2 \<longleftrightarrow> (\<exists>cmd1 \<in> set (cmds_of c k1). \<exists>cmd2 \<in> set (cmds_of c k2). c_key cmd1 = c_key cmd2 \<and> c_key cmd1 \<noteq> [])"

definition covers :: "i32 list \<Rightarrow> key \<Rightarrow> bool" where
  "covers ds k \<longleftrightarrow> snd k \<le> ds ! fst k"

definition wf_replicas :: "nat \<Rightarrow> cluster \<Rightarrow> bool" where
  "wf_replicas n c \<longleftrightarrow> (\<forall>i < n. r_id (c_replicas c i) = i \<and> r_n (c_replicas c i) = n
     \<and> entries_ok n (r_conflicts (c_replicas c i)) \<and> 0 \<le> r_cur_slot (c_replicas c i))"

definition wf_proposals :: "nat \<Rightarrow> cluster \<Rightarrow> bool" where
  "wf_proposals n c \<longleftrightarrow> (\<forall>k req. req_of c k = Some req \<longrightarrow> fst k < n \<and> pa_replica req = as_i32 (fst k) \<and> pa_slot req = snd k
     \<and> 0 \<le> snd k \<and> snd k < r_cur_slot (c_replicas c (fst k)) \<and> length (pa_deps req) = n)"

definition wf_replies :: "nat \<Rightarrow> cluster \<Rightarrow> bool" where
  "wf_replies n c \<longleftrightarrow> (\<forall>k j rep. (k, j, rep) \<in> c_replies c \<longrightarrow> j < n \<and> j \<noteq> fst k \<and> length (par_deps rep) = n
     \<and> (\<exists>req. req_of c k = Some req \<and> (par_status rep = PREACCEPTED_EQ \<longrightarrow> par_seq rep = pa_seq req \<and> par_deps rep = pa_deps req)))"

definition known :: "cluster \<Rightarrow> bool" where
  "known c \<longleftrightarrow> (\<forall>j k q ds cmd. assigned c j k q ds \<and> cmd \<in> set (cmds_of c k) \<and> c_key cmd \<noteq> [] \<longrightarrow>
     knows (r_conflicts (c_replicas c j)) (c_key cmd) (fst k) (snd k) q)"

definition ordered :: "cluster \<Rightarrow> bool" where
  "ordered c \<longleftrightarrow> (\<forall>j k1 k2 q1 q2 ds1 ds2. assigned c j k1 q1 ds1 \<and> assigned c j k2 q2 ds2 \<and> interfere c k1 k2 \<and> k1 \<noteq> k2
     \<and> (fst k1 = fst k2 \<longrightarrow> fst k1 = j) \<longrightarrow> covers ds2 k1 \<or> covers ds1 k2)"

definition assign_inv :: "nat \<Rightarrow> cluster \<Rightarrow> bool" where
  "assign_inv n c \<longleftrightarrow> wf_replicas n c \<and> wf_proposals n c \<and> wf_replies n c \<and> known c \<and> ordered c"

text \<open>Steps that assign nothing.\<close>

definition same_view :: "nat \<Rightarrow> cluster \<Rightarrow> cluster \<Rightarrow> bool" where
  "same_view n c c' \<longleftrightarrow> req_of c' = req_of c \<and> c_replies c' = c_replies c
     \<and> (\<forall>i. r_id (c_replicas c' i) = r_id (c_replicas c i) \<and> r_n (c_replicas c' i) = r_n (c_replicas c i)
          \<and> r_conflicts (c_replicas c' i) = r_conflicts (c_replicas c i) \<and> r_cur_slot (c_replicas c' i) = r_cur_slot (c_replicas c i))"

lemma same_view_assigned: "same_view n c c' \<Longrightarrow> assigned c' = assigned c \<and> cmds_of c' = cmds_of c \<and> interfere c' = interfere c"
  by (simp add: same_view_def assigned_def cmds_of_def interfere_def fun_eq_iff)

lemma same_view_inv: "same_view n c c' \<Longrightarrow> assign_inv n c \<Longrightarrow> assign_inv n c'"
  using same_view_assigned [of n c c']
  by (simp add: assign_inv_def wf_replicas_def wf_proposals_def wf_replies_def known_def ordered_def same_view_def) blast

text \<open>A step in which replica \<open>j\<close> assigns attributes to instance \<open>k\<close>.\<close>

lemma assign_known_ordered:
  assumes k: "known c" and o: "ordered c" and wf: "wf_replicas n c" and j: "j < n"
    and a: "assigns (c_replicas c j) (fst k) (snd k) cmds q ds st'"
    and new: "\<And>j' k' q' ds'. assigned c' j' k' q' ds' \<longleftrightarrow> assigned c j' k' q' ds' \<or> (j', k', q', ds') = (j, k, q, ds)"
    and cmds: "\<And>j' k' q' ds'. assigned c j' k' q' ds' \<Longrightarrow> cmds_of c' k' = cmds_of c k'" "cmds_of c' k = cmds"
    and reps: "c_replicas c' = (c_replicas c)(j := st')"
    and later: "\<And>k' q' ds'. assigned c j k' q' ds' \<Longrightarrow> fst k' = fst k \<Longrightarrow> fst k = j \<Longrightarrow> k' \<noteq> k \<Longrightarrow> snd k' < snd k"
  shows "known c' \<and> ordered c'"
proof
  have ok: "entries_ok (r_n (c_replicas c j)) (r_conflicts (c_replicas c j))" using wf j by (simp add: wf_replicas_def)
  show "known c'"
    unfolding known_def
  proof (intro allI impI)
    fix j' k' q' ds' cmd
    assume h: "assigned c' j' k' q' ds' \<and> cmd \<in> set (cmds_of c' k') \<and> c_key cmd \<noteq> []"
    show "knows (r_conflicts (c_replicas c' j')) (c_key cmd) (fst k') (snd k') q'"
    proof (cases "assigned c j' k' q' ds'")
      case True
      with h k cmds(1) [OF True] have "knows (r_conflicts (c_replicas c j')) (c_key cmd) (fst k') (snd k') q'"
        unfolding known_def by metis
      then show ?thesis using assigns_knows [OF a] by (auto simp: reps intro: knows_mono)
    next
      case False
      with h new have "j' = j" "k' = k" "q' = q" by auto
      with h cmds(2) assigns_knows [OF a] show ?thesis by (auto simp: reps)
    qed
  qed
  have fresh: "covers ds k'" if h: "assigned c j k' q' ds'" "interfere c' k' k" "k' \<noteq> k" "fst k' = fst k \<longrightarrow> fst k = j" for k' q' ds'
  proof -
    obtain cmd1 cmd2 where cm: "cmd1 \<in> set (cmds_of c k')" "cmd2 \<in> set cmds" "c_key cmd1 = c_key cmd2" "c_key cmd1 \<noteq> []"
      using h(2) cmds(1) [OF h(1)] cmds(2) by (auto simp: interfere_def)
    have "knows (r_conflicts (c_replicas c j)) (c_key cmd2) (fst k') (snd k') q'"
      using k h(1) cm unfolding known_def by metis
    moreover have "fst k' \<noteq> fst k \<or> snd k' < snd k" using later [OF h(1)] h(3,4) by blast
    ultimately show ?thesis using assigns_above [OF a ok _ cm(2)] cm by (auto simp: covers_def)
  qed
  have sym: "interfere c' k1 k2 \<Longrightarrow> interfere c' k2 k1" for k1 k2 by (auto simp: interfere_def) metis
  show "ordered c'"
    unfolding ordered_def
  proof (intro allI impI, elim conjE)
    fix j' k1 k2 q1 q2 ds1 ds2
    assume h: "assigned c' j' k1 q1 ds1" "assigned c' j' k2 q2 ds2" "interfere c' k1 k2" "k1 \<noteq> k2" "fst k1 = fst k2 \<longrightarrow> fst k1 = j'"
    consider (old) "assigned c j' k1 q1 ds1" "assigned c j' k2 q2 ds2"
      | (one) "assigned c j' k1 q1 ds1" "j' = j" "k2 = k" "ds2 = ds" | (two) "assigned c j' k2 q2 ds2" "j' = j" "k1 = k" "ds1 = ds"
      using h(1,2,4) new by auto
    then show "covers ds2 k1 \<or> covers ds1 k2"
    proof cases
      case old
      then have "interfere c k1 k2" using h(3) cmds(1) [OF old(1)] cmds(1) [OF old(2)] by (simp add: interfere_def)
      with old h o show ?thesis unfolding ordered_def by blast
    next
      case one
      with fresh [of k1] h show ?thesis by metis
    next
      case two
      with fresh [of k2] h sym show ?thesis by metis
    qed
  qed
qed

section \<open>The steps keep the assignments in order\<close>

lemma as_usize_as_i32 [simp]: "i < 2 ^ 31 \<Longrightarrow> as_usize (as_i32 i) = i"
  by (simp add: as_usize_def as_i32_def)

lemma assigns_length: "assigns st r slot cmds sq deps st' \<Longrightarrow> length deps = r_n st"
  by (erule assigns_elim) (use raise_attrs_spec cap_self_spec in metis)

lemma ensure_slot_cur: "ensure_slot r slot st = Some st' \<Longrightarrow> r_cur_slot st' = r_cur_slot st"
  by (auto simp: ensure_slot_def Let_def split: if_splits)

lemma exec_keys_cur: "exec_keys st ks = Some st' \<Longrightarrow> r_cur_slot st' = r_cur_slot st"
  by (induction ks arbitrary: st) (auto simp: exec_one_def Let_def split: bind_splits if_splits)

lemma execute_all_ready_cur: "execute_all_ready iter scc st = Some st' \<Longrightarrow> r_cur_slot st' = r_cur_slot st"
  by (auto simp: execute_all_ready_def dest: exec_keys_cur split: bind_splits)

lemma set_instance_cur [simp]: "r_cur_slot (set_instance r slot f st) = r_cur_slot st"
  by (simp add: set_instance_def)

lemma handlers_cur:
  "handle_pre_accept_inner req st = Some (reply, st') \<Longrightarrow> r_cur_slot st' = r_cur_slot st"
  "handle_accept_inner areq st = Some (ack, st') \<Longrightarrow> r_cur_slot st' = r_cur_slot st"
  "handle_commit_inner iter scc creq st = Some st' \<Longrightarrow> r_cur_slot st' = r_cur_slot st"
  "commit_local iter scc r slot cmds sq ds st = Some st' \<Longrightarrow> r_cur_slot st' = r_cur_slot st"
  by (auto simp: handle_pre_accept_inner_def handle_accept_inner_def handle_commit_inner_def commit_local_def commit_instance_def Let_def
      dest!: ensure_slot_cur execute_all_ready_cur split: bind_splits if_splits)

lemma pre_accept_eq:
  assumes "handle_pre_accept_inner req st = Some (reply, st')" "par_status reply = PREACCEPTED_EQ" "length (pa_deps req) = r_n st"
  shows "par_seq reply = pa_seq req \<and> par_deps reply = pa_deps req"
  using assms by (auto simp: handle_pre_accept_inner_def Let_def resize_def status_defs split: bind_splits if_splits)

lemma propose_start_parts:
  assumes "propose_start cmds st = Some (req, st')"
  shows "start_proposal cmds st = Some ((pa_slot req, pa_seq req, pa_deps req), st')"
    and "pa_replica req = as_i32 (r_id st)" "pa_cmds req = cmds" "pa_slot req = r_cur_slot st" "r_cur_slot st' = r_cur_slot st + 1"
  using assms by (auto simp: propose_start_def start_proposal_def checked_i32_def Let_def split: bind_splits if_splits)

lemma assigned_req: "wf_replies n c \<Longrightarrow> assigned c j k q ds \<Longrightarrow> \<exists>req. req_of c k = Some req"
  unfolding wf_replies_def assigned_def by blast

lemma start_inv:
  assumes inv: "assign_inv n c" and i: "i < n" and p: "propose_start cmds (c_replicas c i) = Some (req, st')"
  shows "assign_inv n (set_proposal (i, pa_slot req) \<lparr>p_req = req, p_decision = None, p_accepted = False, p_committed = False\<rparr> (set_replica i st' c))"
proof -
  define c' where "c' = set_proposal (i, pa_slot req) \<lparr>p_req = req, p_decision = None, p_accepted = False, p_committed = False\<rparr> (set_replica i st' c)"
  let ?st = "c_replicas c i" and ?k = "(i, pa_slot req)"
  note parts = propose_start_parts [OF p]
  have wf: "wf_replicas n c" "wf_proposals n c" "wf_replies n c" "known c" "ordered c" using inv by (auto simp: assign_inv_def)
  have st: "r_id ?st = i" "r_n ?st = n" "0 \<le> r_cur_slot ?st" "entries_ok n (r_conflicts ?st)" using wf(1) i by (auto simp: wf_replicas_def)
  have a: "assigns ?st i (pa_slot req) cmds (pa_seq req) (pa_deps req) st'" using as_leader [OF parts(1)] st by simp
  have len: "length (pa_deps req) = n" using assigns_length [OF a] st by simp
  have reqs: "req_of c' = (req_of c)(?k \<mapsto> req)" and reps: "c_replicas c' = (c_replicas c)(i := st')"
    and same: "c_replies c' = c_replies c" by (auto simp: c'_def req_of_def fun_eq_iff)
  have fresh: "req_of c ?k = None"
    using wf(2) parts(4) unfolding wf_proposals_def by (cases "req_of c ?k") force+
  then have none: "(?k, j, rep) \<notin> c_replies c" for j rep using wf(3) unfolding wf_replies_def by fastforce
  have new: "assigned c' j' k' q' ds' \<longleftrightarrow> assigned c j' k' q' ds' \<or> (j', k', q', ds') = (i, ?k, pa_seq req, pa_deps req)" for j' k' q' ds'
    by (cases "k' = ?k") (auto simp: assigned_def reqs same fresh none)
  have "known c' \<and> ordered c'"
  proof (rule assign_known_ordered [OF wf(4,5,1) i _ new])
    show "assigns ?st (fst ?k) (snd ?k) cmds (pa_seq req) (pa_deps req) st'" using a by simp
    show "cmds_of c' k' = cmds_of c k'" if "assigned c j' k' q' ds'" for j' k' q' ds'
    proof -
      have "k' \<noteq> ?k" using that fresh none by (auto simp: assigned_def)
      then show ?thesis by (simp add: cmds_of_def reqs)
    qed
    show "cmds_of c' ?k = cmds" by (simp add: cmds_of_def reqs parts(3))
    show "snd k' < snd ?k" if "assigned c i k' q' ds'" "fst k' = fst ?k" "fst ?k = i" "k' \<noteq> ?k" for k' q' ds'
    proof -
      have "\<exists>req'. req_of c k' = Some req'" by (rule assigned_req [OF wf(3) that(1)])
      then obtain req' where "req_of c k' = Some req'" by blast
      with wf(2) that(2) parts(4) show ?thesis by (auto simp: wf_proposals_def)
    qed
  qed (rule reps)
  moreover have "wf_replicas n c'"
    using wf(1) st parts(5) assigns_knows [OF a] by (auto simp: wf_replicas_def reps)
  moreover have "wf_proposals n c'"
    unfolding wf_proposals_def reqs
  proof (intro allI impI)
    fix k req' assume h: "((req_of c)(?k \<mapsto> req)) k = Some req'"
    show "fst k < n \<and> pa_replica req' = as_i32 (fst k) \<and> pa_slot req' = snd k \<and> 0 \<le> snd k
      \<and> snd k < r_cur_slot (c_replicas c' (fst k)) \<and> length (pa_deps req') = n"
    proof (cases "k = ?k")
      case True
      with h have "req' = req" by simp
      with True i st parts len show ?thesis by (simp add: reps)
    next
      case False
      with h have "req_of c k = Some req'" by simp
      then have "fst k < n \<and> pa_replica req' = as_i32 (fst k) \<and> pa_slot req' = snd k \<and> 0 \<le> snd k
        \<and> snd k < r_cur_slot (c_replicas c (fst k)) \<and> length (pa_deps req') = n" using wf(2) unfolding wf_proposals_def by blast
      then show ?thesis using parts(5) by (auto simp: reps)
    qed
  qed
  moreover have "wf_replies n c'"
    using wf(3) none unfolding wf_replies_def reqs same by (metis fun_upd_other)
  ultimately show ?thesis by (simp add: assign_inv_def c'_def)
qed

lemma pre_accept_inv:
  assumes inv: "assign_inv n c" and n: "n < 2 ^ 31" and p: "c_proposals c k = Some p" and j: "j < n" "j \<noteq> fst k"
    and h: "handle_pre_accept_inner (p_req p) (c_replicas c j) = Some (reply, st')"
  shows "assign_inv n ((set_replica j st' c)\<lparr>c_replies := insert (k, j, reply) (c_replies c)\<rparr>)"
proof -
  define c' where "c' = (set_replica j st' c)\<lparr>c_replies := insert (k, j, reply) (c_replies c)\<rparr>"
  let ?st = "c_replicas c j" and ?req = "p_req p"
  have wf: "wf_replicas n c" "wf_proposals n c" "wf_replies n c" "known c" "ordered c" using inv by (auto simp: assign_inv_def)
  have req: "req_of c k = Some ?req" using p by (simp add: req_of_def)
  then have k: "fst k < n" "pa_replica ?req = as_i32 (fst k)" "pa_slot ?req = snd k" "length (pa_deps ?req) = n"
    using wf(2) unfolding wf_proposals_def by blast+
  have st: "r_n ?st = n" "entries_ok n (r_conflicts ?st)" using wf(1) j by (auto simp: wf_replicas_def)
  have a: "assigns ?st (fst k) (snd k) (pa_cmds ?req) (par_seq reply) (par_deps reply) st'"
    using as_acceptor [OF h] k n by simp
  have reqs: "req_of c' = req_of c" and reps: "c_replicas c' = (c_replicas c)(j := st')"
    and sent: "c_replies c' = insert (k, j, reply) (c_replies c)" by (auto simp: c'_def req_of_def fun_eq_iff)
  have "known c' \<and> ordered c'"
  proof (rule assign_known_ordered [OF wf(4,5,1) j(1) a])
    show "assigned c' j' k' q' ds' \<longleftrightarrow> assigned c j' k' q' ds' \<or> (j', k', q', ds') = (j, k, par_seq reply, par_deps reply)" for j' k' q' ds'
      by (auto simp: assigned_def reqs sent)
    show "cmds_of c' k = pa_cmds ?req" by (simp add: cmds_of_def reqs req)
  qed (use j(2) reps in \<open>simp_all add: cmds_of_def reqs\<close>)
  moreover have "wf_replicas n c'"
    using wf(1) st assigns_knows [OF a] handlers_cur(1) [OF h] by (auto simp: wf_replicas_def reps)
  moreover have "wf_proposals n c'"
    using wf(2) handlers_cur(1) [OF h] unfolding wf_proposals_def reqs by (auto simp: reps)
  moreover have "wf_replies n c'"
    unfolding wf_replies_def reqs sent
  proof (intro allI impI)
    fix k' j' rep assume "(k', j', rep) \<in> insert (k, j, reply) (c_replies c)"
    then consider "(k', j', rep) \<in> c_replies c" | "k' = k" "j' = j" "rep = reply" by blast
    then show "j' < n \<and> j' \<noteq> fst k' \<and> length (par_deps rep) = n \<and>
      (\<exists>req. req_of c k' = Some req \<and> (par_status rep = PREACCEPTED_EQ \<longrightarrow> par_seq rep = pa_seq req \<and> par_deps rep = pa_deps req))"
    proof cases
      case 1
      then show ?thesis using wf(3) unfolding wf_replies_def by blast
    next
      case 2
      with j req assigns_length [OF a] st k(4) pre_accept_eq [OF h] show ?thesis by simp
    qed
  qed
  ultimately show ?thesis by (simp add: assign_inv_def c'_def)
qed

lemma replica_view:
  assumes "r_id st' = r_id (c_replicas c j)" "r_n st' = r_n (c_replicas c j)" "r_conflicts st' = r_conflicts (c_replicas c j)"
    "r_cur_slot st' = r_cur_slot (c_replicas c j)" "req_of c' = req_of c" "c_replies c' = c_replies c"
    "c_replicas c' = (c_replicas c)(j := st')"
  shows "same_view n c c'"
  using assms by (simp add: same_view_def)

lemma step_assign_inv:
  assumes "cluster_step cfg c c'" and "config_size cfg < 2 ^ 31" and inv: "assign_inv (config_size cfg) c"
  shows "assign_inv (config_size cfg) c'"
  using assms(1)
proof (cases rule: group_step.cases)
  case (start i cmds req st')
  then show ?thesis using start_inv [OF inv] by blast
next
  case (pre_accept k p j reply st')
  then show ?thesis using pre_accept_inv [OF inv assms(2)] by blast
next
  case (decide k p obs h a)
  then have "same_view (config_size cfg) c c'" by (auto simp: same_view_def req_of_def fun_eq_iff)
  then show ?thesis using inv by (rule same_view_inv)
next
  case (accept k p a areq j ack st')
  then have "same_view (config_size cfg) c c'"
    using accept_same [OF accept(7)] handlers_cur(2) [OF accept(7)] by (intro replica_view [where j = j and st' = st']) (auto simp: req_of_def)
  then show ?thesis using inv by (rule same_view_inv)
next
  case (accepted k p a obs h ack)
  then have "same_view (config_size cfg) c c'" by (auto simp: same_view_def req_of_def fun_eq_iff)
  then show ?thesis using inv by (rule same_view_inv)
next
  case (commit k p a iter scc creq info st')
  then obtain sq ds fast where "commit_local iter scc (as_usize (pa_replica (p_req p))) (pa_slot (p_req p)) (pa_cmds (p_req p)) sq ds (c_replicas c (fst k)) = Some st'"
    by (auto simp: propose_commit_def split: bind_splits prod.splits)
  then have "same_view (config_size cfg) c c'"
    using commit commit_same(2) handlers_cur(4) by (intro replica_view [where j = "fst k" and st' = st']) (auto simp: req_of_def fun_eq_iff)
  then show ?thesis using inv by (rule same_view_inv)
next
  case (learn k p a j iter scc st')
  then have "same_view (config_size cfg) c c'"
    using commit_same(1) [OF learn(7)] handlers_cur(3) [OF learn(7)] by (intro replica_view [where j = j and st' = st']) (auto simp: req_of_def)
  then show ?thesis using inv by (rule same_view_inv)
qed

section \<open>Decisions rest on majorities\<close>

definition replica_majority :: "nat \<Rightarrow> nat set \<Rightarrow> bool" where
  "replica_majority n Q \<longleftrightarrow> Q \<subseteq> {..<n} \<and> n < 2 * card Q"

interpretation replica_majorities: quorum_system "{..<n}" "replica_majority n" for n
proof
  show "replica_majority n P" if "replica_majority n Q" "Q \<subseteq> P" "P \<subseteq> {..<n}" for Q P
  proof -
    have "card Q \<le> card P" using that by (intro card_mono) (auto intro: finite_subset)
    with that show ?thesis by (simp add: replica_majority_def)
  qed
  show "Q \<inter> P \<noteq> {}" if "replica_majority n Q" "replica_majority n P" for Q P
  proof
    assume "Q \<inter> P = {}"
    moreover have "finite Q" "finite P" using that by (auto simp: replica_majority_def intro: finite_subset)
    ultimately have "card Q + card P = card (Q \<union> P)" by (simp add: card_Un_disjoint)
    also have "\<dots> \<le> card {..<n}" using that by (intro card_mono) (auto simp: replica_majority_def)
    finally show False using that by (simp add: replica_majority_def)
  qed
qed (simp add: replica_majority_def)

text \<open>The attributes of an instance bound those a majority assigned, its leader included.\<close>

definition majority_behind :: "nat \<Rightarrow> cluster \<Rightarrow> key \<Rightarrow> i32 list \<Rightarrow> bool" where
  "majority_behind n c k ds \<longleftrightarrow> (\<exists>Q. replica_majority n Q \<and> fst k \<in> Q
     \<and> (\<forall>j \<in> Q. \<exists>q' ds'. assigned c j k q' ds' \<and> (\<forall>i < n. ds' ! i \<le> ds ! i)))"

lemma node_id_of_inj: "m < 2 ^ 31 \<Longrightarrow> inj_on node_id_of {0..<m}"
proof (rule inj_onI)
  fix x y assume "m < 2 ^ 31" "x \<in> {0..<m}" "y \<in> {0..<m}" "node_id_of x = node_id_of y"
  then have "unat (of_nat (x + 1) :: u32) = unat (of_nat (y + 1) :: u32)" "x + 1 < 2 ^ 32" "y + 1 < 2 ^ 32"
    by (auto simp: node_id_of_def)
  then show "x = y" by (simp only: unsigned_of_nat take_bit_nat_eq_self len_num0 len_num1 len_bit0) (simp add: take_bit_nat_eq_self)
qed

lemma peers_size:
  assumes "group_config cfg" "i < config_size cfg"
  shows "config_size (peers_of cfg i) = config_size cfg - 1"
proof -
  let ?ids = "node_ids cfg"
  have ids: "?ids = map node_id_of [0..<config_size cfg]" and n: "config_size cfg < 2 ^ 31" using assms(1) by (auto simp: group_config_def)
  have d: "distinct ?ids" unfolding ids using node_id_of_inj [OF n] by (simp add: distinct_map)
  have "node_id_of i \<in> set ?ids" using assms(2) by (simp add: ids)
  have "length (filter (\<lambda>x. x \<noteq> node_id_of i) ?ids) = length (remove1 (node_id_of i) ?ids)"
    using d by (simp add: distinct_remove1_removeAll removeAll_filter_not_eq eq_commute)
  also have "\<dots> = config_size cfg - 1"
    using \<open>node_id_of i \<in> set ?ids\<close> by (simp add: length_remove1 node_ids_def config_size_def)
  finally show ?thesis
    by (simp add: peers_of_def without_nodes_def config_size_def node_ids_def filter_map comp_def)
qed

lemma decision_majority:
  assumes inv: "assign_inv (config_size cfg) c" and g: "group_config cfg" and p: "c_proposals c k = Some p"
    and heard: "heard k (c_replies c) obs"
    and fin: "propose_pre_accept (p_req p) (peers_of cfg (fst k)) h obs = Finished (Inr (sq, ds, fast))"
  shows "majority_behind (config_size cfg) c k ds"
proof -
  let ?n = "config_size cfg" and ?req = "p_req p"
  have wf: "wf_proposals ?n c" "wf_replies ?n c" using inv by (auto simp: assign_inv_def)
  have req: "req_of c k = Some ?req" using p by (simp add: req_of_def)
  then have k: "fst k < ?n" "length (pa_deps ?req) = ?n" using wf(1) unfolding wf_proposals_def by blast+
  have size: "config_size (peers_of cfg (fst k)) = ?n - 1" using peers_size [OF g k(1)] .
  obtain pre post replies where obs: "obs = pre @ post" and replies: "replies = oks (items pre)"
    and dec: "replies_decide ?req (peers_of cfg (fst k)) replies (sq, ds, fast)"
    using pre_accept_finished [OF fin] by blast
  define J where "J = {j. \<exists>v \<in> set replies. (k, j, v) \<in> c_replies c}"
  have J: "J \<subseteq> {..<?n} - {fst k}" using wf(2) unfolding wf_replies_def J_def by auto
  have "items obs = items pre @ items post" unfolding obs by (induction pre rule: items.induct) auto
  with heard have h: "distinct (map nr_node_id (items pre))"
    "\<forall>nr \<in> set (items pre). \<forall>v. nr_result nr = Inr v \<longrightarrow> (\<exists>j. (k, j, v) \<in> c_replies c \<and> nr_node_id nr = node_id_of j)"
    by (auto simp: heard_def)
  have "ok_nodes (items pre) \<subseteq> node_id_of ` J"
    unfolding ok_nodes_def J_def replies oks_nodes using h(2) by blast
  moreover have fin_J: "finite J" using J by (rule finite_subset) simp
  ultimately have "length replies \<le> card J"
    using answered_count [OF h(1)] card_mono [of "node_id_of ` J" "ok_nodes (items pre)"] card_image_le [of J node_id_of]
    unfolding replies by simp
  then have "Suc (length replies) \<le> card (insert (fst k) J)" using J fin_J by (subst card_insert_disjoint) auto
  moreover have "?n - 1 \<le> length replies \<or> ?n div 2 \<le> length replies"
    using dec k(1) by (auto simp: size slow_quorum_peers_def total_replicas_def split: if_splits)
  ultimately have "?n < 2 * card (insert (fst k) J)" using k(1) by linarith
  then have "replica_majority ?n (insert (fst k) J)" using J k(1) by (auto simp: replica_majority_def)
  moreover have "\<exists>q' ds'. assigned c j k q' ds' \<and> (\<forall>i < ?n. ds' ! i \<le> ds ! i)" if j: "j \<in> insert (fst k) J" for j
  proof (cases "j = fst k")
    case True
    have "assigned c j k (pa_seq ?req) (pa_deps ?req)" using True req by (auto simp: assigned_def)
    moreover have "pa_deps ?req ! i \<le> ds ! i" if "i < ?n" for i
      using dec that k(2) by (cases fast) auto
    ultimately show ?thesis by blast
  next
    case False
    with j obtain v where v: "v \<in> set replies" "(k, j, v) \<in> c_replies c" by (auto simp: J_def)
    have "length (par_deps v) = ?n" "par_status v = PREACCEPTED_EQ \<longrightarrow> par_deps v = pa_deps ?req"
      using wf(2) v(2) req unfolding wf_replies_def by force+
    then have "par_deps v ! i \<le> ds ! i" if "i < ?n" for i
    proof (cases fast)
      case True
      then have "ds = pa_deps ?req" "par_status v = PREACCEPTED_EQ" using dec v(1) by (auto simp: list_all_iff)
      then show ?thesis using \<open>par_status v = PREACCEPTED_EQ \<longrightarrow> par_deps v = pa_deps ?req\<close> by simp
    next
      case False
      then have "ds ! i = Max (insert (pa_deps ?req ! i) (dep_votes i replies))" using dec that k(2) by auto
      moreover have "par_deps v ! i \<in> dep_votes i replies"
        using v(1) that \<open>length (par_deps v) = ?n\<close> by (auto simp: dep_votes_def)
      ultimately show ?thesis by simp
    qed
    with v(2) show ?thesis unfolding assigned_def by blast
  qed
  ultimately show ?thesis unfolding majority_behind_def by blast
qed

section \<open>Committed instances were decided\<close>

definition decided :: "cluster \<Rightarrow> key \<Rightarrow> decided \<Rightarrow> bool" where
  "decided c k v \<longleftrightarrow> (\<exists>p sq ds fast. c_proposals c k = Some p \<and> p_decision p = Some (sq, ds, fast) \<and> v = (pa_cmds (p_req p), sq, ds))"

definition decision_inv :: "nat \<Rightarrow> cluster \<Rightarrow> bool" where
  "decision_inv n c \<longleftrightarrow> (\<forall>k cmds sq ds. decided c k (cmds, sq, ds) \<longrightarrow> cmds_of c k = cmds \<and> fst k < n \<and> majority_behind n c k ds)"

definition commit_inv :: "nat \<Rightarrow> cluster \<Rightarrow> bool" where
  "commit_inv n c \<longleftrightarrow> (\<forall>j k v. j < n \<and> committed_with (c_replicas c j) k v \<longrightarrow> decided c k v)"

lemma start_fresh:
  assumes "assign_inv n c" "i < n" "propose_start cmds (c_replicas c i) = Some (req, st')"
  shows "c_proposals c (i, pa_slot req) = None" "((i, pa_slot req), j, rep) \<notin> c_replies c"
proof -
  have wf: "wf_proposals n c" "wf_replies n c" using assms(1) by (auto simp: assign_inv_def)
  have "req_of c (i, pa_slot req) = None"
    using wf(1) propose_start_parts(4) [OF assms(3)] unfolding wf_proposals_def by (cases "req_of c (i, pa_slot req)") force+
  moreover from this have "((i, pa_slot req), j, rep) \<notin> c_replies c" using wf(2) unfolding wf_replies_def by fastforce
  ultimately show "c_proposals c (i, pa_slot req) = None" "((i, pa_slot req), j, rep) \<notin> c_replies c"
    by (auto simp: req_of_def)
qed

text \<open>Requests, replies and decisions persist.\<close>

lemma step_persistent:
  assumes "cluster_step cfg c c'" and "assign_inv (config_size cfg) c"
  shows "(req_of c k = Some req \<longrightarrow> req_of c' k = Some req) \<and> c_replies c \<subseteq> c_replies c' \<and> (decided c k v \<longrightarrow> decided c' k v)"
  using assms(1)
proof (cases rule: group_step.cases)
  case (start i cmds req' st')
  then show ?thesis using start_fresh [OF assms(2) start(2,3)] by (auto simp: req_of_def decided_def)
qed (auto simp: req_of_def decided_def)

lemma majority_behind_mono:
  assumes "cluster_step cfg c c'" "assign_inv (config_size cfg) c" "majority_behind n c k ds"
  shows "majority_behind n c' k ds"
proof -
  have "assigned c' j k q ds'" if "assigned c j k q ds'" for j q ds'
    using that step_persistent [OF assms(1,2)] unfolding assigned_def by blast
  with assms(3) show ?thesis unfolding majority_behind_def by meson
qed

lemma decision_step:
  assumes st: "cluster_step cfg c c'" and g: "group_config cfg" and inv: "assign_inv (config_size cfg) c"
    and d: "decided c' k (cmds, sq, ds)"
  shows "decided c k (cmds, sq, ds) \<or> cmds_of c k = cmds \<and> fst k < config_size cfg \<and> majority_behind (config_size cfg) c k ds"
  using st
proof (cases rule: group_step.cases)
  case (decide k0 p obs h a)
  show ?thesis
  proof (cases "k = k0")
    case True
    with d decide have a: "a = (sq, ds, snd (snd a))" "cmds = pa_cmds (p_req p)" by (auto simp: decided_def)
    have "majority_behind (config_size cfg) c k ds"
      using decision_majority [OF inv g decide(2) decide(4)] decide(5) a(1) True by metis
    moreover have "req_of c k = Some (p_req p)" using decide(2) True by (simp add: req_of_def)
    moreover from this have "fst k < config_size cfg" using inv unfolding assign_inv_def wf_proposals_def by blast
    ultimately show ?thesis using a(2) by (simp add: cmds_of_def)
  next
    case False
    with d decide show ?thesis by (auto simp: decided_def)
  qed
qed (use d in \<open>auto simp: decided_def split: if_splits\<close>)

lemma commit_step:
  assumes st: "cluster_step cfg c c'" and n: "config_size cfg < 2 ^ 31" and inv: "assign_inv (config_size cfg) c"
    and cm: "committed_with (c_replicas c' j) k v"
  shows "committed_with (c_replicas c j) k v \<or> decided c k v"
proof -
  have key: "(as_usize (pa_replica (p_req p)), pa_slot (p_req p)) = k0" if "c_proposals c k0 = Some p" for k0 p
  proof -
    have "req_of c k0 = Some (p_req p)" using that by (simp add: req_of_def)
    then have "fst k0 < config_size cfg" "pa_replica (p_req p) = as_i32 (fst k0)" "pa_slot (p_req p) = snd k0"
      using inv unfolding assign_inv_def wf_proposals_def by blast+
    then show ?thesis using n by (cases k0) simp
  qed
  show ?thesis
    using st
  proof (cases rule: group_step.cases)
    case (start i cmds req st')
    with cm start_proposal_committed [OF propose_start_parts(1) [OF start(3)]] show ?thesis by (auto split: if_splits)
  next
    case (pre_accept k0 p j0 reply st')
    with cm pre_accept_committed [OF pre_accept(5)] show ?thesis by (auto split: if_splits)
  next
    case (accept k0 p a areq j0 ack st')
    with cm accept_committed [OF accept(7)] show ?thesis by (auto split: if_splits)
  next
    case (commit k0 p a iter scc creq info st')
    obtain sq ds fast where a: "a = (sq, ds, fast)" by (cases a)
    with commit have cl: "commit_local iter scc (as_usize (pa_replica (p_req p))) (pa_slot (p_req p)) (pa_cmds (p_req p)) sq ds (c_replicas c (fst k0)) = Some st'"
      by (auto simp: propose_commit_def split: bind_splits)
    have "decided c k0 (pa_cmds (p_req p), sq, ds)" using commit a by (auto simp: decided_def)
    with cm commit commit_local_committed [OF cl, of k v] key [OF commit(2)] show ?thesis by (auto split: if_splits)
  next
    case (learn k0 p a j0 iter scc st')
    obtain sq ds fast where a: "a = (sq, ds, fast)" by (cases a)
    have "decided c k0 (pa_cmds (p_req p), sq, ds)" using learn a by (auto simp: decided_def)
    with cm learn commit_committed [OF learn(7), of k v] key [OF learn(2)] a show ?thesis
      by (auto simp: propose_commit_request_def split: if_splits)
  qed (use cm in auto)
qed

definition cluster_inv :: "nat \<Rightarrow> cluster \<Rightarrow> bool" where
  "cluster_inv n c \<longleftrightarrow> assign_inv n c \<and> decision_inv n c \<and> commit_inv n c"

lemma cluster_inv_init: "cluster_inv (config_size cfg) (cluster_init cfg)"
  by (auto simp: cluster_inv_def assign_inv_def wf_replicas_def wf_proposals_def wf_replies_def known_def ordered_def decision_inv_def
      commit_inv_def decided_def assigned_def req_of_def committed_with_def instance_at_def lookup_def cluster_init_def
      replica_inner_new_def entries_ok_def split: if_splits)

lemma cluster_inv_step:
  assumes st: "cluster_step cfg c c'" and g: "group_config cfg" and inv: "cluster_inv (config_size cfg) c"
  shows "cluster_inv (config_size cfg) c'"
proof -
  let ?n = "config_size cfg"
  have a: "assign_inv ?n c" and d: "decision_inv ?n c" and m: "commit_inv ?n c" using inv by (auto simp: cluster_inv_def)
  have n: "?n < 2 ^ 31" using g by (simp add: group_config_def)
  have "cmds_of c' k = cmds_of c k" if "cmds_of c k = cmds" "majority_behind ?n c k ds" for k cmds ds
  proof -
    have "\<exists>j q' ds'. assigned c j k q' ds'" using that(2) unfolding majority_behind_def by blast
    then obtain j q' ds' where "assigned c j k q' ds'" by blast
    moreover have "wf_replies ?n c" using a by (simp add: assign_inv_def)
    ultimately obtain req where "req_of c k = Some req" using assigned_req by blast
    then show ?thesis using step_persistent [OF st a] by (simp add: cmds_of_def)
  qed
  then have "decision_inv ?n c'"
    unfolding decision_inv_def using decision_step [OF st g a] majority_behind_mono [OF st a] d [unfolded decision_inv_def] by metis
  moreover have "commit_inv ?n c'"
    unfolding commit_inv_def using commit_step [OF st n a] step_persistent [OF st a] m [unfolded commit_inv_def] by metis
  ultimately show ?thesis using step_assign_inv [OF st n a] by (simp add: cluster_inv_def)
qed

lemma reachable_cluster_inv:
  assumes "reachable_cluster cfg c" "group_config cfg"
  shows "cluster_inv (config_size cfg) c"
  using assms(1) by induction (simp_all add: cluster_inv_init cluster_inv_step [OF _ assms(2)])

section \<open>Properties\<close>

text \<open>
  C1. Agreement. In every state that any number of concurrent proposals can reach, with messages
  delayed, reordered, repeated or lost, two replicas that hold the same instance as committed hold the
  same commands, sequence number and dependencies in it, and the commands are those its leader proposed.
\<close>

theorem replicas_agree:
  assumes "group_config cfg" "reachable_cluster cfg c" "i < config_size cfg" "j < config_size cfg"
    and "committed_with (c_replicas c i) k (cmds, sq, ds)" "committed_with (c_replicas c j) k (cmds', sq', ds')"
  shows "cmds' = cmds \<and> sq' = sq \<and> ds' = ds \<and> (\<exists>p. c_proposals c k = Some p \<and> pa_cmds (p_req p) = cmds)"
proof -
  have "commit_inv (config_size cfg) c" using reachable_cluster_inv [OF assms(2,1)] by (simp add: cluster_inv_def)
  then have "decided c k (cmds, sq, ds)" "decided c k (cmds', sq', ds')" using assms(3-6) unfolding commit_inv_def by blast+
  then show ?thesis by (auto simp: decided_def)
qed

text \<open>
  C2. Committed commands that interfere are ordered. If two different instances are committed anywhere
  and contain commands on the same key, one of them depends on the leader of the other at least up to
  the other's slot; so no two replicas can see conflicting commands without seeing their dependency.
\<close>

theorem conflicting_commits_ordered:
  assumes "group_config cfg" "reachable_cluster cfg c" "i < config_size cfg" "j < config_size cfg"
    and "committed_with (c_replicas c i) k1 (cmds1, sq1, ds1)" "committed_with (c_replicas c j) k2 (cmds2, sq2, ds2)"
    and "k1 \<noteq> k2" "cmd1 \<in> set cmds1" "cmd2 \<in> set cmds2" "c_key cmd1 = c_key cmd2" "c_key cmd1 \<noteq> []"
  shows "snd k1 \<le> ds2 ! fst k1 \<or> snd k2 \<le> ds1 ! fst k2"
proof -
  let ?n = "config_size cfg"
  have inv: "ordered c" "decision_inv ?n c" "commit_inv ?n c"
    using reachable_cluster_inv [OF assms(2,1)] by (auto simp: cluster_inv_def assign_inv_def)
  have d: "decided c k1 (cmds1, sq1, ds1)" "decided c k2 (cmds2, sq2, ds2)" using assms(3-6) inv(3) unfolding commit_inv_def by blast+
  have c: "cmds_of c k1 = cmds1" "fst k1 < ?n" "majority_behind ?n c k1 ds1" "cmds_of c k2 = cmds2" "fst k2 < ?n" "majority_behind ?n c k2 ds2"
    using inv(2) d unfolding decision_inv_def by blast+
  have i: "interfere c k1 k2" using assms(8-11) c by (auto simp: interfere_def)
  obtain Q1 Q2 where Q: "replica_majority ?n Q1" "fst k1 \<in> Q1" "replica_majority ?n Q2" "fst k2 \<in> Q2"
    and b1: "\<And>j. j \<in> Q1 \<Longrightarrow> \<exists>q' ds'. assigned c j k1 q' ds' \<and> (\<forall>i < ?n. ds' ! i \<le> ds1 ! i)"
    and b2: "\<And>j. j \<in> Q2 \<Longrightarrow> \<exists>q' ds'. assigned c j k2 q' ds' \<and> (\<forall>i < ?n. ds' ! i \<le> ds2 ! i)"
    using c(3,6) unfolding majority_behind_def by blast
  obtain j where j: "j \<in> Q1" "j \<in> Q2" "fst k1 = fst k2 \<longrightarrow> fst k1 = j"
    using replica_majorities.common_member [OF Q(1,3) order_refl order_refl] Q(2,4) by metis
  obtain q1' ds1' q2' ds2' where as: "assigned c j k1 q1' ds1'" "\<forall>i < ?n. ds1' ! i \<le> ds1 ! i"
    "assigned c j k2 q2' ds2'" "\<forall>i < ?n. ds2' ! i \<le> ds2 ! i" using b1 [OF j(1)] b2 [OF j(2)] by blast
  then have "covers ds2' k1 \<or> covers ds1' k2" using inv(1) i assms(7) j(3) unfolding ordered_def by blast
  then show ?thesis using as(2,4) c(2,5) unfolding covers_def by (meson order_trans)
qed

section \<open>A run of two replicas\<close>

text \<open>Replica 0 proposes \<open>k := a\<close>, both commit it; then replica 1 proposes \<open>k := b\<close> and commits it.\<close>

definition demo_group :: configuration where
  "demo_group = \<lparr>cfg_nodes = [\<lparr>nid = 1, naddr = ''a'', nchan = 0\<rparr>, \<lparr>nid = 2, naddr = ''b'', nchan = 1\<rparr>]\<rparr>"

definition demo_start0 :: "pre_accept_request \<times> replica_inner" where
  "demo_start0 = the (propose_start [put_k ''a''] (replica_inner_new 0 2))"
definition demo_reply0 :: "pre_accept_reply \<times> replica_inner" where
  "demo_reply0 = the (handle_pre_accept_inner (fst demo_start0) (replica_inner_new 1 2))"
definition demo_attrs0 :: attrs where "demo_attrs0 = (1, [- 1, - 1], True)"
definition demo_commit0 :: "commit_request \<times> commit_info \<times> replica_inner" where
  "demo_commit0 = the (propose_commit (\<lambda>_. [(0, 0)]) one_group (fst demo_start0) demo_attrs0 (snd demo_start0))"
definition demo_learn0 :: replica_inner where
  "demo_learn0 = the (handle_commit_inner (\<lambda>_. [(0, 0)]) one_group (propose_commit_request (fst demo_start0) demo_attrs0) (snd demo_reply0))"
definition demo_start1 :: "pre_accept_request \<times> replica_inner" where
  "demo_start1 = the (propose_start [put_k ''b''] demo_learn0)"
definition demo_reply1 :: "pre_accept_reply \<times> replica_inner" where
  "demo_reply1 = the (handle_pre_accept_inner (fst demo_start1) (snd (snd demo_commit0)))"
definition demo_attrs1 :: attrs where "demo_attrs1 = (2, [0, - 1], True)"
definition demo_commit1 :: "commit_request \<times> commit_info \<times> replica_inner" where
  "demo_commit1 = the (propose_commit (\<lambda>_. [(1, 0)]) one_group (fst demo_start1) demo_attrs1 (snd demo_start1))"

lemma the_pair: "map_option (\<lambda>_. ()) X = Some () \<Longrightarrow> X = Some (fst (the X), snd (the X))"
  by (cases X) auto

lemma the_triple: "map_option (\<lambda>_. ()) X = Some () \<Longrightarrow> X = Some (fst (the X), fst (snd (the X)), snd (snd (the X)))"
  by (cases X) auto

lemma the_one: "map_option (\<lambda>_. ()) X = Some () \<Longrightarrow> X = Some (the X)"
  by (cases X) auto

abbreviation demo_obs :: "nat \<Rightarrow> 'r \<Rightarrow> 'r node_response obs list" where
  "demo_obs j r \<equiv> [(False, Item \<lparr>nr_node_id = node_id_of j, nr_result = Inr r\<rparr>)]"

lemma demo_parts:
  "propose_start [put_k ''a''] (replica_inner_new 0 2) = Some (fst demo_start0, snd demo_start0)"
  "handle_pre_accept_inner (fst demo_start0) (replica_inner_new 1 2) = Some (fst demo_reply0, snd demo_reply0)"
  "propose_commit (\<lambda>_. [(0, 0)]) one_group (fst demo_start0) demo_attrs0 (snd demo_start0)
     = Some (fst demo_commit0, fst (snd demo_commit0), snd (snd demo_commit0))"
  "handle_commit_inner (\<lambda>_. [(0, 0)]) one_group (propose_commit_request (fst demo_start0) demo_attrs0) (snd demo_reply0) = Some demo_learn0"
  "propose_start [put_k ''b''] demo_learn0 = Some (fst demo_start1, snd demo_start1)"
  "handle_pre_accept_inner (fst demo_start1) (snd (snd demo_commit0)) = Some (fst demo_reply1, snd demo_reply1)"
  "propose_commit (\<lambda>_. [(1, 0)]) one_group (fst demo_start1) demo_attrs1 (snd demo_start1)
     = Some (fst demo_commit1, fst (snd demo_commit1), snd (snd demo_commit1))"
  unfolding demo_start0_def demo_reply0_def demo_commit0_def demo_learn0_def demo_start1_def demo_reply1_def demo_commit1_def
  by ((rule the_pair the_triple the_one, code_simp)+)

lemma demo_decisions:
  "propose_pre_accept (fst demo_start0) (peers_of demo_group 0) \<lparr>rs_size = 1, launch = Some ()\<rparr> (demo_obs 1 (fst demo_reply0)) = Finished (Inr demo_attrs0)"
  "propose_pre_accept (fst demo_start1) (peers_of demo_group 1) \<lparr>rs_size = 1, launch = Some ()\<rparr> (demo_obs 0 (fst demo_reply1)) = Finished (Inr demo_attrs1)"
  "pa_slot (fst demo_start0) = 0" "pa_slot (fst demo_start1) = 0"
  "propose_accept_request (fst demo_start0) demo_attrs0 = None" "propose_accept_request (fst demo_start1) demo_attrs1 = None"
  by code_simp+

lemma demo_group_ok: "group_config demo_group" "config_size demo_group = 2"
  by (simp_all add: group_config_def demo_group_def config_size_def node_ids_def node_id_of_def upt_rec)

lemma demo_run:
  "\<exists>c. reachable_cluster demo_group c \<and> c_replicas c 0 = snd demo_reply1 \<and> c_replicas c 1 = snd (snd demo_commit1)"
proof -
  let ?h = "\<lparr>rs_size = 1, launch = Some ()\<rparr> :: unit responses"
  let ?p = "\<lambda>req. \<lparr>p_req = req, p_decision = None, p_accepted = False, p_committed = False\<rparr>"
  note parts = demo_parts and dec = demo_decisions and size = demo_group_ok(2)
  define c0 where "c0 = cluster_init demo_group"
  define c1 where "c1 = set_proposal (0, 0) (?p (fst demo_start0)) (set_replica 0 (snd demo_start0) c0)"
  define c2 where "c2 = (set_replica 1 (snd demo_reply0) c1)\<lparr>c_replies := insert ((0, 0), 1, fst demo_reply0) (c_replies c1)\<rparr>"
  define c3 where "c3 = set_proposal (0, 0) ((?p (fst demo_start0))\<lparr>p_decision := Some demo_attrs0\<rparr>) c2"
  define c4 where "c4 = set_proposal (0, 0) ((?p (fst demo_start0))\<lparr>p_decision := Some demo_attrs0, p_committed := True\<rparr>)
    (set_replica 0 (snd (snd demo_commit0)) c3)"
  define c5 where "c5 = set_replica 1 demo_learn0 c4"
  define c6 where "c6 = set_proposal (1, 0) (?p (fst demo_start1)) (set_replica 1 (snd demo_start1) c5)"
  define c7 where "c7 = (set_replica 0 (snd demo_reply1) c6)\<lparr>c_replies := insert ((1, 0), 0, fst demo_reply1) (c_replies c6)\<rparr>"
  define c8 where "c8 = set_proposal (1, 0) ((?p (fst demo_start1))\<lparr>p_decision := Some demo_attrs1\<rparr>) c7"
  define c9 where "c9 = set_proposal (1, 0) ((?p (fst demo_start1))\<lparr>p_decision := Some demo_attrs1, p_committed := True\<rparr>)
    (set_replica 1 (snd (snd demo_commit1)) c8)"
  note defs = c0_def c1_def c2_def c3_def c4_def c5_def c6_def c7_def c8_def c9_def
  have init: "c_replicas c0 i = replica_inner_new i 2" for i by (simp add: c0_def cluster_init_def size)
  have heard: "heard (0, 0) (c_replies c2) (demo_obs 1 (fst demo_reply0))" "heard (1, 0) (c_replies c7) (demo_obs 0 (fst demo_reply1))"
    by (auto simp: heard_def c2_def c7_def)
  have "cluster_step demo_group c0 c1"
    using start [where lib = "\<lambda>_ _. True", of 0 demo_group "[put_k ''a'']" c0 "fst demo_start0" "snd demo_start0"] parts(1) dec(3) by (simp add: size init c1_def)
  moreover have "cluster_step demo_group c1 c2"
    using pre_accept [where lib = "\<lambda>_ _. True", of c1 "(0, 0)" "?p (fst demo_start0)" 1 demo_group "fst demo_reply0" "snd demo_reply0"] parts(2)
    by (simp add: size init c1_def c2_def)
  moreover have "cluster_step demo_group c2 c3"
    using decide [where lib = "\<lambda>_ _. True", of c2 "(0, 0)" "?p (fst demo_start0)" "demo_obs 1 (fst demo_reply0)" demo_group ?h demo_attrs0] dec(1) heard(1)
    by (simp add: c1_def c2_def c3_def)
  moreover have "cluster_step demo_group c3 c4"
    using commit [where lib = "\<lambda>_ _. True", of c3 "(0, 0)" "(?p (fst demo_start0))\<lparr>p_decision := Some demo_attrs0\<rparr>" demo_attrs0 "\<lambda>_. [(0, 0)]" one_group
        "fst demo_commit0" "fst (snd demo_commit0)" "snd (snd demo_commit0)" demo_group] parts(3) dec(5)
    by (simp add: c1_def c2_def c3_def c4_def)
  moreover have "cluster_step demo_group c4 c5"
    using learn [where lib = "\<lambda>_ _. True", of c4 "(0, 0)" "(?p (fst demo_start0))\<lparr>p_decision := Some demo_attrs0, p_committed := True\<rparr>" demo_attrs0 1 demo_group
        "\<lambda>_. [(0, 0)]" one_group demo_learn0] parts(4)
    by (simp add: size c2_def c3_def c4_def c5_def)
  moreover have "cluster_step demo_group c5 c6"
    using start [where lib = "\<lambda>_ _. True", of 1 demo_group "[put_k ''b'']" c5 "fst demo_start1" "snd demo_start1"] parts(5) dec(4) by (simp add: size c5_def c6_def)
  moreover have "cluster_step demo_group c6 c7"
    using pre_accept [where lib = "\<lambda>_ _. True", of c6 "(1, 0)" "?p (fst demo_start1)" 0 demo_group "fst demo_reply1" "snd demo_reply1"] parts(6)
    by (simp add: size c4_def c5_def c6_def c7_def)
  moreover have "cluster_step demo_group c7 c8"
    using decide [where lib = "\<lambda>_ _. True", of c7 "(1, 0)" "?p (fst demo_start1)" "demo_obs 0 (fst demo_reply1)" demo_group ?h demo_attrs1] dec(2) heard(2)
    by (simp add: c6_def c7_def c8_def)
  moreover have "cluster_step demo_group c8 c9"
    using commit [where lib = "\<lambda>_ _. True", of c8 "(1, 0)" "(?p (fst demo_start1))\<lparr>p_decision := Some demo_attrs1\<rparr>" demo_attrs1 "\<lambda>_. [(1, 0)]" one_group
        "fst demo_commit1" "fst (snd demo_commit1)" "snd (snd demo_commit1)" demo_group] parts(7) dec(6)
    by (simp add: c6_def c7_def c8_def c9_def)
  ultimately have "reachable_cluster demo_group c9"
    unfolding c0_def by (meson converse_rtranclp_into_rtranclp rtranclp.rtrancl_refl)
  moreover have "c_replicas c9 0 = snd demo_reply1" "c_replicas c9 1 = snd (snd demo_commit1)" by (simp_all add: c7_def c8_def c9_def)
  ultimately show ?thesis by blast
qed

lemma demo_committed_at:
  "committed_with (snd demo_reply1) (0, 0) ([put_k ''a''], 1, [- 1, - 1])"
  "committed_with (snd (snd demo_commit1)) (0, 0) ([put_k ''a''], 1, [- 1, - 1])"
  "committed_with (snd (snd demo_commit1)) (1, 0) ([put_k ''b''], 2, [0, - 1])"
proof -
  have *: "committed_with st k v" if "map_option (\<lambda>i. (i_status i, i_cmds i, i_seq i, i_deps i)) (instance_at st k) = Some (COMMITTED, v)" for st k v
    using that by (auto simp: committed_with_def)
  show "committed_with (snd demo_reply1) (0, 0) ([put_k ''a''], 1, [- 1, - 1])" by (rule *) code_simp
  show "committed_with (snd (snd demo_commit1)) (0, 0) ([put_k ''a''], 1, [- 1, - 1])" by (rule *) code_simp
  show "committed_with (snd (snd demo_commit1)) (1, 0) ([put_k ''b''], 2, [0, - 1])" by (rule *) code_simp
qed

theorem replicas_agree_witness:
  "\<exists>c. reachable_cluster demo_group c \<and> committed_with (c_replicas c 0) (0, 0) ([put_k ''a''], 1, [- 1, - 1])
     \<and> (\<exists>p. c_proposals c (0, 0) = Some p \<and> pa_cmds (p_req p) = [put_k ''a''])"
proof -
  obtain c where c: "reachable_cluster demo_group c" "c_replicas c 0 = snd demo_reply1" "c_replicas c 1 = snd (snd demo_commit1)"
    using demo_run by blast
  have "0 < config_size demo_group" "1 < config_size demo_group" by (simp_all add: demo_group_ok)
  from replicas_agree [OF demo_group_ok(1) c(1) this, unfolded c(2,3), OF demo_committed_at(1,2)] c demo_committed_at(1)
  show ?thesis by metis
qed

theorem conflicting_commits_ordered_witness:
  "\<exists>c ds1 ds2. reachable_cluster demo_group c \<and> committed_with (c_replicas c 0) (0, 0) ([put_k ''a''], 1, ds1)
     \<and> committed_with (c_replicas c 1) (1, 0) ([put_k ''b''], 2, ds2) \<and> (0 \<le> ds2 ! 0 \<or> 0 \<le> ds1 ! 1)"
proof -
  obtain c where c: "reachable_cluster demo_group c" "c_replicas c 0 = snd demo_reply1" "c_replicas c 1 = snd (snd demo_commit1)"
    using demo_run by blast
  have n: "0 < config_size demo_group" "1 < config_size demo_group" by (simp_all add: demo_group_ok)
  have "(0, 0) \<noteq> ((1, 0) :: key)" "put_k ''a'' \<in> set [put_k ''a'']" "put_k ''b'' \<in> set [put_k ''b'']"
    "c_key (put_k ''a'') = c_key (put_k ''b'')" "c_key (put_k ''a'') \<noteq> []" by (simp_all add: put_k_def)
  from conflicting_commits_ordered [OF demo_group_ok(1) c(1) n, unfolded c(2,3), OF demo_committed_at(1,3) this] c demo_committed_at(1,3)
  show ?thesis by fastforce
qed

text \<open>The command helper of \<^verbatim>\<open>main.rs\<close>, and proposals whose commits are learned in a given order.\<close>

definition put :: "string \<Rightarrow> string \<Rightarrow> command" where
  "put k v = \<lparr>c_op = Put, c_key = k, c_value = v\<rparr>"

definition demo_batches :: "command list list" where
  "demo_batches = [[put ''a'' ''1''], [put ''b'' ''1''], [put ''b'' ''2'', put ''a'' ''2'']]"

fun demo_proposals :: "command list list \<Rightarrow> replica_inner \<Rightarrow> commit_request list option" where
  "demo_proposals [] st = Some []"
| "demo_proposals (cmds # rest) st = do {
     (req, st') \<leftarrow> propose_start cmds st;
     reqs \<leftarrow> demo_proposals rest st';
     Some (propose_commit_request req (pa_seq req, pa_deps req, True) # reqs)
   }"

fun learn_all :: "commit_request list \<Rightarrow> replica_inner \<Rightarrow> replica_inner option" where
  "learn_all [] st = Some st"
| "learn_all (r # rs) st = do {
     st' \<leftarrow> handle_commit_inner (\<lambda>S. filter (\<lambda>k. k \<in> S) [(0, 0), (0, 1), (0, 2)]) (\<lambda>nodes edges. map (\<lambda>k. [k]) nodes) r st;
     learn_all rs st'
   }"

text \<open>
  A dependency names one slot per replica, the highest, and the executor waits for that slot only.
  So a command on two keys loses its dependency on the older one: replica 0 proposes \<open>a := 1\<close>, then
  \<open>b := 1\<close>, then the batch \<open>b := 2, a := 2\<close>, which depends on slot 1 alone. A replica that learns the
  commits in the order 0, 1, 2 ends with \<open>a = 2\<close>; one that learns 2 and 1 before 0 executes the batch
  first and ends with \<open>a = 1\<close>.
\<close>

theorem batch_dependency_skipped:
  "(do {
      reqs \<leftarrow> demo_proposals demo_batches (replica_inner_new 0 2);
      st1 \<leftarrow> learn_all reqs (replica_inner_new 1 2);
      st2 \<leftarrow> learn_all [reqs ! 2, reqs ! 1, reqs ! 0] (replica_inner_new 1 2);
      Some (map cm_deps reqs, map (executed_at st1) [(0, 0), (0, 1), (0, 2)], map (executed_at st2) [(0, 0), (0, 1), (0, 2)],
        r_store st1 ''a'', r_store st2 ''a'')
    }) = Some ([[- 1, - 1], [- 1, - 1], [1, - 1]], [True, True, True], [True, True, True], Some ''2'', Some ''1'')"
  by code_simp

end
