(* ===== verification/Epaxos_Dependencies.thy ===== *)
theory Epaxos_Dependencies
  imports Epaxos_Cluster
begin

text \<open>
  Dependencies are real: in every group that proposals can reach, the slots that conflict maps, requests,
  replies and decisions name were proposed, and slots and dependency lists stay in the ranges on which
  the handlers do not panic. So no replica waits for an instance that nobody proposed.
\<close>

section \<open>Upper bounds of attributes\<close>

text \<open>\<open>B r\<close> is a slot that replica \<open>r\<close> has not proposed yet.\<close>

definition deps_below :: "(nat \<Rightarrow> i32) \<Rightarrow> nat \<Rightarrow> i32 list \<Rightarrow> bool" where
  "deps_below B n ds \<longleftrightarrow> length ds = n \<and> (\<forall>r < n. ds ! r < B r)"

definition entries_below :: "(nat \<Rightarrow> i32) \<Rightarrow> nat \<Rightarrow> conflict_map \<Rightarrow> bool" where
  "entries_below B n cf \<longleftrightarrow> (\<forall>key e. cf key = Some e \<longrightarrow> deps_below B n (ce_deps e))"

lemma deps_below_mono: "deps_below B n ds \<Longrightarrow> (\<And>r. r < n \<Longrightarrow> B r \<le> B' r) \<Longrightarrow> deps_below B' n ds"
  by (auto simp: deps_below_def intro: order_less_le_trans)

lemma entries_below_mono: "entries_below B n cf \<Longrightarrow> (\<And>r. r < n \<Longrightarrow> B r \<le> B' r) \<Longrightarrow> entries_below B' n cf"
  unfolding entries_below_def by (blast intro: deps_below_mono)

lemma raise_attrs_below:
  "raise_attrs n cf cmds (q, ds) = Some (q', ds') \<Longrightarrow> entries_below B n cf \<Longrightarrow> deps_below B n ds \<Longrightarrow> deps_below B n ds'"
proof (induction cmds arbitrary: q ds)
  case (Cons cmd cmds)
  show ?case
  proof (cases "c_key cmd = [] \<or> cf (c_key cmd) = None")
    case True
    with Cons.prems(1) have "raise_attrs n cf cmds (q, ds) = Some (q', ds')" by (auto split: if_splits)
    with Cons.IH Cons.prems(2,3) show ?thesis by blast
  next
    case False
    then obtain e where e: "cf (c_key cmd) = Some e" "c_key cmd \<noteq> []" by auto
    with Cons.prems(1) obtain ds1 where ds1: "max_deps n ds (ce_deps e) = Some ds1"
      and rest: "raise_attrs n cf cmds (max q (ce_max_seq e + 1), ds1) = Some (q', ds')"
      by (auto simp: checked_i32_def split: bind_splits if_splits)
    have "deps_below B n (ce_deps e)" using Cons.prems(2) e(1) by (simp add: entries_below_def)
    with ds1 Cons.prems(3) have "deps_below B n ds1" by (auto simp: max_deps_eq deps_below_def)
    with Cons.IH [OF rest Cons.prems(2)] show ?thesis by blast
  qed
qed simp

lemma record_conflicts_below:
  assumes "r < n" "slot < B r" "\<And>r. r < n \<Longrightarrow> 0 \<le> B r"
  shows "record_conflicts n r slot q cmds cf = Some cf' \<Longrightarrow> entries_below B n cf \<Longrightarrow> entries_below B n cf'"
proof (induction cmds arbitrary: cf)
  case (Cons cmd cmds)
  show ?case
  proof (cases "c_key cmd = []")
    case False
    define e where "e = (case cf (c_key cmd) of Some e \<Rightarrow> e | None \<Rightarrow> \<lparr>ce_max_seq = 0, ce_deps = replicate n (- 1)\<rparr>)"
    define cf1 where "cf1 = cf(c_key cmd \<mapsto> \<lparr>ce_max_seq = max (ce_max_seq e) q, ce_deps = (ce_deps e)[r := max (ce_deps e ! r) slot]\<rparr>)"
    have "deps_below B n (ce_deps e)"
      using Cons.prems(2) assms(3) by (force simp: e_def entries_below_def deps_below_def split: option.splits)
    then have "entries_below B n cf1"
      using Cons.prems(2) assms(1,2) by (auto simp: cf1_def entries_below_def deps_below_def nth_list_update)
    moreover have "record_conflicts n r slot q cmds cf1 = Some cf'"
      using Cons.prems(1) False by (auto simp: e_def cf1_def Let_def split: if_splits)
    ultimately show ?thesis using Cons.IH by blast
  qed (use Cons in auto)
qed simp

lemma cap_self_below:
  assumes "cap_self r slot ds = Some ds'" "deps_below B n ds" "slot \<le> B r"
  shows "deps_below B n ds'"
  using cap_self_spec [OF assms(1)] assms(2,3) unfolding deps_below_def by (metis order_less_le_trans)

lemma start_below:
  assumes "start_proposal cmds st = Some ((slot, sq, ds), st')" "r_n st = n" "r_id st < n"
    and "entries_below B n (r_conflicts st)" "r_cur_slot st \<le> B (r_id st)" "\<And>r. r < n \<Longrightarrow> 0 \<le> B r"
    and "\<And>r. r < n \<Longrightarrow> B r \<le> B' r" "r_cur_slot st < B' (r_id st)"
  shows "deps_below B n ds" and "entries_below B' n (r_conflicts st')"
proof -
  obtain raised where raise: "raise_attrs n (r_conflicts st) cmds (1, replicate n (- 1)) = Some (sq, raised)"
    and cap: "cap_self (r_id st) (r_cur_slot st) raised = Some ds"
    and rc: "record_conflicts n (r_id st) (r_cur_slot st) sq cmds (r_conflicts st) = Some (r_conflicts st')"
    using assms(1,2) by (auto simp: start_proposal_def Let_def split: bind_splits)
  have "deps_below B n (replicate n (- 1))" using assms(6) by (force simp: deps_below_def)
  from raise_attrs_below [OF raise assms(4) this] show "deps_below B n ds" by (rule cap_self_below [where B = B, OF cap _ assms(5)])
  show "entries_below B' n (r_conflicts st')"
    by (rule record_conflicts_below [OF assms(3,8) _ rc entries_below_mono [OF assms(4,7)]]) (use assms(6,7) order_trans in blast)+
qed

lemma pre_accept_below:
  assumes "handle_pre_accept_inner req st = Some (reply, st')" "r_n st = n" "as_usize (pa_replica req) < n"
    and "entries_below B n (r_conflicts st)" "pa_slot req < B (as_usize (pa_replica req))" "\<And>r. r < n \<Longrightarrow> 0 \<le> B r"
    and "deps_below B n (pa_deps req)"
  shows "deps_below B n (par_deps reply)" and "entries_below B n (r_conflicts st')"
proof -
  let ?r = "as_usize (pa_replica req)"
  obtain st1 q raised cf where ens: "ensure_slot ?r (pa_slot req) st = Some st1"
    and raise: "raise_attrs n (r_conflicts st1) (pa_cmds req) (pa_seq req, resize n (pa_deps req)) = Some (q, raised)"
    and cap: "cap_self ?r (pa_slot req) raised = Some (par_deps reply)"
    and rc: "record_conflicts n ?r (pa_slot req) q (pa_cmds req) (r_conflicts st1) = Some cf" "r_conflicts st' = cf"
    using assms(1,2) by (auto simp: handle_pre_accept_inner_def Let_def split: bind_splits)
  have "resize n (pa_deps req) = pa_deps req" using assms(7) by (simp add: resize_def deps_below_def)
  with assms(7) have "deps_below B n (resize n (pa_deps req))" by simp
  moreover have cf: "entries_below B n (r_conflicts st1)" using ensure_slot_same [OF ens] assms(4) by simp
  ultimately have "deps_below B n raised" using raise_attrs_below [OF raise] by blast
  then show "deps_below B n (par_deps reply)" by (rule cap_self_below [where B = B, OF cap]) (use assms(5) in simp)
  show "entries_below B n (r_conflicts st')"
    unfolding rc(2) by (rule record_conflicts_below [OF assms(3,5,6) rc(1) cf])
qed

text \<open>A decision names no slot that neither the request nor a reply named.\<close>

lemma oks_item: "v \<in> set (oks nrs) \<Longrightarrow> \<exists>nr \<in> set nrs. nr_result nr = Inr v"
  by (induction nrs) (auto split: sum.splits)

lemma decision_below:
  assumes "propose_pre_accept req peers h obs = Finished (Inr (sq, ds, fast))" "deps_below B n (pa_deps req)"
    and "\<And>nr v. nr \<in> set (items obs) \<Longrightarrow> nr_result nr = Inr v \<Longrightarrow> deps_below B n (par_deps v)"
  shows "deps_below B n ds"
proof -
  obtain pre post where obs: "obs = pre @ post" and dec: "replies_decide req peers (oks (items pre)) (sq, ds, fast)"
    using pre_accept_finished [OF assms(1)] by blast
  have "items obs = items pre @ items post" unfolding obs by (induction pre rule: items.induct) auto
  then have votes: "deps_below B n (par_deps v)" if "v \<in> set (oks (items pre))" for v
    using assms(3) that oks_item by fastforce
  show ?thesis
  proof (cases fast)
    case False
    then have len: "length ds = n" and m: "\<And>i. i < n \<Longrightarrow> ds ! i = Max (insert (pa_deps req ! i) (dep_votes i (oks (items pre))))"
      using dec assms(2) by (auto simp: deps_below_def)
    have "ds ! i < B i" if i: "i < n" for i
    proof -
      have "ds ! i \<in> insert (pa_deps req ! i) (dep_votes i (oks (items pre)))" unfolding m [OF i] by (rule Max_in) simp_all
      then show ?thesis using assms(2) votes i by (auto simp: dep_votes_def deps_below_def)
    qed
    with len show ?thesis by (simp add: deps_below_def)
  qed (use dec assms(2) in auto)
qed

section \<open>The bounds are an invariant of the group\<close>

abbreviation slots :: "cluster \<Rightarrow> nat \<Rightarrow> i32" where
  "slots c \<equiv> \<lambda>r. r_cur_slot (c_replicas c r)"

definition dep_inv :: "nat \<Rightarrow> cluster \<Rightarrow> bool" where
  "dep_inv n c \<longleftrightarrow> (\<forall>r < n. slots c r < 2 ^ 31 \<and> (\<forall>s. 0 \<le> s \<and> s < slots c r \<longrightarrow> req_of c (r, s) \<noteq> None)
        \<and> entries_below (slots c) n (r_conflicts (c_replicas c r)))
     \<and> (\<forall>k req. req_of c k = Some req \<longrightarrow> deps_below (slots c) n (pa_deps req))
     \<and> (\<forall>k j rep. (k, j, rep) \<in> c_replies c \<longrightarrow> deps_below (slots c) n (par_deps rep))
     \<and> (\<forall>k cmds sq ds. decided c k (cmds, sq, ds) \<longrightarrow> deps_below (slots c) n ds)"

lemma dep_inv_init: "dep_inv (config_size cfg) (cluster_init cfg)"
  by (simp add: dep_inv_def cluster_init_def replica_inner_new_def entries_below_def req_of_def decided_def)

text \<open>A step that starts no proposal: new replies and decisions keep below the slots, which do not change.\<close>

lemma dep_inv_quiet:
  assumes inv: "dep_inv n c" and same: "slots c' = slots c" "req_of c' = req_of c"
    and cf: "\<And>r. r < n \<Longrightarrow> entries_below (slots c) n (r_conflicts (c_replicas c' r))"
    and rep: "\<And>k j rep. (k, j, rep) \<in> c_replies c' \<Longrightarrow> (k, j, rep) \<in> c_replies c \<or> deps_below (slots c) n (par_deps rep)"
    and dec: "\<And>k cmds sq ds. decided c' k (cmds, sq, ds) \<Longrightarrow> decided c k (cmds, sq, ds) \<or> deps_below (slots c) n ds"
  shows "dep_inv n c'"
proof -
  have "deps_below (slots c) n ds" if "decided c' k (cmds, sq, ds)" for k cmds sq ds
    using dec [OF that] inv unfolding dep_inv_def by blast
  moreover have "deps_below (slots c) n (par_deps r)" if "(k, j, r) \<in> c_replies c'" for k j r
    using rep [OF that] inv unfolding dep_inv_def by blast
  moreover have "slots c' r = slots c r" for r using same(1) by (rule fun_cong)
  ultimately show ?thesis using inv cf unfolding dep_inv_def same by simp
qed

lemma dep_inv_start:
  assumes inv: "dep_inv n c" and a: "assign_inv n c" and i: "i < n" and p: "propose_start cmds (c_replicas c i) = Some (req, st')"
  shows "dep_inv n (set_proposal (i, pa_slot req) \<lparr>p_req = req, p_decision = None, p_accepted = False, p_committed = False\<rparr> (set_replica i st' c))"
    (is "dep_inv n ?c")
proof -
  let ?st = "c_replicas c i"
  note parts = propose_start_parts [OF p]
  have wf: "r_id ?st = i" "r_n ?st = n" "\<And>r. r < n \<Longrightarrow> 0 \<le> slots c r"
    using a i by (auto simp: assign_inv_def wf_replicas_def)
  have le: "slots c r \<le> slots ?c r" for r using parts(5) by simp
  have old: "entries_below (slots c) n (r_conflicts (c_replicas c r))" "slots c r < 2 ^ 31"
    "\<And>s. 0 \<le> s \<Longrightarrow> s < slots c r \<Longrightarrow> req_of c (r, s) \<noteq> None" if "r < n" for r
    using inv that by (auto simp: dep_inv_def)
  have slot: "slots c i < slots ?c i" "slots ?c i < 2 ^ 31"
    using p parts(5) by (auto simp: propose_start_def start_proposal_def checked_i32_def in_i32_def Let_def split: bind_splits if_splits)
  have new: "deps_below (slots c) n (pa_deps req)" "entries_below (slots ?c) n (r_conflicts st')"
    using start_below [where B = "slots c" and B' = "slots ?c", OF parts(1) wf(2)] wf i old(1) [OF i] le slot(1) by simp_all
  have reqs: "req_of ?c = (req_of c)((i, pa_slot req) \<mapsto> req)" by (auto simp: req_of_def fun_eq_iff)
  have "decided ?c k v \<Longrightarrow> decided c k v" for k v by (auto simp: decided_def split: if_splits)
  moreover have grow: "deps_below (slots ?c) n ds" if "deps_below (slots c) n ds" for ds
    by (rule deps_below_mono [OF that]) (rule le)
  ultimately have "deps_below (slots ?c) n ds" if "decided ?c k (cmds, sq, ds)" for k cmds sq ds
    using inv that unfolding dep_inv_def by blast
  moreover have "deps_below (slots ?c) n (par_deps rep)" if "(k, j, rep) \<in> c_replies ?c" for k j rep
  proof -
    have "(k, j, rep) \<in> c_replies c" using that by simp
    then show ?thesis using inv grow unfolding dep_inv_def by blast
  qed
  moreover have "deps_below (slots ?c) n (pa_deps req')" if "req_of ?c k = Some req'" for k req'
  proof (cases "k = (i, pa_slot req)")
    case True
    with that show ?thesis using grow [OF new(1)] unfolding reqs by simp
  next
    case False
    with that have "req_of c k = Some req'" unfolding reqs by simp
    then show ?thesis using inv grow unfolding dep_inv_def by blast
  qed
  moreover have "entries_below (slots ?c) n (r_conflicts (c_replicas ?c r))" if "r < n" for r
  proof (cases "r = i")
    case False
    then show ?thesis using entries_below_mono [OF old(1) [OF that] le] by simp
  qed (use new(2) in simp)
  moreover have "slots ?c r < 2 ^ 31" if "r < n" for r using old(2) [OF that] slot(2) by simp
  moreover have "req_of ?c (r, s) \<noteq> None" if "r < n" "0 \<le> s" "s < slots ?c r" for r s
    using old(3) [OF that(1,2)] that(3) parts(4,5) unfolding reqs by (cases "r = i"; cases "s = pa_slot req") auto
  ultimately show ?thesis unfolding dep_inv_def by blast
qed

lemma dep_inv_step:
  assumes st: "cluster_step cfg c c'" and g: "group_config cfg" and a: "assign_inv (config_size cfg) c" and inv: "dep_inv (config_size cfg) c"
  shows "dep_inv (config_size cfg) c'"
proof -
  let ?n = "config_size cfg"
  have n: "?n < 2 ^ 31" using g by (simp add: group_config_def)
  have wf: "wf_replicas ?n c" "wf_proposals ?n c" using a by (auto simp: assign_inv_def)
  have old: "entries_below (slots c) ?n (r_conflicts (c_replicas c r))" if "r < ?n" for r using inv that by (simp add: dep_inv_def)
  show ?thesis
    using st
  proof (cases rule: group_step.cases)
    case (start i cmds req st')
    then show ?thesis using dep_inv_start [OF inv a] by blast
  next
    case (pre_accept k p j reply st')
    have req: "req_of c k = Some (p_req p)" using pre_accept(2) by (simp add: req_of_def)
    then have k: "fst k < ?n" "pa_replica (p_req p) = as_i32 (fst k)" "pa_slot (p_req p) = snd k" "snd k < slots c (fst k)"
      using wf(2) unfolding wf_proposals_def by blast+
    then have rep: "as_usize (pa_replica (p_req p)) = fst k" using n by simp
    have "deps_below (slots c) ?n (pa_deps (p_req p))" using inv req by (auto simp: dep_inv_def)
    then have new: "deps_below (slots c) ?n (par_deps reply)" "entries_below (slots c) ?n (r_conflicts st')"
      using pre_accept_below [where B = "slots c", OF pre_accept(5), of ?n] wf(1) old [OF pre_accept(3)] pre_accept(3) k rep
      by (auto simp: wf_replicas_def)
    show ?thesis
    proof (rule dep_inv_quiet [OF inv])
      show "slots c' = slots c" using handlers_cur(1) [OF pre_accept(5)] by (auto simp: pre_accept(1))
    qed (use new old in \<open>auto simp: pre_accept(1) req_of_def decided_def\<close>)
  next
    case (decide k p obs h at)
    obtain sq ds fast where at: "at = (sq, ds, fast)" by (cases at)
    have req: "req_of c k = Some (p_req p)" using decide(2) by (simp add: req_of_def)
    have "deps_below (slots c) ?n ds"
    proof (rule decision_below [OF decide(5) [unfolded at]])
      show "deps_below (slots c) ?n (pa_deps (p_req p))" using inv req by (auto simp: dep_inv_def)
      show "deps_below (slots c) ?n (par_deps v)" if "nr \<in> set (items obs)" "nr_result nr = Inr v" for nr v
        using decide(4) that inv unfolding heard_def dep_inv_def by blast
    qed
    then show ?thesis
      by (intro dep_inv_quiet [OF inv]) (use decide old in \<open>auto simp: req_of_def decided_def at fun_eq_iff split: if_splits\<close>)
  next
    case (accept k p at areq j ack st')
    then show ?thesis
      using handlers_cur(2) [OF accept(7)] accept_same [OF accept(7)] old
      by (intro dep_inv_quiet [OF inv]) (auto simp: req_of_def decided_def)
  next
    case (accepted k p at obs h ack)
    then show ?thesis
      using old by (intro dep_inv_quiet [OF inv]) (auto simp: req_of_def decided_def fun_eq_iff split: if_splits)
  next
    case (commit k p at iter scc creq info st')
    then obtain sq ds where "commit_local iter scc (as_usize (pa_replica (p_req p))) (pa_slot (p_req p)) (pa_cmds (p_req p)) sq ds (c_replicas c (fst k)) = Some st'"
      by (auto simp: propose_commit_def split: bind_splits prod.splits)
    note same = handlers_cur(4) [OF this] commit_same(2) [OF this]
    have "req_of c' = req_of c" using commit(1,2) by (auto simp: req_of_def)
    then show ?thesis
      by (intro dep_inv_quiet [OF inv]) (use commit(1,2) same old in \<open>auto simp: decided_def split: if_splits\<close>)
  next
    case (learn k p at j iter scc st')
    then show ?thesis
      using handlers_cur(3) [OF learn(7)] commit_same(1) [OF learn(7)] old
      by (intro dep_inv_quiet [OF inv]) (auto simp: req_of_def decided_def)
  qed
qed

lemma reachable_dep_inv:
  assumes "reachable_cluster cfg c" "group_config cfg"
  shows "dep_inv (config_size cfg) c"
  using assms(1)
proof induction
  case (step c c')
  then have "assign_inv (config_size cfg) c" using reachable_cluster_inv [OF step.hyps(1) assms(2)] by (simp add: cluster_inv_def)
  with step show ?case using dep_inv_step assms(2) by blast
qed (rule dep_inv_init)

section \<open>Properties\<close>

text \<open>
  C5. No phantom dependencies. In every state that any number of concurrent proposals can reach, a
  committed instance carries one dependency per replica, and each that is not empty names an instance
  which that replica really proposed. So an execution that waits always waits for a proposal that exists.
\<close>

theorem dependencies_proposed:
  assumes "group_config cfg" and "reachable_cluster cfg c" and "j < config_size cfg"
    and "committed_with (c_replicas c j) k (cmds, sq, ds)"
  shows "length ds = config_size cfg
    \<and> (\<forall>r < config_size cfg. 0 \<le> ds ! r \<longrightarrow> (\<exists>p. c_proposals c (r, ds ! r) = Some p))"
proof -
  let ?n = "config_size cfg"
  have inv: "dep_inv ?n c" "commit_inv ?n c"
    using reachable_dep_inv [OF assms(2,1)] reachable_cluster_inv [OF assms(2,1)] by (simp_all add: cluster_inv_def)
  have "decided c k (cmds, sq, ds)" using inv(2) assms(3,4) unfolding commit_inv_def by blast
  then have below: "deps_below (slots c) ?n ds" using inv(1) unfolding dep_inv_def by blast
  have "req_of c (r, ds ! r) \<noteq> None" if "r < ?n" "0 \<le> ds ! r" for r
    using inv(1) below that unfolding dep_inv_def deps_below_def by blast
  then show ?thesis using below by (simp add: deps_below_def req_of_def)
qed

theorem dependencies_proposed_witness:
  "\<exists>c :: cluster. committed_with (c_replicas c 1) (1, 0) ([put_k ''b''], 2, [0, - 1]) \<and> (\<exists>p. c_proposals c (0, 0) = Some p)"
proof -
  obtain c where c: "reachable_cluster demo_group c" "c_replicas c 1 = snd (snd demo_commit1)"
    using demo_run by blast
  then have "committed_with (c_replicas c 1) (1, 0) ([put_k ''b''], 2, [0, - 1])" using demo_committed_at(3) by simp
  moreover from dependencies_proposed [OF demo_group_ok(1) c(1) _ this]
  have "\<exists>p. c_proposals c (0, [0, - 1] ! 0) = Some p" unfolding demo_group_ok(2) by fastforce
  ultimately show ?thesis by auto
qed

end
