(* ===== verification/Epaxos_Setup.thy ===== *)
theory Epaxos_Setup
  imports Epaxos_Cluster Local_Cluster
begin

text \<open>
  The service of a replica and \<^verbatim>\<open>setup\<close> of \<^verbatim>\<open>examples/epaxos/main.rs\<close>: the servers, the manager and the configurations with which
  the group of replicas starts. A panic (an overflowing port, a failing \<^verbatim>\<open>unwrap\<close> or \<^verbatim>\<open>expect\<close>) is
  \<open>None\<close>. As in the manager, parsing and printing of socket addresses is the argument \<open>sock\<close>.

  The result is what the cluster model starts from: configurations with the IDs the protocol computes
  with, so that agreement and ordering of commits hold for the group that \<^verbatim>\<open>setup\<close> starts.
\<close>

definition get :: "string \<Rightarrow> command" where
  "get k = \<lparr>c_op = Get, c_key = k, c_value = []\<rparr>"

text \<open>\<^verbatim>\<open>base_port + i as u16\<close>: the conversion truncates, the addition panics on overflow.\<close>

definition port_at :: "u16 \<Rightarrow> nat \<Rightarrow> u16 option" where
  "port_at base_port i =
    (let d = of_nat i :: u16
     in if unat base_port + unat d < 2 ^ 16 then Some (base_port + d) else None)"

definition spawn_node :: "(string \<Rightarrow> string option) \<Rightarrow> u16 \<Rightarrow> nat \<Rightarrow> nat \<Rightarrow> replica_inner option" where
  "spawn_node sock port i n =
    (let replica = replica_inner_new i n
     in case sock (local_addr port) of None \<Rightarrow> None | Some addr \<Rightarrow> Some replica)"

definition setup_cluster ::
  "(string \<Rightarrow> string option) \<Rightarrow> nat \<Rightarrow> u16 \<Rightarrow>
   (replica_inner list \<times> 'cb mstate \<times> configuration \<times> configuration list) option" where
  "setup_cluster sock n base_port =
    (case those (map (port_at base_port) [0..<n]) of
       None \<Rightarrow> None
     | Some ports \<Rightarrow>
        (case those (map (\<lambda>(i, port). spawn_node sock port i n) (enumerate 0 ports)) of
           None \<Rightarrow> None
         | Some replicas \<Rightarrow>
            (let addrs = map local_addr ports
             in case add_node_list sock addrs (manager_new, runtime_new) of
                  (Some (Inr all_cfg), mgr) \<Rightarrow>
                    Some (replicas, mgr, all_cfg, map (\<lambda>i. peers_of all_cfg i) [0..<n])
                | _ \<Rightarrow> None)))"

section \<open>The service\<close>

text \<open>
  The methods a replica serves, \<^verbatim>\<open>impl EPaxosServer for Replica\<close>: each locks the replica, runs the
  handler and unlocks it. A panic under the lock is \<open>None\<close>, and poisons the mutex.
\<close>

definition serve_pre_accept ::
  "pre_accept_request \<Rightarrow> replica_inner \<Rightarrow> ((tonic_status + pre_accept_reply option) \<times> replica_inner) option" where
  "serve_pre_accept req inner =
    (case handle_pre_accept_inner req inner of
       None \<Rightarrow> None
     | Some (reply, inner') \<Rightarrow> Some (Inr (Some reply), inner'))"

definition serve_accept ::
  "accept_request \<Rightarrow> replica_inner \<Rightarrow> ((tonic_status + accept_reply option) \<times> replica_inner) option" where
  "serve_accept req inner =
    (case handle_accept_inner req inner of
       None \<Rightarrow> None
     | Some (reply, inner') \<Rightarrow> Some (Inr (Some reply), inner'))"

definition serve_commit ::
  "(key set \<Rightarrow> key list) \<Rightarrow> scc_fn \<Rightarrow> commit_request \<Rightarrow> replica_inner
   \<Rightarrow> ((tonic_status + unit option) \<times> replica_inner) option" where
  "serve_commit iter tarjan_scc req inner =
    (case handle_commit_inner iter tarjan_scc req inner of
       None \<Rightarrow> None
     | Some inner' \<Rightarrow> Some (Inr None, inner'))"

definition serve_prepare ::
  "prepare_request \<Rightarrow> replica_inner \<Rightarrow> (tonic_status + prepare_reply option) \<times> replica_inner" where
  "serve_prepare req inner = (Inr (Some (handle_prepare_inner req inner)), inner)"

definition serve_try_pre_accept ::
  "try_pre_accept_request \<Rightarrow> replica_inner
   \<Rightarrow> ((tonic_status + try_pre_accept_reply option) \<times> replica_inner) option" where
  "serve_try_pre_accept req inner =
    (case handle_try_pre_accept_inner req inner of
       None \<Rightarrow> None
     | Some reply \<Rightarrow> Some (Inr (Some reply), inner))"

section \<open>Lemmas\<close>

lemma distinct_u16: "distinct (ps :: u16 list) \<Longrightarrow> length ps \<le> 2 ^ 16"
proof -
  assume "distinct ps"
  then have "length ps = card (unat ` set ps)"
    by (subst card_image) (auto simp: distinct_card intro: inj_onI unsigned_word_eqI)
  also have "\<dots> \<le> card {..< 2 ^ 16 :: nat}"
    using unsigned_less [where 'a = nat and 'b = 16] by (intro card_mono) auto
  finally show "length ps \<le> 2 ^ 16"
    by simp
qed

lemma added_group:
  assumes "add_node_list sock addrs (manager_new, runtime_new) = (Some (Inr cfg), s')"
  shows "node_ids cfg = map node_id_of [0..<length addrs]" "config_size cfg = length addrs" "distinct (map sock addrs)"
  using first_configuration [OF assms] by (simp_all add: node_id_of_def)

lemma spawned:
  "those (map (\<lambda>(i, port). spawn_node sock port i n) (enumerate 0 ports)) = Some replicas \<Longrightarrow>
    replicas = map (\<lambda>i. replica_inner_new i n) [0..<length ports]"
proof -
  assume "those (map (\<lambda>(i, port). spawn_node sock port i n) (enumerate 0 ports)) = Some replicas"
  then have eq: "map (\<lambda>(i, port). spawn_node sock port i n) (enumerate 0 ports) = map Some replicas"
    by (simp add: those_Some_iff)
  from arg_cong [OF this, of length] have len: "length replicas = length ports"
    by simp
  have "replicas ! i = replica_inner_new i n" if "i < length ports" for i
    using arg_cong [OF eq, of "\<lambda>xs. xs ! i"] that len
    by (simp add: nth_enumerate_eq spawn_node_def split: option.splits)
  then show ?thesis
    by (intro nth_equalityI) (simp_all add: len)
qed

lemma peers_node_ids:
  assumes "group_config cfg" "i < config_size cfg"
  shows "node_ids (peers_of cfg i) = map node_id_of (filter (\<lambda>j. j \<noteq> i) [0..<config_size cfg])"
proof -
  have "node_ids (peers_of cfg i) = filter (\<lambda>k. k \<noteq> node_id_of i) (node_ids cfg)"
    by (simp add: peers_of_def without_nodes_def node_ids_def filter_map comp_def)
  also have "\<dots> = map node_id_of (filter (\<lambda>j. node_id_of j \<noteq> node_id_of i) [0..<config_size cfg])"
    using assms(1) by (simp add: group_config_def filter_map comp_def)
  also have "filter (\<lambda>j. node_id_of j \<noteq> node_id_of i) [0..<config_size cfg] = filter (\<lambda>j. j \<noteq> i) [0..<config_size cfg]"
    using assms inj_onD [OF node_id_of_inj [of "config_size cfg"]]
    by (intro filter_cong) (auto simp: group_config_def)
  finally show ?thesis .
qed

lemma ports_fit:
  assumes "unat base_port + n \<le> 2 ^ 16"
  shows "those (map (port_at base_port) [0..<n]) = Some (map (\<lambda>i. base_port + of_nat i) [0..<n])"
  using assms by (auto simp: those_Some_iff port_at_def Let_def unat_of_nat)

lemma spawn_all:
  assumes "map sock (map local_addr ports) = map Some norms"
  shows "those (map (\<lambda>(i, port). spawn_node sock port i n) (enumerate 0 ports)) \<noteq> None"
proof -
  have "spawn_node sock port i n = Some (replica_inner_new i n)" if "port \<in> set ports" for i port
  proof -
    have "sock (local_addr port) \<in> set (map Some norms)"
      using that unfolding assms [symmetric] by auto
    then show ?thesis
      by (auto simp: spawn_node_def)
  qed
  then have "map (\<lambda>(i, port). spawn_node sock port i n) (enumerate 0 ports) =
      map Some (map (\<lambda>(i, port). replica_inner_new i n) (enumerate 0 ports))"
    by (auto simp: in_set_enumerate_eq)
  then show ?thesis
    unfolding not_None_eq those_Some_iff by blast
qed

lemma setup_parts:
  assumes run: "setup_cluster sock n base_port = Some (replicas, mgr, all_cfg, peers_cfgs)"
  shows "group_config all_cfg" and "config_size all_cfg = n"
    and "replicas = map (c_replicas (cluster_init all_cfg)) [0..<n]" and "peers_cfgs = map (peers_of all_cfg) [0..<n]"
proof -
  obtain ports where ports: "map (port_at base_port) [0..<n] = map Some ports"
    and reps: "those (map (\<lambda>(i, port). spawn_node sock port i n) (enumerate 0 ports)) = Some replicas"
    and list: "add_node_list sock (map local_addr ports) (manager_new, runtime_new) = (Some (Inr all_cfg), mgr)"
    and peers: "peers_cfgs = map (peers_of all_cfg) [0..<n]"
    using run by (auto simp: setup_cluster_def Let_def those_Some_iff split: option.splits prod.splits sum.splits)
  have len: "length ports = n"
    using arg_cong [OF ports, of length] by simp
  note group = added_group [OF list, simplified len length_map]
  have "distinct ports"
    using group(3) by (metis distinct_map)
  then have "n \<le> 2 ^ 16"
    using distinct_u16 len by metis
  with group show "group_config all_cfg" "config_size all_cfg = n"
    by (simp_all add: group_config_def)
  show "replicas = map (c_replicas (cluster_init all_cfg)) [0..<n]"
    using group spawned [OF reps] by (simp add: len cluster_init_def)
  show "peers_cfgs = map (peers_of all_cfg) [0..<n]"
    by (rule peers)
qed

lemma setup_returns:
  fixes base_port :: u16
  assumes fit: "unat base_port + n \<le> 2 ^ 16"
    and socks: "map sock (map (\<lambda>i. local_addr (base_port + of_nat i)) [0..<n]) = map Some norms" "distinct norms"
  shows "setup_cluster sock n base_port \<noteq> (None :: (replica_inner list \<times> 'cb mstate \<times> configuration \<times> configuration list) option)"
proof -
  define ports where "ports = map (\<lambda>i. base_port + of_nat i) [0..<n]"
  have socks': "map sock (map local_addr ports) = map Some norms"
    using socks by (simp add: ports_def comp_def)
  have "length (map local_addr ports) < 2 ^ 32 - 1"
    using fit by (simp add: ports_def)
  from first_configuration_exists [OF socks' socks(2) this] obtain cfg s'
    where "add_node_list sock (map local_addr ports) (manager_new, runtime_new :: 'cb runtime) = (Some (Inr cfg), s')"
    by blast
  then show ?thesis
    using spawn_all [OF socks', of n] ports_fit [OF fit]
    by (auto simp: setup_cluster_def Let_def ports_def [symmetric])
qed

section \<open>Properties\<close>

text \<open>
  C23. The group that \<^verbatim>\<open>setup\<close> starts is the one the cluster model is about. Whenever it returns, the
  configuration holds one node per replica with the IDs 1 to n in order, which is what the agreement
  theorem asks of it; replica i is new and knows its own index; its peers are all nodes but its own.
  It does return when the ports fit 16 bits and the addresses parse to distinct socket addresses.
\<close>

theorem setup_starts_group:
  "(setup_cluster sock n base_port = Some (replicas, mgr, all_cfg, peers_cfgs) \<longrightarrow>
      group_config all_cfg \<and> config_size all_cfg = n
      \<and> replicas = map (c_replicas (cluster_init all_cfg)) [0..<n]
      \<and> length peers_cfgs = n
      \<and> (\<forall>i < n. node_ids (peers_cfgs ! i) = map node_id_of (filter (\<lambda>j. j \<noteq> i) [0..<n])))
   \<and> (unat base_port + n \<le> 2 ^ 16
      \<and> map sock (map (\<lambda>i. local_addr (base_port + of_nat i)) [0..<n]) = map Some norms \<and> distinct norms
      \<longrightarrow> setup_cluster sock n base_port \<noteq> (None :: (replica_inner list \<times> 'cb mstate \<times> configuration \<times> configuration list) option))"
proof (intro conjI [where P = "_ \<longrightarrow> _"] impI)
  assume "setup_cluster sock n base_port = Some (replicas, mgr, all_cfg, peers_cfgs)"
  note parts = setup_parts [OF this]
  then show "group_config all_cfg \<and> config_size all_cfg = n
      \<and> replicas = map (c_replicas (cluster_init all_cfg)) [0..<n]
      \<and> length peers_cfgs = n
      \<and> (\<forall>i < n. node_ids (peers_cfgs ! i) = map node_id_of (filter (\<lambda>j. j \<noteq> i) [0..<n]))"
    using peers_node_ids [OF parts(1)] by simp
qed (use setup_returns in blast)

theorem setup_starts_group_witness:
  "\<exists>replicas mgr all_cfg peers_cfgs.
     setup_cluster Some 3 19020 = Some (replicas, mgr :: nat mstate, all_cfg, peers_cfgs)
     \<and> group_config all_cfg \<and> node_ids (peers_cfgs ! 1) = [1, 3]"
proof -
  let ?norms = "[''127.0.0.1:19020'', ''127.0.0.1:19021'', ''127.0.0.1:19022'']"
  have fits: "unat (19020 :: u16) + 3 \<le> 2 ^ 16
      \<and> map Some (map (\<lambda>i. local_addr (19020 + of_nat i)) [0..<3]) = map Some ?norms \<and> distinct ?norms"
    by (simp add: local_addr_def upt_rec show_nat.simps char_of_def bit_numeral_rec bit_0)
  obtain replicas mgr all_cfg peers_cfgs
    where run: "setup_cluster Some 3 19020 = Some (replicas, mgr :: nat mstate, all_cfg, peers_cfgs)"
    using setup_starts_group [THEN conjunct2, rule_format, OF fits, where 'cb = nat] by auto
  from setup_starts_group [THEN conjunct1, rule_format, OF run]
  have "group_config all_cfg" "node_ids (peers_cfgs ! 1) = map node_id_of (filter (\<lambda>j. j \<noteq> 1) [0..<3])"
    by auto
  moreover have "map node_id_of (filter (\<lambda>j. j \<noteq> 1) [0..<3]) = [1, 3]"
    by code_simp
  ultimately show ?thesis
    using run by auto
qed

end
