(* ===== verification/Epaxos_Graph.thy ===== *)
theory Epaxos_Graph
  imports Epaxos_Executor "HOL-Library.Product_Lexorder"
begin

text \<open>
  What the executor of \<^verbatim>\<open>examples/epaxos/replica.rs\<close> needs of libraries: that a \<^verbatim>\<open>HashSet\<close> is iterated
  without repetition and that \<^verbatim>\<open>petgraph::algo::tarjan_scc\<close> returns the strongly connected components in
  reverse topological order. Locale \<open>graph_library\<close> states it once for all states; a reference
  implementation, which computes components from reachability, satisfies it.
\<close>

section \<open>The contract\<close>

definition library_ok :: "(key set \<Rightarrow> key list) \<Rightarrow> scc_fn \<Rightarrow> bool" where
  "library_ok iter scc \<longleftrightarrow>
     (\<forall>S. finite S \<longrightarrow> distinct (iter S) \<and> set (iter S) = S)
     \<and> (\<forall>nodes edges. distinct nodes \<and> set edges \<subseteq> set nodes \<times> set nodes \<longrightarrow> scc_ok nodes edges (scc nodes edges))"

lemma finite_ready_keys: "tables_ok st \<Longrightarrow> finite (ready_keys st)"
proof -
  assume "tables_ok st"
  then obtain ps where "set ps = {k. waits st k}"
    using ready_set by blast
  then have "ready_keys st \<subseteq> set ps"
    by (auto simp: ready_keys_def)
  then show ?thesis
    by (rule finite_subset) simp
qed

locale graph_library =
  fixes iter :: "key set \<Rightarrow> key list" and scc :: scc_fn
  assumes library: "library_ok iter scc"
begin

lemma params: "tables_ok st \<Longrightarrow> params_ok iter scc st"
proof -
  assume t: "tables_ok st"
  have it: "distinct (iter (ready_keys st))" "set (iter (ready_keys st)) = ready_keys st"
    using library finite_ready_keys [OF t] by (auto simp: library_ok_def)
  have "scc_ok (iter (ready_keys st)) E (scc (iter (ready_keys st)) E)"
    if "key_edges st (iter (ready_keys st)) (iter (ready_keys st)) = Some E" for E
  proof -
    have "set E \<subseteq> set (iter (ready_keys st)) \<times> set (iter (ready_keys st))"
      using execute_plan_eq [where iter = iter, OF t it] that it by auto
    then show ?thesis
      using library it by (auto simp: library_ok_def)
  qed
  with it show ?thesis
    by (simp add: params_ok_def)
qed

end

section \<open>A reference implementation\<close>

definition key_iter :: "key set \<Rightarrow> key list" where
  "key_iter S = sorted_list_of_set S"

definition reaches :: "('a \<times> 'a) list \<Rightarrow> 'a \<Rightarrow> 'a \<Rightarrow> bool" where
  "reaches edges a b \<longleftrightarrow> a = b \<or> (a, b) \<in> (set edges)\<^sup>+"

definition component :: "'a list \<Rightarrow> ('a \<times> 'a) list \<Rightarrow> 'a \<Rightarrow> 'a list" where
  "component nodes edges a = filter (\<lambda>b. reaches edges a b \<and> reaches edges b a) nodes"

text \<open>A group reaches strictly less than the groups it is reached from.\<close>

definition rank :: "'a list \<Rightarrow> ('a \<times> 'a) list \<Rightarrow> 'a list \<Rightarrow> nat" where
  "rank nodes edges g = length (filter (reaches edges (hd g)) nodes)"

definition scc_ref :: "'a list \<Rightarrow> ('a \<times> 'a) list \<Rightarrow> 'a list list" where
  "scc_ref nodes edges = sort_key (rank nodes edges) (remdups (map (component nodes edges) nodes))"

lemma reaches_rtrancl: "reaches edges a b \<longleftrightarrow> (a, b) \<in> (set edges)\<^sup>*"
  by (auto simp: reaches_def rtrancl_eq_or_trancl)

lemma reaches_refl [simp]: "reaches edges a a"
  by (simp add: reaches_def)

lemma reaches_trans: "reaches edges a b \<Longrightarrow> reaches edges b c \<Longrightarrow> reaches edges a c"
  unfolding reaches_rtrancl by (rule rtrancl_trans)

lemma reaches_same:
  assumes "reaches edges a b" "reaches edges b a"
  shows "reaches edges a c \<longleftrightarrow> reaches edges b c" "reaches edges c a \<longleftrightarrow> reaches edges c b"
  using reaches_trans [OF assms(1), of c] reaches_trans [OF assms(2), of c]
    reaches_trans [of edges c a b] reaches_trans [of edges c b a] assms by blast+

lemma set_component:
  "b \<in> set (component nodes edges a) \<longleftrightarrow> b \<in> set nodes \<and> reaches edges a b \<and> reaches edges b a"
  by (auto simp: component_def)

lemma component_eq:
  assumes "reaches edges a b" "reaches edges b a"
  shows "component nodes edges a = component nodes edges b"
  unfolding component_def by (simp add: reaches_same [OF assms])

lemma set_scc_ref: "set (scc_ref nodes edges) = component nodes edges ` set nodes"
  by (simp add: scc_ref_def)

lemma scc_ref_group:
  assumes "g \<in> set (scc_ref nodes edges)" "a \<in> set g"
  shows "g = component nodes edges a" "a \<in> set nodes"
  using assms component_eq by (auto simp: set_scc_ref set_component)

lemma hd_component:
  assumes "a \<in> set nodes"
  shows "reaches edges a (hd (component nodes edges a))" "reaches edges (hd (component nodes edges a)) a"
proof -
  have "component nodes edges a \<noteq> []"
    using assms set_component [of a nodes edges a] by auto
  then have "hd (component nodes edges a) \<in> set (component nodes edges a)"
    by simp
  then show "reaches edges a (hd (component nodes edges a))" "reaches edges (hd (component nodes edges a)) a"
    by (simp_all add: set_component)
qed

lemma rank_component:
  assumes "distinct nodes" "a \<in> set nodes"
  shows "rank nodes edges (component nodes edges a) = card {b \<in> set nodes. reaches edges a b}"
proof -
  have "filter (reaches edges (hd (component nodes edges a))) nodes = filter (reaches edges a) nodes"
    by (intro filter_cong refl reaches_same [OF hd_component(2,1)] assms(2))
  then show ?thesis
    using assms(1) distinct_card [of "filter (reaches edges a) nodes"] by (simp add: rank_def)
qed

lemma edge_rank:
  assumes "distinct nodes" "a \<in> set nodes" "b \<in> set nodes" "(a, b) \<in> set edges"
    and "rank nodes edges (component nodes edges a) \<le> rank nodes edges (component nodes edges b)"
  shows "component nodes edges a = component nodes edges b"
proof -
  let ?A = "{c \<in> set nodes. reaches edges a c}" and ?B = "{c \<in> set nodes. reaches edges b c}"
  have ab: "reaches edges a b"
    using assms(4) by (auto simp: reaches_def)
  then have "?B \<subseteq> ?A"
    using reaches_trans [OF ab] by auto
  moreover have "card ?A \<le> card ?B"
    using assms by (simp add: rank_component)
  ultimately have "?B = ?A"
    by (intro card_seteq) simp_all
  moreover have "a \<in> ?A"
    using assms(2) by simp
  ultimately have "a \<in> ?B"
    by (simp only:)
  then have "reaches edges b a"
    by simp
  with ab show ?thesis
    by (rule component_eq)
qed

lemma scc_ref_ok:
  assumes d: "distinct nodes" and e: "set edges \<subseteq> set nodes \<times> set nodes"
  shows "scc_ok nodes edges (scc_ref nodes edges)"
  unfolding scc_ok_def
proof (intro conjI ballI allI impI)
  let ?cs = "scc_ref nodes edges"
  have dcs: "distinct ?cs"
    by (simp add: scc_ref_def)
  show "distinct (concat ?cs)"
    unfolding distinct_concat_iff
  proof (intro conjI ballI allI impI)
    show "distinct (removeAll [] ?cs)"
      using dcs by (rule distinct_removeAll)
    show "distinct g" if "g \<in> set ?cs" for g
      using that d by (auto simp: set_scc_ref component_def)
    show "set g \<inter> set h = {}" if "g \<in> set ?cs \<and> h \<in> set ?cs \<and> g \<noteq> h" for g h
      using that scc_ref_group(1) [of g nodes edges] scc_ref_group(1) [of h nodes edges] by (metis disjoint_iff)
  qed
  show "set (concat ?cs) = set nodes"
    by (auto simp: set_scc_ref set_component)
  show "b \<in> set g \<longleftrightarrow> (a, b) \<in> (set edges)\<^sup>* \<and> (b, a) \<in> (set edges)\<^sup>*"
    if "g \<in> set ?cs" "a \<in> set g" "b \<in> set nodes" for g a b
    using scc_ref_group [OF that(1,2)] that(3) by (simp add: set_component reaches_rtrancl)
  show "j \<le> i" if ij: "i < length ?cs" "j < length ?cs" and ab: "a \<in> set (?cs ! i)" "b \<in> set (?cs ! j)" "(a, b) \<in> set edges"
    for i j a b
  proof (rule ccontr)
    assume "\<not> j \<le> i"
    then have "rank nodes edges (?cs ! i) \<le> rank nodes edges (?cs ! j)"
      using ij sorted_nth_mono [of "map (rank nodes edges) ?cs" i j] by (simp add: scc_ref_def)
    moreover have "?cs ! i = component nodes edges a" "?cs ! j = component nodes edges b" "a \<in> set nodes" "b \<in> set nodes"
      using scc_ref_group [OF nth_mem ab(1)] scc_ref_group [OF nth_mem ab(2)] ij by auto
    ultimately have "?cs ! i = ?cs ! j"
      using edge_rank [OF d _ _ ab(3)] by simp
    with dcs ij \<open>\<not> j \<le> i\<close> show False
      by (simp add: nth_eq_iff_index_eq)
  qed
qed

lemma reference_library: "library_ok key_iter scc_ref"
  by (simp add: library_ok_def key_iter_def scc_ref_ok)

interpretation reference: graph_library key_iter scc_ref
  by unfold_locales (rule reference_library)

end
