(* ===== verification/Epaxos_Runs.thy ===== *)
theory Epaxos_Runs
  imports Epaxos_Setup Epaxos_Graph
begin

text \<open>
  Whole calls of \<^verbatim>\<open>propose\<close> and \<^verbatim>\<open>recover\<close> (\<^verbatim>\<open>examples/epaxos/replica.rs\<close>) over the list of replicas that
  \<^verbatim>\<open>setup\<close> returns, and \<^verbatim>\<open>main\<close> of \<^verbatim>\<open>examples/epaxos/main.rs\<close>. The phases modelled one by one before are
  composed here in the order of the code, with every message delivered: \<open>order\<close> lists the peers in the
  order in which they handle a request and their replies arrive. \<open>None\<close> is a panic or a call that does
  not succeed. The hash sets of replica \<open>j\<close> iterate by \<open>iter j\<close>.

  A proposal run this way is a run of the cluster model (lemma \<open>run_propose_steps\<close>).
\<close>

section \<open>Delivering messages\<close>

fun fan_out ::
  "(nat \<Rightarrow> replica_inner \<Rightarrow> ('r \<times> replica_inner) option) \<Rightarrow> nat list \<Rightarrow> replica_inner list
   \<Rightarrow> ((nat \<times> 'r) list \<times> replica_inner list) option" where
  "fan_out h [] rs = Some ([], rs)"
| "fan_out h (j # js) rs =
    (if length rs \<le> j then None
     else do {
       (reply, st) \<leftarrow> h j (rs ! j);
       (replies, rs') \<leftarrow> fan_out h js (rs[j := st]);
       Some ((j, reply) # replies, rs')
     })"

definition arrivals :: "(nat \<times> 'r) list \<Rightarrow> 'r node_response obs list" where
  "arrivals replies = map (\<lambda>(j, r). (False, Item \<lparr>nr_node_id = node_id_of j, nr_result = Inr r\<rparr>)) replies"

definition call_of :: "configuration \<Rightarrow> unit responses" where
  "call_of cfg = \<lparr>rs_size = config_size cfg, launch = Some ()\<rparr>"

text \<open>The replicas behind the nodes of a configuration.\<close>

definition indices :: "configuration \<Rightarrow> nat list" where
  "indices cfg = map (\<lambda>i. unat i - 1) (node_ids cfg)"

section \<open>Whole calls\<close>

definition run_accept ::
  "nat list \<Rightarrow> pre_accept_request \<Rightarrow> attrs \<Rightarrow> configuration \<Rightarrow> replica_inner list \<Rightarrow> replica_inner list option" where
  "run_accept order req a peers rs =
     (case propose_accept_request req a of
        None \<Rightarrow> Some rs
      | Some areq \<Rightarrow> do {
          (acks, rs') \<leftarrow> fan_out (\<lambda>_. handle_accept_inner areq) order rs;
          (case propose_accept peers (call_of peers) (arrivals acks) of Finished (Inr _) \<Rightarrow> Some rs' | _ \<Rightarrow> None)
        })"

definition run_propose ::
  "(nat \<Rightarrow> key set \<Rightarrow> key list) \<Rightarrow> scc_fn \<Rightarrow> nat list \<Rightarrow> nat \<Rightarrow> command list \<Rightarrow> configuration \<Rightarrow> bool
   \<Rightarrow> replica_inner list \<Rightarrow> (commit_info \<times> replica_inner list) option" where
  "run_propose iter scc order i cmds peers thrifty rs = do {
     (req, st) \<leftarrow> propose_start cmds (rs ! i);
     (replies, rs1) \<leftarrow> fan_out (\<lambda>_. handle_pre_accept_inner req) order (rs[i := st]);
     a \<leftarrow> (case propose_pre_accept req peers (call_of peers) (arrivals replies) of Finished (Inr a) \<Rightarrow> Some a | _ \<Rightarrow> None);
     rs2 \<leftarrow> run_accept order req a peers rs1;
     (creq, info, st') \<leftarrow> propose_commit (iter i) scc req a (rs2 ! i);
     (_, rs3) \<leftarrow> fan_out (\<lambda>j st. map_option (Pair ()) (handle_commit_inner (iter j) scc creq st))
       (indices (commit_peers thrifty peers)) (rs2[i := st']);
     Some (info, rs3)
   }"

definition run_recover ::
  "(nat \<Rightarrow> key set \<Rightarrow> key list) \<Rightarrow> scc_fn \<Rightarrow> nat list \<Rightarrow> nat \<Rightarrow> nat \<Rightarrow> i32 \<Rightarrow> configuration
   \<Rightarrow> replica_inner list \<Rightarrow> (commit_info \<times> replica_inner list) option" where
  "run_recover iter scc order i target_r target_slot peers rs = do {
     let n = r_n (rs ! i); prep = recover_start target_r target_slot (rs ! i) in do {
     (prepared, rs0) \<leftarrow> fan_out (\<lambda>_ st. Some (handle_prepare_inner prep st, st)) order rs;
     replies \<leftarrow> (case recover_prepare (config_size peers) (call_of peers) (arrivals prepared) of
        Finished (Inr replies) \<Rightarrow> Some replies | _ \<Rightarrow> None);
     choice \<leftarrow> recover_analyze n replies;
     (choice', fast) \<leftarrow> (case choice of
        Try_Fast cmds sq deps \<Rightarrow> do {
          (tries, rs0') \<leftarrow> fan_out (\<lambda>_ st. map_option (\<lambda>r. (r, st))
             (handle_try_pre_accept_inner (recover_try_request i target_r target_slot cmds sq deps) st)) order rs0;
          (case snd (quorum (try_quorum (config_size peers)) True (call_of peers) (arrivals tries)) of
             Finished tpa \<Rightarrow> (case recover_after_try tpa cmds sq deps of
                Commit_Now cmds sq deps \<Rightarrow> Some (Commit_Now cmds sq deps, True)
              | c \<Rightarrow> Some (c, False))
           | _ \<Rightarrow> None)
        }
      | c \<Rightarrow> Some (c, False));
     ((cmds, sq, deps), rs1) \<leftarrow> (case choice' of
        Commit_Now cmds sq deps \<Rightarrow> Some ((cmds, sq, deps), rs0)
      | Accept_First cmds sq deps \<Rightarrow> do {
          (acks, rs1) \<leftarrow> fan_out (\<lambda>_. handle_accept_inner (recover_accept_request i target_r target_slot cmds sq deps)) order rs0;
          (case recover_accept n (call_of peers) (arrivals acks) of Finished (Inr _) \<Rightarrow> Some ((cmds, sq, deps), rs1) | _ \<Rightarrow> None)
        }
      | Try_Fast cmds sq deps \<Rightarrow> None);
     (creq, info, st') \<leftarrow> recover_commit (iter i) scc target_r target_slot cmds sq deps fast (rs1 ! i);
     (_, rs2) \<leftarrow> fan_out (\<lambda>j st. map_option (Pair ()) (handle_commit_inner (iter j) scc creq st)) (indices peers) (rs1[i := st']);
     Some (info, rs2)
   }}"

section \<open>main\<close>

text \<open>The loop of \<^verbatim>\<open>main\<close>: one proposal after the other, by the given leaders.\<close>

fun run_proposals ::
  "(nat \<Rightarrow> key set \<Rightarrow> key list) \<Rightarrow> scc_fn \<Rightarrow> (nat \<times> nat list \<times> command list) list \<Rightarrow> configuration list
   \<Rightarrow> replica_inner list \<Rightarrow> (commit_info list \<times> replica_inner list) option" where
  "run_proposals iter scc [] peers_cfgs rs = Some ([], rs)"
| "run_proposals iter scc ((i, order, cmds) # ps) peers_cfgs rs = do {
     (info, rs') \<leftarrow> run_propose iter scc order i cmds (peers_cfgs ! i) False rs;
     (infos, rs'') \<leftarrow> run_proposals iter scc ps peers_cfgs rs';
     Some (info # infos, rs'')
   }"

definition main_commands :: "(string \<times> string) list" where
  "main_commands = [(''hello'', ''world''), (''foo'', ''bar''), (''baz'', ''qux'')]"

text \<open>\<^verbatim>\<open>main\<close>: what it prints are the results of the proposals and the stores of the replicas.\<close>

definition epaxos_main ::
  "(string \<Rightarrow> string option) \<Rightarrow> (nat \<Rightarrow> key set \<Rightarrow> key list) \<Rightarrow> scc_fn \<Rightarrow> (nat \<Rightarrow> nat list)
   \<Rightarrow> (commit_info list \<times> (string \<Rightarrow> string option) list) option" where
  "epaxos_main sock iter scc orders = do {
     (replicas, mgr :: unit mstate, all_cfg, peers_cfgs) \<leftarrow> setup_cluster sock 3 19020;
     (infos, rs) \<leftarrow> run_proposals iter scc (map (\<lambda>(p, key, val). (0, orders p, [put key val])) (enumerate 0 main_commands))
       peers_cfgs replicas;
     Some (infos, map r_store rs)
   }"

section \<open>A proposal is a run of the cluster\<close>

definition view :: "nat \<Rightarrow> cluster \<Rightarrow> replica_inner list \<Rightarrow> bool" where
  "view n c rs \<longleftrightarrow> length rs = n \<and> (\<forall>j < n. c_replicas c j = rs ! j)"

lemma view_update: "view n c rs \<Longrightarrow> view n (set_replica j st c) (rs[j := st])"
  by (auto simp: view_def nth_list_update)

lemma view_nth: "view n c rs \<Longrightarrow> j < n \<Longrightarrow> rs ! j = c_replicas c j"
  by (simp add: view_def)

lemma fan_out_length: "fan_out h js rs = Some (replies, rs') \<Longrightarrow> length rs' = length rs \<and> map fst replies = js"
proof (induction js arbitrary: rs replies)
  case (Cons j js)
  from Cons.prems obtain reply st replies1 where "fan_out h js (rs[j := st]) = Some (replies1, rs')" "replies = (j, reply) # replies1"
    by (auto split: if_splits bind_splits)
  with Cons.IH show ?case by auto
qed auto

lemma fan_out_bound: "fan_out h js rs = Some (replies, rs') \<Longrightarrow> set js \<subseteq> {0..<length rs}"
proof (induction js arbitrary: rs replies)
  case (Cons j js)
  from Cons.prems obtain st replies1 where "j < length rs" "fan_out h js (rs[j := st]) = Some (replies1, rs')"
    by (auto split: if_splits bind_splits)
  with Cons.IH [of "rs[j := st]" replies1] show ?case by auto
qed simp

text \<open>
  Delivery to a list of replicas, one step each: \<open>step\<close> is the step of the cluster that delivers one
  message, which must keep the invariant \<open>I\<close> and record the reply.
\<close>

lemma fan_out_steps:
  assumes "fan_out h js rs = Some (replies, rs')" "view n c rs" "I c" "i \<notin> set js"
    and one: "\<And>c j reply st. j < n \<Longrightarrow> j \<noteq> i \<Longrightarrow> I c \<Longrightarrow> h j (c_replicas c j) = Some (reply, st) \<Longrightarrow>
      \<exists>c'. group_step lib cfg c c' \<and> I c' \<and> c_replicas c' = (c_replicas c)(j := st) \<and> sent c' \<supseteq> insert (j, reply) (sent c)"
  shows "\<exists>c'. (group_step lib cfg)\<^sup>*\<^sup>* c c' \<and> I c' \<and> view n c' rs' \<and> sent c' \<supseteq> set replies \<union> sent c"
  using assms(1-4)
proof (induction js arbitrary: rs c replies)
  case (Cons j js)
  from Cons.prems(1) obtain reply st replies1 where j: "j < length rs" "h j (rs ! j) = Some (reply, st)"
    and rest: "fan_out h js (rs[j := st]) = Some (replies1, rs')" and replies: "replies = (j, reply) # replies1"
    by (auto split: if_splits bind_splits)
  have jn: "j < n" "j \<noteq> i" "h j (c_replicas c j) = Some (reply, st)"
    using j Cons.prems(2,4) by (auto simp: view_def)
  obtain c1 where c1: "group_step lib cfg c c1" "I c1" "c_replicas c1 = (c_replicas c)(j := st)" "insert (j, reply) (sent c) \<subseteq> sent c1"
    using one [OF jn(1,2) Cons.prems(3) jn(3)] by blast
  have "view n c1 (rs[j := st])"
    using Cons.prems(2) c1(3) by (auto simp: view_def nth_list_update)
  moreover have "i \<notin> set js" using Cons.prems(4) by simp
  ultimately obtain c' where "(group_step lib cfg)\<^sup>*\<^sup>* c1 c'" "I c'" "view n c' rs'" "set replies1 \<union> sent c1 \<subseteq> sent c'"
    using Cons.IH [OF rest _ c1(2)] by blast
  with c1 replies show ?case by (intro exI [of _ c']) (auto intro: converse_rtranclp_into_rtranclp)
qed auto

lemma items_arrivals [simp]:
  "items (arrivals replies) = map (\<lambda>(j, r). \<lparr>nr_node_id = node_id_of j, nr_result = Inr r\<rparr>) replies"
  by (induction replies) (auto simp: arrivals_def)

lemma heard_arrivals:
  assumes "distinct (map fst replies)" "fst ` set replies \<subseteq> {0..<n}" "n < 2 ^ 31"
    and "\<And>j r. (j, r) \<in> set replies \<Longrightarrow> (k, j, r) \<in> sent"
  shows "heard k sent (arrivals replies)"
proof -
  have "map nr_node_id (items (arrivals replies)) = map node_id_of (map fst replies)"
    by auto
  moreover have "inj_on node_id_of (set (map fst replies))"
    using node_id_of_inj [OF assms(3)] assms(2) by (auto intro: inj_on_subset)
  ultimately have "distinct (map nr_node_id (items (arrivals replies)))"
    using assms(1) by (simp only: distinct_map)
  moreover have "\<exists>j. (k, j, v) \<in> sent \<and> nr_node_id nr = node_id_of j"
    if nr: "nr \<in> set (items (arrivals replies))" "nr_result nr = Inr v" for nr v
  proof -
    obtain j where "(j, v) \<in> set replies" "nr_node_id nr = node_id_of j"
      using nr by auto
    then show ?thesis using assms(4) by blast
  qed
  ultimately show ?thesis
    unfolding heard_def by blast
qed

lemma pre_accept_round:
  assumes run: "fan_out (\<lambda>_. handle_pre_accept_inner (p_req p)) js rs = Some (replies, rs')"
    and v: "view (config_size cfg) c rs" and p: "c_proposals c k = Some p" and k: "fst k \<notin> set js"
  obtains c' where "(group_step lib cfg)\<^sup>*\<^sup>* c c'" "c_proposals c' = c_proposals c" "view (config_size cfg) c' rs'"
    "\<And>j r. (j, r) \<in> set replies \<Longrightarrow> (k, j, r) \<in> c_replies c'"
proof -
  have "\<exists>c'. (group_step lib cfg)\<^sup>*\<^sup>* c c' \<and> c_proposals c' = c_proposals c \<and> view (config_size cfg) c' rs'
      \<and> set replies \<union> {(j, r). (k, j, r) \<in> c_replies c} \<subseteq> {(j, r). (k, j, r) \<in> c_replies c'}"
  proof (rule fan_out_steps [OF run v refl k, where sent = "\<lambda>c. {(j, r). (k, j, r) \<in> c_replies c}"])
    fix c1 :: cluster and j reply st
    assume *: "j < config_size cfg" "j \<noteq> fst k" "c_proposals c1 = c_proposals c"
      "handle_pre_accept_inner (p_req p) (c_replicas c1 j) = Some (reply, st)"
    let ?c = "(set_replica j st c1)\<lparr>c_replies := insert (k, j, reply) (c_replies c1)\<rparr>"
    have "group_step lib cfg c1 ?c"
      using * p by (intro group_step.pre_accept) auto
    then show "\<exists>c'. group_step lib cfg c1 c' \<and> c_proposals c' = c_proposals c \<and> c_replicas c' = (c_replicas c1)(j := st)
        \<and> insert (j, reply) {(j, r). (k, j, r) \<in> c_replies c1} \<subseteq> {(j, r). (k, j, r) \<in> c_replies c'}"
      using *(3) by (intro exI [of _ ?c]) auto
  qed
  then show thesis using that by blast
qed

lemma accept_round:
  assumes run: "fan_out (\<lambda>_. handle_accept_inner areq) js rs = Some (acks, rs')"
    and v: "view (config_size cfg) c rs" and p: "c_proposals c k = Some p" "p_decision p = Some a"
    and a: "propose_accept_request (p_req p) a = Some areq" and k: "fst k \<notin> set js"
  obtains c' where "(group_step lib cfg)\<^sup>*\<^sup>* c c'" "c_proposals c' = c_proposals c" "view (config_size cfg) c' rs'"
    "\<And>j r. (j, r) \<in> set acks \<Longrightarrow> (k, j, r) \<in> c_acks c'"
proof -
  have "\<exists>c'. (group_step lib cfg)\<^sup>*\<^sup>* c c' \<and> c_proposals c' = c_proposals c \<and> view (config_size cfg) c' rs'
      \<and> set acks \<union> {(j, r). (k, j, r) \<in> c_acks c} \<subseteq> {(j, r). (k, j, r) \<in> c_acks c'}"
  proof (rule fan_out_steps [OF run v refl k, where sent = "\<lambda>c. {(j, r). (k, j, r) \<in> c_acks c}"])
    fix c1 :: cluster and j ack st
    assume *: "j < config_size cfg" "j \<noteq> fst k" "c_proposals c1 = c_proposals c"
      "handle_accept_inner areq (c_replicas c1 j) = Some (ack, st)"
    let ?c = "(set_replica j st c1)\<lparr>c_acks := insert (k, j, ack) (c_acks c1)\<rparr>"
    have "group_step lib cfg c1 ?c"
      using * p a by (intro group_step.accept [where p = p]) auto
    then show "\<exists>c'. group_step lib cfg c1 c' \<and> c_proposals c' = c_proposals c \<and> c_replicas c' = (c_replicas c1)(j := st)
        \<and> insert (j, ack) {(j, r). (k, j, r) \<in> c_acks c1} \<subseteq> {(j, r). (k, j, r) \<in> c_acks c'}"
      using *(3) by (intro exI [of _ ?c]) auto
  qed
  then show thesis using that by blast
qed

lemma commit_round:
  assumes run: "fan_out (\<lambda>j st. map_option (Pair ()) (handle_commit_inner (iter j) scc (propose_commit_request (p_req p) a) st)) js rs = Some (us, rs')"
    and v: "view (config_size cfg) c rs" and p: "c_proposals c k = Some p" "p_decision p = Some a" "p_committed p"
    and k: "fst k \<notin> set js" and lib: "\<And>j. j < config_size cfg \<Longrightarrow> lib (iter j) scc"
  obtains c' where "(group_step lib cfg)\<^sup>*\<^sup>* c c'" "view (config_size cfg) c' rs'"
proof -
  have "\<exists>c'. (group_step lib cfg)\<^sup>*\<^sup>* c c' \<and> c_proposals c' = c_proposals c \<and> view (config_size cfg) c' rs' \<and> set us \<union> UNIV \<subseteq> UNIV"
  proof (rule fan_out_steps [OF run v refl k, where sent = "\<lambda>_. UNIV"])
    fix c1 :: cluster and j u st
    assume *: "j < config_size cfg" "j \<noteq> fst k" "c_proposals c1 = c_proposals c"
      "map_option (Pair ()) (handle_commit_inner (iter j) scc (propose_commit_request (p_req p) a) (c_replicas c1 j)) = Some (u, st)"
    have "group_step lib cfg c1 (set_replica j st c1)"
      using * p lib by (intro group_step.learn [where p = p and a = a and k = k and iter = "iter j" and tarjan_scc = scc]) auto
    then show "\<exists>c'. group_step lib cfg c1 c' \<and> c_proposals c' = c_proposals c \<and> c_replicas c' = (c_replicas c1)(j := st)
        \<and> insert (j, u) UNIV \<subseteq> UNIV"
      using *(3) by (intro exI [of _ "set_replica j st c1"]) auto
  qed
  then show thesis using that by blast
qed

lemma unat_node_id: "j < 2 ^ 31 \<Longrightarrow> unat (node_id_of j) = Suc j"
proof -
  assume "j < 2 ^ 31"
  then have "take_bit 32 (j + 1) = j + 1" by (intro take_bit_nat_eq_self) simp
  then show ?thesis unfolding node_id_of_def unsigned_of_nat by simp
qed

lemma indices_peers:
  assumes "group_config cfg" "i < config_size cfg"
  shows "indices (peers_of cfg i) = filter (\<lambda>j. j \<noteq> i) [0..<config_size cfg]"
  using assms by (auto simp: indices_def peers_node_ids comp_def group_config_def unat_node_id intro!: map_idI)

lemma peers_distinct:
  assumes "group_config cfg" "i < config_size cfg"
  shows "distinct_ids (peers_of cfg i)"
proof -
  have "inj_on node_id_of (set (filter (\<lambda>j. j \<noteq> i) [0..<config_size cfg]))"
    using assms(1) by (intro inj_on_subset [OF node_id_of_inj [of "config_size cfg"]]) (auto simp: group_config_def)
  then show ?thesis
    by (simp add: distinct_ids_def peers_node_ids [OF assms] distinct_map)
qed

lemma indices_commit_peers:
  assumes "group_config cfg" "i < config_size cfg"
  shows "i \<notin> set (indices (commit_peers thrifty (peers_of cfg i)))"
proof -
  have "set (indices (commit_peers thrifty (peers_of cfg i))) \<subseteq> set (indices (peers_of cfg i))"
    by (auto simp: commit_peers_def indices_def sub_config_ids [OF peers_distinct [OF assms]])
  then show ?thesis using indices_peers [OF assms] by auto
qed

lemma accept_phase:
  assumes acc: "run_accept order req a (peers_of cfg (fst k)) rs = Some rs'" and v: "view (config_size cfg) c rs"
    and p: "c_proposals c k = Some p" "p_req p = req" "p_decision p = Some a" "\<not> p_committed p"
    and n: "config_size cfg < 2 ^ 31" and order: "distinct order" "fst k \<notin> set order"
  obtains c' p' where "(group_step lib cfg)\<^sup>*\<^sup>* c c'" "view (config_size cfg) c' rs'" "c_proposals c' k = Some p'"
    "p_req p' = req" "p_decision p' = Some a" "\<not> p_committed p'" "propose_accept_request req a = None \<or> p_accepted p'"
proof (cases "propose_accept_request req a")
  case None
  with acc v p show thesis by (intro that [of c p]) (auto simp: run_accept_def)
next
  case (Some areq)
  let ?n = "config_size cfg" and ?peers = "peers_of cfg (fst k)"
  obtain acks ack where run: "fan_out (\<lambda>_. handle_accept_inner areq) order rs = Some (acks, rs')"
    and fin: "propose_accept ?peers (call_of ?peers) (arrivals acks) = Finished (Inr ack)"
    using acc Some by (auto simp: run_accept_def split: bind_splits progress.splits sum.splits)
  obtain c1 where s1: "(group_step lib cfg)\<^sup>*\<^sup>* c c1" and c1: "c_proposals c1 = c_proposals c" "view ?n c1 rs'"
    "\<And>j r. (j, r) \<in> set acks \<Longrightarrow> (k, j, r) \<in> c_acks c1"
    by (rule accept_round [OF run v p(1,3)]) (use Some order(2) p(2) in auto)
  have "heard k (c_acks c1) (arrivals acks)"
  proof (rule heard_arrivals [OF _ _ n])
    show "distinct (map fst acks)" "fst ` set acks \<subseteq> {0..<?n}"
      using fan_out_length [OF run] fan_out_bound [OF run] order(1) v by (simp_all add: view_def flip: set_map)
  qed (rule c1(3))
  then have "group_step lib cfg c1 (set_proposal k (p\<lparr>p_accepted := True\<rparr>) c1)"
    using c1(1) p fin Some by (intro group_step.accepted [where h = "call_of ?peers" and obs = "arrivals acks"]) auto
  with s1 c1(2) p show thesis
    by (intro that [of "set_proposal k (p\<lparr>p_accepted := True\<rparr>) c1" "p\<lparr>p_accepted := True\<rparr>"])
      (auto simp: view_def intro: rtranclp.rtrancl_into_rtrancl)
qed

lemma run_propose_steps:
  assumes run: "run_propose iter scc order i cmds (peers_of cfg i) thrifty rs = Some (info, rs')"
    and g: "group_config cfg" and i: "i < config_size cfg" "r_id (rs ! i) = i"
    and order: "distinct order" "i \<notin> set order" and v: "view (config_size cfg) c rs"
    and lib: "\<forall>j < config_size cfg. lib (iter j) scc"
  shows "\<exists>c'. (group_step lib cfg)\<^sup>*\<^sup>* c c' \<and> view (config_size cfg) c' rs'"
proof -
  let ?n = "config_size cfg" and ?peers = "peers_of cfg i"
  obtain req st replies rs1 a where start: "propose_start cmds (rs ! i) = Some (req, st)"
    and pre: "fan_out (\<lambda>_. handle_pre_accept_inner req) order (rs[i := st]) = Some (replies, rs1)"
    and dec: "propose_pre_accept req ?peers (call_of ?peers) (arrivals replies) = Finished (Inr a)"
    using run by (auto simp: run_propose_def split: bind_splits progress.splits sum.splits)
  obtain rs2 creq st' us where acc: "run_accept order req a ?peers rs1 = Some rs2"
    and com: "propose_commit (iter i) scc req a (rs2 ! i) = Some (creq, info, st')"
    and lrn: "fan_out (\<lambda>j st. map_option (Pair ()) (handle_commit_inner (iter j) scc creq st))
       (indices (commit_peers thrifty ?peers)) (rs2[i := st']) = Some (us, rs')"
    using run by (simp add: run_propose_def start pre dec) (auto split: bind_splits)
  have n: "?n < 2 ^ 31" using g by (simp add: group_config_def)
  have req: "pa_replica req = as_i32 i" "pa_slot req = pa_slot req"
    using start i(2) by (auto simp: propose_start_def Let_def split: bind_splits)
  define k where "k = (i, pa_slot req)"
  define p where "p = \<lparr>p_req = req, p_decision = None, p_accepted = False, p_committed = False\<rparr>"
  define c1 where "c1 = set_proposal k p (set_replica i st c)"
  have s1: "group_step lib cfg c c1"
    unfolding c1_def k_def p_def using start i(1) v by (intro group_step.start) (auto simp: view_def)
  have v1: "view ?n c1 (rs[i := st])" using view_update [OF v] by (simp add: c1_def view_def)
  have p1: "c_proposals c1 k = Some p" by (simp add: c1_def)
  obtain c2 where s2: "(group_step lib cfg)\<^sup>*\<^sup>* c1 c2" and c2: "c_proposals c2 = c_proposals c1" "view ?n c2 rs1"
    "\<And>j r. (j, r) \<in> set replies \<Longrightarrow> (k, j, r) \<in> c_replies c2"
    by (rule pre_accept_round [OF _ v1 p1, of order replies rs1]) (use pre order(2) in \<open>auto simp: p_def k_def\<close>)
  have heard2: "heard k (c_replies c2) (arrivals replies)"
  proof (rule heard_arrivals [OF _ _ n])
    show "distinct (map fst replies)" "fst ` set replies \<subseteq> {0..<?n}"
      using fan_out_length [OF pre] fan_out_bound [OF pre] order(1) v by (simp_all add: view_def flip: set_map)
  qed (rule c2(3))
  define p3 where "p3 = p\<lparr>p_decision := Some a\<rparr>"
  define c3 where "c3 = set_proposal k p3 c2"
  have "group_step lib cfg c2 c3"
    unfolding c3_def p3_def using c2(1) p1 heard2 dec
    by (intro group_step.decide [where h = "call_of ?peers" and obs = "arrivals replies"]) (auto simp: p_def k_def)
  moreover have c3: "c_proposals c3 k = Some p3" "view ?n c3 rs1" using c2(2) by (auto simp: c3_def view_def)
  ultimately have s3: "(group_step lib cfg)\<^sup>*\<^sup>* c c3" using s1 s2 by (meson converse_rtranclp_into_rtranclp rtranclp.rtrancl_into_rtrancl)
  have p3: "c_proposals c3 k = Some p3" "p_req p3 = req" "p_decision p3 = Some a" "\<not> p_committed p3"
    using c3 by (auto simp: p3_def p_def)
  obtain c4 p4 where s4: "(group_step lib cfg)\<^sup>*\<^sup>* c3 c4" and c4: "view ?n c4 rs2" "c_proposals c4 k = Some p4"
      "p_req p4 = req" "p_decision p4 = Some a" "\<not> p_committed p4" "propose_accept_request req a = None \<or> p_accepted p4"
    by (rule accept_phase [of order req a cfg k rs1 rs2 c3 p3]) (use acc c3(2) p3 n order in \<open>auto simp: k_def\<close>)
  define p5 where "p5 = p4\<lparr>p_committed := True\<rparr>"
  define c5 where "c5 = set_proposal k p5 (set_replica i st' c4)"
  have "group_step lib cfg c4 c5"
    unfolding c5_def p5_def using group_step.commit [of c4 k p4 a "iter i" scc creq info st' lib cfg] c4 com i(1) lib
    by (simp add: k_def view_nth)
  moreover have c5: "c_proposals c5 k = Some p5" "view ?n c5 (rs2[i := st'])" "p_req p5 = req" "p_decision p5 = Some a" "p_committed p5"
    using view_update [OF c4(1)] c4 by (auto simp: c5_def p5_def view_def)
  moreover have "creq = propose_commit_request req a"
    using com by (auto simp: propose_commit_def split: bind_splits prod.splits)
  then have "fan_out (\<lambda>j st. map_option (Pair ()) (handle_commit_inner (iter j) scc (propose_commit_request (p_req p5) a) st))
       (indices (commit_peers thrifty ?peers)) (rs2[i := st']) = Some (us, rs')"
    using lrn c5(3) by simp
  then obtain c6 where "(group_step lib cfg)\<^sup>*\<^sup>* c5 c6" "view ?n c6 rs'"
    by (rule commit_round [where lib = lib, OF _ c5(2,1,4,5)]) (use indices_commit_peers [OF g i(1)] lib in \<open>simp_all add: k_def\<close>)
  ultimately show ?thesis using s3 s4 by (meson rtranclp.rtrancl_into_rtrancl rtranclp_trans)
qed

end
