(* ===== verification/Epaxos_Sequential.thy ===== *)
theory Epaxos_Sequential
  imports Epaxos_Runs
begin

text \<open>
  Proposals one after the other, as \<^verbatim>\<open>main\<close> of \<^verbatim>\<open>examples/epaxos/main.rs\<close> makes them. A proposal that
  meets a group at rest, in which every replica has executed the same instances, leaves it at rest: the
  leader's attributes are those every peer computes, all replies agree, the commit makes one instance
  runnable, and every replica runs it. By induction this gives the outcome of any number of proposals,
  by any leaders, and that of \<^verbatim>\<open>main\<close>. What holds of every interleaving holds of these runs too, since a
  proposal run to its end is a run of the cluster model.
\<close>

section \<open>Proposals one after the other\<close>

text \<open>
  The state of replica \<open>j\<close> after complete proposals: all replicas have the same instances, all of them
  committed and executed, the same conflict map and the same store.
\<close>

definition settled :: "nat \<Rightarrow> instance_rec list list \<Rightarrow> conflict_map \<Rightarrow> (string \<Rightarrow> string option) \<Rightarrow> nat \<Rightarrow> replica_inner" where
  "settled n insts cf kv j = \<lparr>r_id = j, r_n = n, r_cur_slot = int (length (insts ! j)), r_instances = insts,
     r_executed = map (map (\<lambda>_. True)) insts, r_conflicts = cf, r_store = kv\<rparr>"

definition entry_in :: "nat \<Rightarrow> nat \<Rightarrow> instance_rec list list \<Rightarrow> conflict_entry \<Rightarrow> bool" where
  "entry_in n m insts e \<longleftrightarrow> length (ce_deps e) = n \<and> 0 \<le> ce_max_seq e \<and> ce_max_seq e \<le> int m
     \<and> (\<forall>j < n. ce_deps e ! j < int (length (insts ! j)))"

definition history_ok :: "nat \<Rightarrow> nat \<Rightarrow> instance_rec list list \<Rightarrow> conflict_map \<Rightarrow> bool" where
  "history_ok n m insts cf \<longleftrightarrow> length insts = n
     \<and> (\<forall>j < n. length (insts ! j) \<le> m \<and> (\<forall>x \<in> set (insts ! j). i_status x = COMMITTED \<and> length (i_deps x) = n))
     \<and> (\<forall>k e. cf k = Some e \<longrightarrow> entry_in n m insts e)"

definition attrs_in :: "nat \<Rightarrow> nat \<Rightarrow> instance_rec list list \<Rightarrow> i32 \<Rightarrow> i32 list \<Rightarrow> bool" where
  "attrs_in n m insts q ds \<longleftrightarrow> length ds = n \<and> 0 \<le> q \<and> q \<le> int m + 1 \<and> (\<forall>j < n. ds ! j < int (length (insts ! j)))"

lemma raise_in:
  assumes h: "\<forall>k e. cf k = Some e \<longrightarrow> entry_in n m insts e" and m: "Suc m < 2 ^ 31"
  shows "attrs_in n m insts q ds \<Longrightarrow> \<exists>q' ds'. raise_attrs n cf cmds (q, ds) = Some (q', ds') \<and> attrs_in n m insts q' ds'"
proof (induction cmds arbitrary: q ds)
  case (Cons cmd cmds)
  show ?case
  proof (cases "c_key cmd = [] \<or> cf (c_key cmd) = None")
    case True
    with Cons show ?thesis by auto
  next
    case False
    then obtain e where e: "cf (c_key cmd) = Some e" "c_key cmd \<noteq> []" by auto
    then have in_e: "entry_in n m insts e" using h by blast
    define ds1 where "ds1 = map (\<lambda>r. if r < n then max (ds ! r) (ce_deps e ! r) else ds ! r) [0..<length ds]"
    have "max_deps n ds (ce_deps e) = Some ds1"
      using Cons.prems in_e by (simp add: max_deps_eq attrs_in_def entry_in_def ds1_def)
    moreover have "checked_i32 (ce_max_seq e + 1) = Some (ce_max_seq e + 1)"
      using in_e m by (simp add: checked_i32_def in_i32_def entry_in_def)
    moreover have "attrs_in n m insts (max q (ce_max_seq e + 1)) ds1"
      using Cons.prems in_e by (auto simp: attrs_in_def entry_in_def ds1_def)
    ultimately show ?thesis using Cons.IH e by simp
  qed
qed auto

text \<open>A second replica with the same conflict map raises nothing.\<close>

lemma raise_fixed:
  assumes h: "\<forall>k e. cf k = Some e \<longrightarrow> entry_in n m insts e" and m: "Suc m < 2 ^ 31" and len: "length ds = n"
    and above: "\<forall>cmd \<in> set cmds. \<forall>e. c_key cmd \<noteq> [] \<and> cf (c_key cmd) = Some e \<longrightarrow>
         ce_max_seq e < q \<and> (\<forall>i < n. ce_deps e ! i \<le> ds ! i)"
  shows "raise_attrs n cf cmds (q, ds) = Some (q, ds)"
  using above
proof (induction cmds)
  case (Cons cmd cmds)
  have rest: "raise_attrs n cf cmds (q, ds) = Some (q, ds)" using Cons by simp
  show ?case
  proof (cases "c_key cmd = [] \<or> cf (c_key cmd) = None")
    case True
    with rest show ?thesis by auto
  next
    case False
    then obtain e where e: "cf (c_key cmd) = Some e" "c_key cmd \<noteq> []" by auto
    then have in_e: "entry_in n m insts e" using h by blast
    have le: "ce_max_seq e < q" "\<forall>i < n. ce_deps e ! i \<le> ds ! i" using Cons.prems e by auto
    have "max_deps n ds (ce_deps e) = Some ds"
      using in_e le(2) len by (auto simp: max_deps_eq entry_in_def intro!: nth_equalityI)
    moreover have "checked_i32 (ce_max_seq e + 1) = Some (ce_max_seq e + 1)"
      using in_e m by (simp add: checked_i32_def in_i32_def entry_in_def)
    moreover have "max q (ce_max_seq e + 1) = q" using le(1) by simp
    ultimately show ?thesis using e rest by simp
  qed
qed simp

lemma record_in:
  assumes "\<forall>k e. cf k = Some e \<longrightarrow> entry_in n m insts e" "r < n" "s < int (length (insts ! r))" "0 \<le> q" "q \<le> int m"
  shows "\<exists>cf'. record_conflicts n r s q cmds cf = Some cf' \<and> (\<forall>k e. cf' k = Some e \<longrightarrow> entry_in n m insts e)"
  using assms(1)
proof (induction cmds arbitrary: cf)
  case (Cons cmd cmds)
  show ?case
  proof (cases "c_key cmd = []")
    case True
    with Cons show ?thesis by simp
  next
    case False
    define e where "e = (case cf (c_key cmd) of Some e \<Rightarrow> e | None \<Rightarrow> \<lparr>ce_max_seq = 0, ce_deps = replicate n (- 1)\<rparr>)"
    define e' where "e' = \<lparr>ce_max_seq = max (ce_max_seq e) q, ce_deps = (ce_deps e)[r := max (ce_deps e ! r) s]\<rparr>"
    have e: "entry_in n m insts e"
      using Cons.prems by (auto simp: e_def entry_in_def split: option.splits)
    then have "entry_in n m insts e'"
      using assms(2-5) by (auto simp: e'_def entry_in_def nth_list_update)
    then have "\<forall>k f. (cf(c_key cmd \<mapsto> e')) k = Some f \<longrightarrow> entry_in n m insts f"
      using Cons.prems by auto
    from Cons.IH [OF this] obtain cf' where cf': "record_conflicts n r s q cmds (cf(c_key cmd \<mapsto> e')) = Some cf'"
      "\<forall>k f. cf' k = Some f \<longrightarrow> entry_in n m insts f" by blast
    moreover have "record_conflicts n r s q (cmd # cmds) cf = record_conflicts n r s q cmds (cf(c_key cmd \<mapsto> e'))"
      using False e assms(2) unfolding record_conflicts.simps e_def [symmetric] e'_def entry_in_def by (simp add: Let_def)
    ultimately show ?thesis by simp
  qed
qed simp

text \<open>One more instance \<open>x\<close> of replica \<open>i\<close>.\<close>

definition push_at :: "nat \<Rightarrow> 'a \<Rightarrow> 'a list list \<Rightarrow> 'a list list" where
  "push_at i x xss = xss[i := xss ! i @ [x]]"

lemma push_at_simps [simp]:
  "length (push_at i x xss) = length xss"
  "i < length xss \<Longrightarrow> push_at i x xss ! i = xss ! i @ [x]"
  "j \<noteq> i \<Longrightarrow> push_at i x xss ! j = xss ! j"
  by (simp_all add: push_at_def)

lemma entry_in_push: "i < length insts \<Longrightarrow> entry_in n m insts e \<Longrightarrow> entry_in n (Suc m) (push_at i x insts) e"
  by (fastforce simp: entry_in_def push_at_def nth_list_update)

lemma entry_in_cong:
  "length insts = length insts' \<Longrightarrow> (\<And>j. length (insts ! j) = length (insts' ! j)) \<Longrightarrow> entry_in n m insts e = entry_in n m insts' e"
  by (simp add: entry_in_def)

text \<open>The leader's first part, and what a peer that knows the same answers.\<close>

lemma leader_attrs:
  assumes h: "history_ok n m insts cf" and m: "Suc m < 2 ^ 31" and i: "i < n"
  obtains q ds cf' where "raise_attrs n cf cmds (1, replicate n (- 1)) = Some (q, ds)"
    "record_conflicts n i (int (length (insts ! i))) q cmds cf = Some cf'" "cap_self i (int (length (insts ! i))) ds = Some ds"
    "attrs_in n m insts q ds" "raise_attrs n cf cmds (q, ds) = Some (q, ds)"
    "\<And>x k e. cf' k = Some e \<Longrightarrow> entry_in n (Suc m) (push_at i x insts) e"
proof -
  have cf: "\<forall>k e. cf k = Some e \<longrightarrow> entry_in n m insts e" and len: "length insts = n"
    using h by (auto simp: history_ok_def)
  have "attrs_in n m insts 1 (replicate n (- 1))" by (simp add: attrs_in_def)
  from raise_in [OF cf m this] obtain q ds where q: "raise_attrs n cf cmds (1, replicate n (- 1)) = Some (q, ds)"
    and a: "attrs_in n m insts q ds" by blast
  let ?x = "undefined :: instance_rec"
  have "\<forall>k e. cf k = Some e \<longrightarrow> entry_in n (Suc m) (push_at i ?x insts) e"
    using cf entry_in_push i len by blast
  from record_in [OF this, of i "int (length (insts ! i))" q cmds] obtain cf'
    where cf': "record_conflicts n i (int (length (insts ! i))) q cmds cf = Some cf'"
      "\<forall>k e. cf' k = Some e \<longrightarrow> entry_in n (Suc m) (push_at i ?x insts) e"
    using a i len by (auto simp: attrs_in_def)
  have "length (push_at i x insts ! j) = length (push_at i ?x insts ! j)" for x j
    using i len by (cases "j = i") simp_all
  then have "entry_in n (Suc m) (push_at i x insts) e = entry_in n (Suc m) (push_at i ?x insts) e" for x e
    by (intro entry_in_cong) simp_all
  moreover have "cap_self i (int (length (insts ! i))) ds = Some ds"
    using a i by (auto simp: cap_self_def attrs_in_def)
  moreover have "raise_attrs n cf cmds (q, ds) = Some (q, ds)"
    using raise_fixed [OF cf m] raise_attrs_spec [OF q] a by (simp add: attrs_in_def)
  ultimately show thesis using that q a cf' by blast
qed


text \<open>The replica while a proposal of replica \<open>i\<close> runs: instance \<open>x\<close> is new and not yet executed.\<close>

definition extended :: "nat \<Rightarrow> instance_rec list list \<Rightarrow> conflict_map \<Rightarrow> (string \<Rightarrow> string option) \<Rightarrow> nat \<Rightarrow> nat \<Rightarrow> instance_rec \<Rightarrow> replica_inner" where
  "extended n insts cf kv j i x = \<lparr>r_id = j, r_n = n, r_cur_slot = int (length (push_at i x insts ! j)),
     r_instances = push_at i x insts, r_executed = push_at i False (map (map (\<lambda>_. True)) insts), r_conflicts = cf, r_store = kv\<rparr>"

definition proposed :: "command list \<Rightarrow> i32 \<Rightarrow> i32 list \<Rightarrow> i32 \<Rightarrow> instance_rec" where
  "proposed cmds q ds status = \<lparr>i_cmds = cmds, i_seq = q, i_deps = ds, i_status = status, i_ballot = 0\<rparr>"

lemma settled_ensure:
  assumes "length insts = n" "i < n"
  shows "ensure_slot i (int (length (insts ! i))) (settled n insts cf kv j)
    = Some ((settled n insts cf kv j)\<lparr>r_instances := push_at i (instance_new n) insts, r_executed := push_at i False (map (map (\<lambda>_. True)) insts)\<rparr>)"
  using assms by (simp add: ensure_slot_def settled_def Let_def push_at_def)

lemma extended_ensure:
  assumes "length insts = n" "i < n"
  shows "ensure_slot i (int (length (insts ! i))) (extended n insts cf kv j i x) = Some (extended n insts cf kv j i x)"
  using assms by (simp add: ensure_slot_def extended_def Let_def push_at_def)

lemma settled_pre_accept:
  assumes h: "length insts = n" "i < n" "n < 2 ^ 31" "j \<noteq> i"
    and a: "raise_attrs n cf cmds (q, ds) = Some (q, ds)" "cap_self i (int (length (insts ! i))) ds = Some ds" "length ds = n"
      "record_conflicts n i (int (length (insts ! i))) q cmds cf = Some cf'"
    and req: "req = \<lparr>pa_leader_id = as_i32 i, pa_replica = as_i32 i, pa_slot = int (length (insts ! i)), pa_ballot = 0, pa_seq = q,
      pa_deps = ds, pa_cmds = cmds\<rparr>"
  shows "\<exists>reply. handle_pre_accept_inner req (settled n insts cf kv j) = Some (reply, extended n insts cf' kv j i (proposed cmds q ds PREACCEPTED))
    \<and> par_status reply = PREACCEPTED_EQ"
proof -
  have [simp]: "resize n ds = ds" using a(3) by (simp add: resize_def)
  have "r_conflicts (settled n insts cf kv j) = cf" "r_n (settled n insts cf kv j) = n" by (simp_all add: settled_def)
  then show ?thesis
    using h a unfolding handle_pre_accept_inner_def req
    by (simp add: settled_ensure Let_def) (simp add: set_instance_def settled_def extended_def push_at_def proposed_def instance_new_def)
qed

lemma settled_start:
  assumes h: "length insts = n" "i < n" "int (length (insts ! i)) + 1 < 2 ^ 31"
    and a: "raise_attrs n cf cmds (1, replicate n (- 1)) = Some (q, ds)" "cap_self i (int (length (insts ! i))) ds = Some ds"
      "record_conflicts n i (int (length (insts ! i))) q cmds cf = Some cf'"
  shows "propose_start cmds (settled n insts cf kv i) =
    Some (\<lparr>pa_leader_id = as_i32 i, pa_replica = as_i32 i, pa_slot = int (length (insts ! i)), pa_ballot = 0, pa_seq = q,
      pa_deps = ds, pa_cmds = cmds\<rparr>,
      (settled n insts cf kv i)\<lparr>r_cur_slot := int (length (insts ! i)) + 1, r_conflicts := cf'\<rparr>)"
  using assms by (simp add: propose_start_def start_proposal_def settled_def Let_def checked_i32_def in_i32_def)


text \<open>The executor runs the new instance, and nothing else.\<close>

context graph_library
begin

lemma extended_execute:
  assumes h: "history_ok n m insts cf" "m < 2 ^ 31 - 1" and i: "i < n"
    and x: "x = proposed cmds q ds COMMITTED" "length ds = n" "\<forall>r < n. ds ! r < int (length (insts ! r))"
  shows "execute_all_ready iter scc (extended n insts cf' kv j i x) = Some (settled n (push_at i x insts) cf' (apply_cmds cmds kv) j)"
proof -
  define st where "st = extended n insts cf' kv j i x"
  let ?s = "int (length (insts ! i))" and ?k = "(i, int (length (insts ! i)))"
  have len: "length insts = n" and old: "\<And>j. j < n \<Longrightarrow> length (insts ! j) \<le> m"
    "\<And>j x. j < n \<Longrightarrow> x \<in> set (insts ! j) \<Longrightarrow> i_status x = COMMITTED \<and> length (i_deps x) = n"
    using h by (auto simp: history_ok_def)
  have t: "tables_ok st"
    using len old i x h(2) unfolding tables_ok_def st_def
    by (fastforce simp: extended_def push_at_def nth_list_update list_all_iff inst_ok_def proposed_def)
  have ex: "executed_at st k \<longleftrightarrow> fst k < n \<and> 0 \<le> snd k \<and> snd k < int (length (insts ! fst k))" for k
    using len i by (auto simp: executed_at_def st_def extended_def push_at_def lookup_def nth_list_update nth_append)
  have at_k: "instance_at st ?k = Some x"
    using len i by (simp add: instance_at_def st_def extended_def push_at_def lookup_def)
  have com: "committed_at st k \<longleftrightarrow> executed_at st k \<or> k = ?k" for k
  proof (cases "executed_at st k \<or> k = ?k")
    case True
    then show ?thesis using at_k x(1) ex len i old(2)
      by (auto simp: committed_at_def instance_at_def st_def extended_def push_at_def lookup_def nth_list_update nth_append proposed_def)
  next
    case False
    then show ?thesis using ex len i
      by (cases k) (auto simp: committed_at_def instance_at_def st_def extended_def push_at_def lookup_def nth_list_update split: if_splits)
  qed
  have not_ex: "\<not> executed_at st ?k" by (simp add: ex)
  have n_st: "r_n st = n" by (simp add: st_def extended_def)
  have "executed_at st b" if "needs st ?k b" for b
    using that at_k x ex by (auto simp: needs_def dep_keys_def proposed_def n_st)
  moreover have "\<not> needs st a b" if "executed_at st a" for a b using that by (simp add: needs_def)
  ultimately have step: "executed_at st c \<or> c = ?k" if "executed_at st b \<or> b = ?k" "needs st b c" for b c
    using that by blast
  have "executed_at st b \<or> b = ?k" if "(needs st)\<^sup>*\<^sup>* ?k b" for b
    using that by (induction rule: rtranclp_induct) (use step in blast)+
  then have ready: "ready_keys st = {?k}"
    unfolding ready_keys_def waits_def runnable_def com using not_ex by blast
  obtain order where plan: "execute_plan iter scc st = Some order" "distinct order" "set order = {?k}"
    by (rule execute_plan_order [OF t params [OF t]]) (rule that, simp_all only: ready)
  then have "order = [?k]" by (cases order; cases "tl order") auto
  moreover have "as_usize ?s = length (insts ! i)" using old(1) [OF i] h(2) by (simp add: as_usize_def)
  ultimately have "execute_all_ready iter scc st = Some (settled n (push_at i x insts) cf' (apply_cmds cmds kv) j)"
    using plan(1) len i x(1)
    by (simp add: execute_all_ready_def exec_one_def Let_def lookup_def st_def extended_def push_at_def settled_def proposed_def map_update nth_append list_update_append)
  then show ?thesis by (simp add: st_def)
qed

end

section \<open>One round with every peer\<close>

lemma fan_out_all:
  assumes "distinct js" "set js \<subseteq> {0..<length rs}" "\<And>j. j \<in> set js \<Longrightarrow> h j (rs ! j) = Some (reply j, st j)"
  shows "fan_out h js rs = Some (map (\<lambda>j. (j, reply j)) js, map (\<lambda>j. if j \<in> set js then st j else rs ! j) [0..<length rs])"
  using assms
proof (induction js arbitrary: rs)
  case Nil
  then show ?case by (simp add: map_nth)
next
  case (Cons j js)
  have "fan_out h js (rs[j := st j]) = Some (map (\<lambda>j. (j, reply j)) js,
      map (\<lambda>k. if k \<in> set js then st k else rs[j := st j] ! k) [0..<length rs])"
  proof (subst Cons.IH)
    show "h ja (rs[j := st j] ! ja) = Some (reply ja, st ja)" if "ja \<in> set js" for ja
      using that Cons.prems by (metis distinct.simps(2) list.set_intros(2) nth_list_update_neq)
  qed (use Cons.prems in auto)
  with Cons.prems show ?case by (auto simp: nth_list_update)
qed

lemma all_equal_decides:
  assumes "list_all (\<lambda>r. par_status r = PREACCEPTED_EQ) (acc @ vs)" "length (acc @ vs) = config_size peers" "vs \<noteq> []"
  shows "\<exists>v. decide (pre_accept_quorum req peers) c acc vs = (Some v, (pa_seq req, pa_deps req, True))"
  using assms
proof (induction vs arbitrary: c acc)
  case (Cons v vs)
  obtain sq ds e where merged: "merge_replies (pa_seq req, pa_deps req, True) (acc @ [v]) = (sq, ds, e)"
    by (cases "merge_replies (pa_seq req, pa_deps req, True) (acc @ [v])")
  have e using merged [unfolded merge_replies_eq] Cons.prems(1) by simp
  show ?case
  proof (cases "vs = []")
    case True
    with Cons.prems(2) \<open>e\<close> show ?thesis by (simp add: pre_accept_quorum_def merged total_replicas_def)
  next
    case False
    then have "\<not> config_size peers \<le> Suc (length acc)" using Cons.prems(2) by (cases vs) auto
    then have "pre_accept_quorum req peers c (acc @ [v]) = (None, c)"
      using \<open>e\<close> by (auto simp: pre_accept_quorum_def merged total_replicas_def Let_def)
    with Cons.IH [of "acc @ [v]" c] Cons.prems False show ?thesis by simp
  qed
qed simp

lemma oks_arrivals:
  "oks (map (\<lambda>(j, r). \<lparr>nr_node_id = node_id_of j, nr_result = Inr r\<rparr>) replies) = map snd replies"
  by (induction replies) auto

lemma all_equal_fast:
  assumes "list_all (\<lambda>(j, r). par_status r = PREACCEPTED_EQ) replies" "length replies = config_size peers" "replies \<noteq> []"
  shows "propose_pre_accept req peers h (arrivals replies) = Finished (Inr (pa_seq req, pa_deps req, True))"
proof -
  have "list_all quiet (arrivals replies)" by (auto simp: arrivals_def list_all_iff)
  moreover obtain v where "decide (pre_accept_quorum req peers) (pa_seq req, pa_deps req, True) [] (map snd replies)
      = (Some v, (pa_seq req, pa_deps req, True))"
    using all_equal_decides [of "[]" "map snd replies" peers req "(pa_seq req, pa_deps req, True)"] assms by (auto simp: list_all_iff split_beta)
  ultimately show ?thesis
    by (simp add: propose_pre_accept_def quorum_def quorum_select.loop_quiet_only feed_quorum oks_arrivals)
qed


section \<open>One proposal\<close>

lemma history_push:
  assumes h: "history_ok n m insts cf" and i: "i < n" and ds: "length ds = n"
    and cf': "\<And>x k e. cf' k = Some e \<Longrightarrow> entry_in n (Suc m) (push_at i x insts) e"
  shows "history_ok n (Suc m) (push_at i (proposed cmds q ds COMMITTED) insts) cf'"
  using h i ds cf' by (auto simp: history_ok_def push_at_def nth_list_update proposed_def le_SucI)

lemma extended_commit:
  assumes "length insts = n" "i < n"
  shows "commit_instance i (int (length (insts ! i))) cmds q ds (extended n insts cf kv j i (proposed cmds' q' ds' s))
    = extended n insts cf kv j i (proposed cmds q ds COMMITTED)"
  using assms by (cases "j = i") (simp_all add: commit_instance_def set_instance_def extended_def proposed_def push_at_def)

lemma settled_commit:
  assumes lib: "library_ok iter scc" and h: "history_ok n m insts cf" "m < 2 ^ 31 - 1" and i: "i < n" and n: "n < 2 ^ 31"
    and ds: "length ds = n" "\<forall>r < n. ds ! r < int (length (insts ! r))"
  shows "commit_local iter scc i (int (length (insts ! i))) cmds q ds
      ((settled n insts cf kv i)\<lparr>r_cur_slot := int (length (insts ! i)) + 1, r_conflicts := cf'\<rparr>)
    = Some (settled n (push_at i (proposed cmds q ds COMMITTED) insts) cf' (apply_cmds cmds kv) i)" (is ?leader)
    and "handle_commit_inner iter scc \<lparr>cm_leader_id = l, cm_replica = as_i32 i, cm_slot = int (length (insts ! i)), cm_cmds = cmds,
        cm_seq = q, cm_deps = ds\<rparr> (extended n insts cf' kv j i (proposed cmds q ds PREACCEPTED))
    = Some (settled n (push_at i (proposed cmds q ds COMMITTED) insts) cf' (apply_cmds cmds kv) j)" (is ?peer)
proof -
  have g: "graph_library iter scc" by (rule graph_library.intro [OF lib])
  have len: "length insts = n" using h by (simp add: history_ok_def)
  note run = graph_library.extended_execute [OF g h i refl ds]
  have "ensure_slot i (int (length (insts ! i))) ((settled n insts cf kv i)\<lparr>r_cur_slot := int (length (insts ! i)) + 1, r_conflicts := cf'\<rparr>)
      = Some (extended n insts cf' kv i i (proposed [] 0 (replicate n (- 1)) NONE))"
    using len i by (simp add: ensure_slot_def settled_def extended_def push_at_def Let_def proposed_def instance_new_def)
  moreover have "r_instances (extended n insts cf' kv j i x) ! i ! length (insts ! i) = x" for j x
    using len i by (simp add: extended_def)
  moreover have "i_status (proposed cmds q ds s) = s" for cmds q ds s by (simp add: proposed_def)
  ultimately show ?leader ?peer
    using len i n run by (simp_all add: commit_local_def handle_commit_inner_def Let_def extended_ensure extended_commit status_defs)
qed

lemma one_proposal:
  assumes lib: "\<And>j. j < n \<Longrightarrow> library_ok (iter j) scc" and g: "group_config cfg" "config_size cfg = n" "2 \<le> n"
    and h: "history_ok n m insts cf" "Suc m < 2 ^ 31" and i: "i < n"
    and order: "distinct order" "set order = {0..<n} - {i}"
  obtains info insts' cf' where
    "run_propose iter scc order i cmds (peers_of cfg i) False (map (settled n insts cf kv) [0..<n])
       = Some (info, map (settled n insts' cf' (apply_cmds cmds kv)) [0..<n])"
    "inf_fast_path info" "inf_replica info = i" "history_ok n (Suc m) insts' cf'"
    "insts' = push_at i (proposed cmds (inf_seq info) (inf_deps info) COMMITTED) insts"
proof -
  let ?s = "int (length (insts ! i))" and ?rs = "map (settled n insts cf kv) [0..<n]"
  have n: "n < 2 ^ 31" using g by (simp add: group_config_def)
  have len: "length insts = n" "length (insts ! i) \<le> m" using h i by (auto simp: history_ok_def)
  obtain q ds cf' where q: "raise_attrs n cf cmds (1, replicate n (- 1)) = Some (q, ds)"
    and cf: "record_conflicts n i ?s q cmds cf = Some cf'" and cap: "cap_self i ?s ds = Some ds"
    and a: "attrs_in n m insts q ds" and fixed: "raise_attrs n cf cmds (q, ds) = Some (q, ds)"
    and cf': "\<And>x k e. cf' k = Some e \<Longrightarrow> entry_in n (Suc m) (push_at i x insts) e"
    by (rule leader_attrs [OF h i]) blast
  define req where "req = \<lparr>pa_leader_id = as_i32 i, pa_replica = as_i32 i, pa_slot = ?s, pa_ballot = 0, pa_seq = q,
      pa_deps = ds, pa_cmds = cmds\<rparr>"
  define lead where "lead = (settled n insts cf kv i)\<lparr>r_cur_slot := ?s + 1, r_conflicts := cf'\<rparr>"
  define insts' where "insts' = push_at i (proposed cmds q ds COMMITTED) insts"
  have start: "propose_start cmds (?rs ! i) = Some (req, lead)"
    using settled_start [OF len(1) i _ q cap cf] len(2) h(2) i by (simp add: req_def lead_def)
  have "\<forall>j. j \<noteq> i \<longrightarrow> (\<exists>reply. handle_pre_accept_inner req (settled n insts cf kv j) =
      Some (reply, extended n insts cf' kv j i (proposed cmds q ds PREACCEPTED)) \<and> par_status reply = PREACCEPTED_EQ)"
    using settled_pre_accept [OF len(1) i n _ fixed cap _ cf req_def] a by (simp add: attrs_in_def)
  then obtain reply where reply: "\<And>j. j \<noteq> i \<Longrightarrow> handle_pre_accept_inner req (settled n insts cf kv j) =
      Some (reply j, extended n insts cf' kv j i (proposed cmds q ds PREACCEPTED)) \<and> par_status (reply j) = PREACCEPTED_EQ"
    by metis
  let ?rs1 = "map (\<lambda>j. if j = i then lead else extended n insts cf' kv j i (proposed cmds q ds PREACCEPTED)) [0..<n]"
  let ?replies = "map (\<lambda>j. (j, reply j)) order"
  have pre: "fan_out (\<lambda>_. handle_pre_accept_inner req) order (?rs[i := lead]) = Some (?replies, ?rs1)"
  proof (subst fan_out_all [OF order(1)])
    show "handle_pre_accept_inner req (?rs[i := lead] ! j) = Some (reply j, extended n insts cf' kv j i (proposed cmds q ds PREACCEPTED))"
      if "j \<in> set order" for j using that order(2) reply [of j] by simp
  qed (use order i in auto)
  have "length order = n - 1"
    using distinct_card [OF order(1)] order(2) i by simp
  moreover from this have "order \<noteq> []" using g(3) by auto
  ultimately have dec: "propose_pre_accept req (peers_of cfg i) (call_of (peers_of cfg i)) (arrivals ?replies) = Finished (Inr (q, ds, True))"
    using all_equal_fast [of ?replies "peers_of cfg i" req] order reply g peers_size [OF g(1)] i
    by (auto simp: list_all_iff req_def)
  have dsn: "length ds = n" "\<forall>r < n. ds ! r < int (length (insts ! r))" using a by (auto simp: attrs_in_def)
  have m: "m < 2 ^ 31 - 1" using h(2) by simp
  note com = settled_commit [OF lib h(1) m i n dsn]
  have commit: "propose_commit (iter i) scc req (q, ds, True) (?rs1 ! i) = Some (propose_commit_request req (q, ds, True),
      \<lparr>inf_replica = i, inf_slot = ?s, inf_seq = q, inf_deps = ds, inf_fast_path = True\<rparr>, settled n insts' cf' (apply_cmds cmds kv) i)"
    using com(1) [OF i] i n by (simp add: propose_commit_def req_def lead_def insts'_def)
  have peers: "indices (commit_peers False (peers_of cfg i)) = filter (\<lambda>j. j \<noteq> i) [0..<n]"
    using indices_peers [OF g(1)] g(2) i by (simp add: commit_peers_def)
  have learn: "fan_out (\<lambda>j st. map_option (Pair ()) (handle_commit_inner (iter j) scc (propose_commit_request req (q, ds, True)) st))
      (filter (\<lambda>j. j \<noteq> i) [0..<n]) (?rs1[i := settled n insts' cf' (apply_cmds cmds kv) i])
    = Some (map (\<lambda>j. (j, ())) (filter (\<lambda>j. j \<noteq> i) [0..<n]), map (settled n insts' cf' (apply_cmds cmds kv)) [0..<n])"
  proof (subst fan_out_all)
    show "map_option (Pair ()) (handle_commit_inner (iter j) scc (propose_commit_request req (q, ds, True))
        (?rs1[i := settled n insts' cf' (apply_cmds cmds kv) i] ! j)) = Some ((), settled n insts' cf' (apply_cmds cmds kv) j)"
      if "j \<in> set (filter (\<lambda>j. j \<noteq> i) [0..<n])" for j
      using that com(2) [of j] by (simp add: propose_commit_request_def req_def insts'_def)
  qed (use i in \<open>auto intro!: nth_equalityI\<close>)
  have "run_propose iter scc order i cmds (peers_of cfg i) False ?rs = Some (\<lparr>inf_replica = i, inf_slot = ?s, inf_seq = q, inf_deps = ds,
      inf_fast_path = True\<rparr>, map (settled n insts' cf' (apply_cmds cmds kv)) [0..<n])"
    unfolding run_propose_def start by (simp add: pre dec run_accept_def propose_accept_request_def commit peers learn)
  then show thesis
    using history_push [OF h(1) i dsn(1) cf'] by (intro that) (auto simp: insts'_def)
qed


section \<open>Any number of proposals\<close>

lemma fresh_settled: "settled n (replicate n []) Map.empty Map.empty j = replica_inner_new j n" if "j < n"
  using that by (simp add: settled_def replica_inner_new_def)

lemma settled_ok:
  assumes "history_ok n m insts cf" "m < 2 ^ 31" "j < n"
  shows "replica_ok (settled n insts cf kv j)"
  using assms
  by (fastforce simp: replica_ok_def tables_ok_def entries_ok_def history_ok_def entry_in_def settled_def list_all_iff inst_ok_def)

lemma fresh_history: "history_ok n 0 (replicate n []) Map.empty"
  by (simp add: history_ok_def)

text \<open>A peer order: every other replica once.\<close>

definition peer_order :: "nat \<Rightarrow> nat \<Rightarrow> nat list \<Rightarrow> bool" where
  "peer_order n i order \<longleftrightarrow> distinct order \<and> set order = {0..<n} - {i}"

lemma proposals_from:
  assumes lib: "\<And>j. j < n \<Longrightarrow> library_ok (iter j) scc" and g: "group_config cfg" "config_size cfg = n" "2 \<le> n"
  shows "history_ok n m insts cf \<Longrightarrow> m + length ps < 2 ^ 31 \<Longrightarrow> \<forall>(i, order, cmds) \<in> set ps. i < n \<and> peer_order n i order \<Longrightarrow>
    \<exists>infos insts' cf'. run_proposals iter scc ps (map (peers_of cfg) [0..<n]) (map (settled n insts cf kv) [0..<n])
        = Some (infos, map (settled n insts' cf' (fold (\<lambda>(i, order, cmds). apply_cmds cmds) ps kv)) [0..<n])
      \<and> list_all inf_fast_path infos \<and> map inf_replica infos = map fst ps \<and> history_ok n (m + length ps) insts' cf'"
proof (induction ps arbitrary: m insts cf kv)
  case (Cons p ps)
  obtain i order cmds where p: "p = (i, order, cmds)" by (cases p)
  have i: "i < n" "distinct order" "set order = {0..<n} - {i}" using Cons.prems(3) by (auto simp: p peer_order_def)
  have m: "Suc m < 2 ^ 31" using Cons.prems(2) by simp
  obtain info insts1 cf1 where one: "run_propose iter scc order i cmds (peers_of cfg i) False (map (settled n insts cf kv) [0..<n])
       = Some (info, map (settled n insts1 cf1 (apply_cmds cmds kv)) [0..<n])"
    and info: "inf_fast_path info" "inf_replica info = i" and h1: "history_ok n (Suc m) insts1 cf1"
    by (rule one_proposal [where iter = iter and scc = scc and cmds = cmds and kv = kv, OF _ g Cons.prems(1) m i]) (use lib in auto)
  have "Suc m + length ps < 2 ^ 31" "\<forall>(i, order, cmds) \<in> set ps. i < n \<and> peer_order n i order"
    using Cons.prems by auto
  from Cons.IH [where kv = "apply_cmds cmds kv", OF h1 this] obtain infos insts' cf' where
    "run_proposals iter scc ps (map (peers_of cfg) [0..<n]) (map (settled n insts1 cf1 (apply_cmds cmds kv)) [0..<n])
      = Some (infos, map (settled n insts' cf' (fold (\<lambda>(i, order, cmds). apply_cmds cmds) ps (apply_cmds cmds kv))) [0..<n])"
    "list_all inf_fast_path infos" "map inf_replica infos = map fst ps" "history_ok n (Suc m + length ps) insts' cf'"
    by blast
  with one info show ?case
    using i(1) by (intro exI [of _ "info # infos"] exI [of _ insts'] exI [of _ cf']) (simp add: p)
qed auto


section \<open>Properties\<close>

text \<open>
  C21. Proposals made one after the other, by any leaders, all commit on the fast path and are executed
  in the order in which they were made, at every replica: whatever order the peers answer in, each call
  returns, and at the end every replica has executed every instance and its store is that of running the
  batches one after the other on an empty store.
\<close>

theorem sequential_proposals:
  assumes "group_config cfg" and "config_size cfg = n" and "2 \<le> n" and "length ps < 2 ^ 31"
    and "\<forall>j < n. library_ok (iter j) scc"
    and "\<forall>(i, order, cmds) \<in> set ps. i < n \<and> peer_order n i order"
  shows "\<exists>infos rs. run_proposals iter scc ps (map (peers_of cfg) [0..<n]) (map (c_replicas (cluster_init cfg)) [0..<n]) = Some (infos, rs)
    \<and> map inf_replica infos = map fst ps \<and> list_all inf_fast_path infos \<and> length rs = n
    \<and> (\<forall>st \<in> set rs. r_store st = fold (\<lambda>(i, order, cmds). apply_cmds cmds) ps Map.empty
         \<and> r_instances st = r_instances (rs ! 0) \<and> r_executed st = map (map (\<lambda>_. True)) (r_instances st))"
proof -
  have init: "map (c_replicas (cluster_init cfg)) [0..<n] = map (settled n (replicate n []) Map.empty Map.empty) [0..<n]"
    using assms(2) by (simp add: cluster_init_def fresh_settled)
  have "0 + length ps < 2 ^ 31" using assms(4) by simp
  from proposals_from [where iter = iter and scc = scc and kv = Map.empty, OF _ assms(1-3) fresh_history this assms(6)] assms(3,5)
  show ?thesis unfolding init by (fastforce simp: settled_def)
qed


theorem sequential_proposals_witness:
  "\<exists>infos rs. run_proposals (\<lambda>_. key_iter) scc_ref [(0, [1], [put ''a'' ''1'']), (1, [0], [put ''a'' ''2''])]
      (map (peers_of demo_group) [0..<2]) (map (c_replicas (cluster_init demo_group)) [0..<2]) = Some (infos, rs)
    \<and> list_all inf_fast_path infos \<and> length rs = 2 \<and> (\<forall>st \<in> set rs. r_store st ''a'' = Some ''2'')"
proof -
  let ?ps = "[(0, [1], [put ''a'' ''1'']), (1, [0], [put ''a'' ''2''])] :: (nat \<times> nat list \<times> command list) list"
  have "\<forall>(i, order, cmds) \<in> set ?ps. i < 2 \<and> peer_order 2 i order"
    by (auto simp: peer_order_def)
  then show ?thesis
    using sequential_proposals [of demo_group 2 ?ps "\<lambda>_. key_iter" scc_ref, OF demo_group_ok] reference_library
    by (fastforce simp: put_def)
qed

text \<open>
  C24. What \<^verbatim>\<open>main\<close> of \<^verbatim>\<open>examples/epaxos/main.rs\<close> prints. If the three addresses parse to distinct socket
  addresses, so that \<^verbatim>\<open>setup\<close> succeeds, then whatever order the peers answer in the three proposals are
  committed on the fast path and the stores of all three replicas hold the three pairs and nothing else.
\<close>

theorem main_stores:
  assumes "map sock [local_addr 19020, local_addr 19021, local_addr 19022] = map Some norms" and "distinct norms"
    and "\<forall>j < 3. library_ok (iter j) scc" and "\<forall>p < 3. peer_order 3 0 (orders p)"
  shows "\<exists>infos. epaxos_main sock iter scc orders = Some (infos, replicate 3 (map_of main_commands))
    \<and> length infos = 3 \<and> list_all inf_fast_path infos"
proof -
  let ?ps = "map (\<lambda>(p, key, val). (0 :: nat, orders p, [put key val])) (enumerate 0 main_commands)"
  have "map sock (map (\<lambda>i. local_addr (19020 + of_nat i)) [0..<3]) = map Some norms"
    using assms(1) by (simp add: upt_rec)
  then have "setup_cluster sock 3 19020 \<noteq> (None :: (replica_inner list \<times> unit mstate \<times> configuration \<times> configuration list) option)"
    by (intro setup_returns [OF _ _ assms(2)]) simp_all
  then obtain replicas and mgr :: "unit mstate" and cfg peers_cfgs where run: "setup_cluster sock 3 19020 = Some (replicas, mgr, cfg, peers_cfgs)"
    by auto
  note parts = setup_parts [OF this]
  have ps: "0 + length ?ps < 2 ^ 31" "\<forall>(i, order, cmds) \<in> set ?ps. i < 3 \<and> peer_order 3 i order"
    using assms(4) by (simp_all add: main_commands_def)
  have lib: "library_ok (iter j) scc" if "j < 3" for j using that assms(3) by simp
  have init: "replicas = map (settled 3 (replicate 3 []) Map.empty Map.empty) [0..<3]"
    unfolding parts(3) using parts(2) by (simp add: cluster_init_def fresh_settled)
  have "\<exists>infos insts' cf'. run_proposals iter scc ?ps (map (peers_of cfg) [0..<3]) (map (settled 3 (replicate 3 []) Map.empty Map.empty) [0..<3])
      = Some (infos, map (settled 3 insts' cf' (fold (\<lambda>(i, order, cmds). apply_cmds cmds) ?ps Map.empty)) [0..<3])
      \<and> list_all inf_fast_path infos \<and> map inf_replica infos = map fst ?ps \<and> history_ok 3 (0 + length ?ps) insts' cf'"
    by (rule proposals_from [where iter = iter and scc = scc, OF _ parts(1,2) _ fresh_history ps]) (use lib in auto)
  then obtain infos insts cf where
    "run_proposals iter scc ?ps peers_cfgs replicas =
      Some (infos, map (settled 3 insts cf (fold (\<lambda>(i, order, cmds). apply_cmds cmds) ?ps Map.empty)) [0..<3])"
    "list_all inf_fast_path infos" "map inf_replica infos = map fst ?ps"
    unfolding parts(4) init by blast
  moreover from arg_cong [OF this(3), of length] have "length infos = 3" by (simp add: main_commands_def)
  moreover have "fold (\<lambda>(i, order, cmds). apply_cmds cmds) ?ps Map.empty = map_of main_commands"
    by (auto simp: main_commands_def put_def fun_eq_iff)
  ultimately show ?thesis
    by (simp add: epaxos_main_def run settled_def comp_def map_replicate_const)
qed

theorem main_stores_witness:
  "\<exists>infos. epaxos_main Some (\<lambda>_. key_iter) scc_ref (\<lambda>_. [2, 1]) = Some (infos, replicate 3 (map_of main_commands))
    \<and> length infos = 3 \<and> list_all inf_fast_path infos"
proof (rule main_stores)
  let ?norms = "[''127.0.0.1:19020'', ''127.0.0.1:19021'', ''127.0.0.1:19022'']"
  show "map Some [local_addr 19020, local_addr 19021, local_addr 19022] = map Some ?norms" "distinct ?norms"
    by (simp_all add: local_addr_def show_nat.simps char_of_def bit_numeral_rec bit_0)
qed (auto simp: peer_order_def reference_library)

text \<open>
  A proposal run from start to end, with any of the peers answering in any order, is a run of the
  steps of the group: from a reachable group it leads to a reachable group, so the agreement of the
  replicas on committed instances holds along it.
\<close>

theorem proposal_is_cluster_run:
  assumes "group_config cfg" and "reachable_cluster cfg c" and "view (config_size cfg) c rs"
    and "i < config_size cfg" and "distinct order" and "i \<notin> set order"
    and "run_propose iter scc order i cmds (peers_of cfg i) thrifty rs = Some (info, rs')"
  shows "\<exists>c'. reachable_cluster cfg c' \<and> (cluster_step cfg)\<^sup>*\<^sup>* c c' \<and> view (config_size cfg) c' rs'"
proof -
  have "wf_replicas (config_size cfg) c"
    using reachable_cluster_inv [OF assms(2,1)] by (simp add: cluster_inv_def assign_inv_def)
  then have "r_id (rs ! i) = i" using assms(3,4) by (simp add: wf_replicas_def view_def)
  from run_propose_steps [where lib = "\<lambda>_ _. True", OF assms(7,1,4) this assms(5,6,3)] assms(2) show ?thesis
    by (meson rtranclp_trans)
qed


theorem proposal_is_cluster_run_witness:
  "\<exists>info rs' c'. run_propose (\<lambda>_. key_iter) scc_ref [1] 0 [put ''a'' ''1''] (peers_of demo_group 0) False
      (map (c_replicas (cluster_init demo_group)) [0..<2]) = Some (info, rs')
    \<and> reachable_cluster demo_group c' \<and> view 2 c' rs'"
proof -
  let ?rs = "map (c_replicas (cluster_init demo_group)) [0..<2]"
  have init: "?rs = map (settled 2 (replicate 2 []) Map.empty Map.empty) [0..<2]"
    using demo_group_ok by (simp add: cluster_init_def fresh_settled)
  obtain info rs' where run: "run_propose (\<lambda>_. key_iter) scc_ref [1] 0 [put ''a'' ''1''] (peers_of demo_group 0) False ?rs = Some (info, rs')"
    unfolding init
    by (rule one_proposal [where n = 2 and order = "[1]" and i = 0 and iter = "\<lambda>_. key_iter" and scc = scc_ref, OF reference_library demo_group_ok _ fresh_history])
      auto
  have "view (config_size demo_group) (cluster_init demo_group) ?rs"
    using demo_group_ok by (auto simp: view_def)
  from proposal_is_cluster_run [OF demo_group_ok(1) rtranclp.rtrancl_refl this _ _ _ run] run demo_group_ok(2)
  show ?thesis by auto
qed

end
