(* ===== verification/Epaxos_Recovery.thy ===== *)
theory Epaxos_Recovery
  imports Epaxos_Sequential
begin

text \<open>
  \<^verbatim>\<open>recover\<close> of \<^verbatim>\<open>examples/epaxos/replica.rs\<close> in a group: what it does to an instance that some peer of the
  recoverer holds as committed, to one that the peers hold pre-accepted or accepted with one value, and
  what it does when the instance is still being proposed. Nothing is stated for pre-accepted replies
  that disagree: the code then uses the first of them where its documentation speaks of merged ones.
\<close>

section \<open>Committing what is already decided\<close>

lemma committed_nth:
  "committed_with st (r, slot) v \<longleftrightarrow> 0 \<le> slot \<and> r < length (r_instances st) \<and> nat slot < length (r_instances st ! r)
     \<and> i_status (r_instances st ! r ! nat slot) = COMMITTED
     \<and> v = (i_cmds (r_instances st ! r ! nat slot), i_seq (r_instances st ! r ! nat slot), i_deps (r_instances st ! r ! nat slot))"
  by (auto simp: committed_with_def instance_at_def lookup_def)

lemma commit_instance_sets:
  assumes "r < length (r_instances st)" "nat slot < length (r_instances st ! r)" "0 \<le> slot"
  shows "committed_with (commit_instance r slot cmds sq ds st) (r, slot) (cmds, sq, ds)"
  using assms by (simp add: committed_nth commit_instance_def set_instance_def)

lemma commit_agreed:
  assumes ok: "replica_ok st" and lib: "library_ok iter scc"
    and r: "on_table st rep slot" and ds: "r_n st \<le> length ds"
    and old: "\<And>v. committed_with st (as_usize rep, slot) v \<Longrightarrow> v = (cmds, sq, ds)"
  shows "\<exists>st'. commit_local iter scc (as_usize rep) slot cmds sq ds st = Some st' \<and> committed_with st' (as_usize rep, slot) (cmds, sq, ds)"
    and "\<exists>st'. handle_commit_inner iter scc \<lparr>cm_leader_id = l, cm_replica = rep, cm_slot = slot, cm_cmds = cmds, cm_seq = sq, cm_deps = ds\<rparr> st
        = Some st' \<and> committed_with st' (as_usize rep, slot) (cmds, sq, ds)"
proof -
  let ?r = "as_usize rep"
  obtain st1 where st1: "ensure_slot ?r slot st = Some st1" "replica_ok st1" "r_n st1 = r_n st"
    "nat slot < length (r_instances st1 ! ?r)" "?r < r_n st"
    using ensure_slot_ok [OF ok r] by blast
  have slot: "0 \<le> slot" using r by (simp add: on_table_def)
  have len: "?r < length (r_instances st1)" using st1(2,3,5) by (simp add: replica_ok_def tables_ok_def)
  let ?inst = "r_instances st1 ! ?r ! nat slot" and ?c = "commit_instance ?r slot cmds sq ds st1"
  have run: "\<exists>st'. execute_all_ready iter scc st = Some st'" if "replica_ok st" for st
  proof -
    have "params_ok iter scc st"
      using that by (intro graph_library.params graph_library.intro lib) (simp add: replica_ok_def)
    from execute_ok [OF that this] show ?thesis by blast
  qed
  have keep: "committed_with st' (?r, slot) (cmds, sq, ds)"
    if "execute_all_ready iter scc st = Some st'" "committed_with st (?r, slot) (cmds, sq, ds)" for st st'
    using that execute_committed by blast
  have c: "replica_ok ?c" "committed_with ?c (?r, slot) (cmds, sq, ds)"
    using commit_instance_ok [OF st1(2)] st1 ds commit_instance_sets [OF len st1(4) slot] by simp_all
  have le: "i_status ?inst \<le> COMMITTED"
    using st1 len by (auto simp: replica_ok_def tables_ok_def list_all_iff inst_ok_def)
  have done1: "committed_with st1 (?r, slot) (cmds, sq, ds)" if "\<not> i_status ?inst < COMMITTED"
  proof -
    have "committed_with st1 (?r, slot) (i_cmds ?inst, i_seq ?inst, i_deps ?inst)"
      using that le len st1(4) slot by (simp add: committed_nth)
    with old ensure_slot_committed [OF st1(1)] show ?thesis by fastforce
  qed
  show "\<exists>st'. commit_local iter scc ?r slot cmds sq ds st = Some st' \<and> committed_with st' (?r, slot) (cmds, sq, ds)"
    using st1 run [OF c(1)] run [OF st1(2)] keep c(2) done1 by (auto simp: commit_local_def)
  show "\<exists>st'. handle_commit_inner iter scc \<lparr>cm_leader_id = l, cm_replica = rep, cm_slot = slot, cm_cmds = cmds, cm_seq = sq, cm_deps = ds\<rparr> st
        = Some st' \<and> committed_with st' (?r, slot) (cmds, sq, ds)"
    using st1 run [OF c(1)] keep c(2) done1 by (auto simp: handle_commit_inner_def Let_def not_less)
qed

section \<open>The Prepare round\<close>

lemma prepare_decides:
  assumes "length (acc @ vs) = n" "vs \<noteq> []"
  shows "decide (prepare_quorum n) c acc vs = (Some (last vs), acc @ vs)"
  using assms
proof (induction vs arbitrary: c acc)
  case (Cons v vs)
  show ?case
  proof (cases "vs = []")
    case True
    with Cons.prems show ?thesis by (simp add: prepare_quorum_def last_reply_def)
  next
    case False
    then have "0 < length vs" by simp
    then have "prepare_quorum n c (acc @ [v]) = (None, c)"
      using Cons.prems(1) by (auto simp: prepare_quorum_def)
    with Cons.IH [of "acc @ [v]" c] Cons.prems(1) False show ?thesis by simp
  qed
qed simp

lemma prepare_all:
  assumes "length replies = n" "replies \<noteq> []"
  shows "recover_prepare n h (arrivals replies) = Finished (Inr (map snd replies))"
proof -
  have "list_all quiet (arrivals replies)" by (auto simp: arrivals_def list_all_iff)
  with prepare_decides [of "[]" "map snd replies" n "[]"] assms show ?thesis
    by (simp add: recover_prepare_def quorum_def quorum_select.loop_quiet_only feed_quorum oks_arrivals)
qed

text \<open>The Prepare round over the peers: the replies, in the order they come in.\<close>

lemma prepare_round:
  fixes r :: nat and slot :: i32
  assumes len: "length rs = n" and i: "i < n" "peer_order n i order" "1 < n"
  defines "replies \<equiv> map (\<lambda>l. (l, handle_prepare_inner (recover_start r slot (rs ! i)) (rs ! l))) order"
  shows "fan_out (\<lambda>_ st. Some (handle_prepare_inner (recover_start r slot (rs ! i)) st, st)) order rs = Some (replies, rs)"
    and "recover_prepare (n - 1) h (arrivals replies) = Finished (Inr (map snd replies))"
    and "length replies = n - 1" and "replies \<noteq> []"
proof -
  have order: "distinct order" "set order = {0..<n} - {i}" using i by (auto simp: peer_order_def)
  show "fan_out (\<lambda>_ st. Some (handle_prepare_inner (recover_start r slot (rs ! i)) st, st)) order rs = Some (replies, rs)"
    unfolding replies_def
    by (subst fan_out_all [where reply = "\<lambda>l. handle_prepare_inner (recover_start r slot (rs ! i)) (rs ! l)" and st = "\<lambda>l. rs ! l", OF order(1)])
      (use order(2) len map_nth [of rs] in simp_all)
  show l: "length replies = n - 1" using distinct_card [OF order(1)] order(2) i by (simp add: replies_def)
  then show "replies \<noteq> []" using i(3) by auto
  then show "recover_prepare (n - 1) h (arrivals replies) = Finished (Inr (map snd replies))"
    using l by (intro prepare_all)
qed

text \<open>A peer reports an instance as committed exactly when it holds it so, and with its value.\<close>

lemma prepare_reports:
  fixes l b :: i32 and st :: replica_inner
  assumes "r < 2 ^ 31" "0 \<le> slot" "slot < 2 ^ 31"
  defines "p \<equiv> handle_prepare_inner \<lparr>pr_leader_id = l, pr_replica = as_i32 r, pr_slot = slot, pr_ballot = b\<rparr> st"
  shows "prr_status p = COMMITTED \<longleftrightarrow> (\<exists>w. committed_with st (r, slot) w)"
    and "prr_status p = COMMITTED \<Longrightarrow> committed_with st (r, slot) (prr_cmds p, prr_seq p, prr_deps p)"
proof -
  have "as_usize slot = nat slot" using assms by (simp add: as_usize_def)
  with assms show "prr_status p = COMMITTED \<longleftrightarrow> (\<exists>w. committed_with st (r, slot) w)"
    "prr_status p = COMMITTED \<Longrightarrow> committed_with st (r, slot) (prr_cmds p, prr_seq p, prr_deps p)"
    by (auto simp: handle_prepare_inner_def Let_def committed_with_def instance_at_def status_defs split: option.splits)
qed

lemma analyze_committed:
  assumes "p \<in> set replies" "prr_status p = COMMITTED"
    and "\<And>p. p \<in> set replies \<Longrightarrow> prr_status p = COMMITTED \<Longrightarrow> (prr_cmds p, prr_seq p, prr_deps p) = (cmds, sq, ds)"
  shows "recover_analyze n replies = Some (Commit_Now cmds sq ds)"
proof -
  have "find (\<lambda>r. prr_status r = COMMITTED) replies \<noteq> None"
    using assms(1,2) by (auto simp: find_None_iff)
  then obtain q where q: "find (\<lambda>r. prr_status r = COMMITTED) replies = Some q" by blast
  with find_Some_iff' [OF q] assms(3) show ?thesis by (simp add: recover_analyze_def)
qed

lemma committed_in_table:
  assumes t: "tables_ok st" and com: "committed_with st (r, slot) (cmds, sq, ds)"
  shows "r < r_n st" and "0 \<le> slot" and "slot < 2 ^ 31 - 1" and "r_n st \<le> length ds"
proof -
  have at: "0 \<le> slot" "r < length (r_instances st)" "nat slot < length (r_instances st ! r)"
    and st: "i_status (r_instances st ! r ! nat slot) = COMMITTED" "ds = i_deps (r_instances st ! r ! nat slot)"
    using com by (auto simp: committed_nth)
  show "r < r_n st" "0 \<le> slot" using t at by (simp_all add: tables_ok_def)
  then have "length (r_instances st ! r) < 2 ^ 31" "inst_ok (r_n st) (r_instances st ! r ! nat slot)"
    using t at(3) by (auto simp: tables_ok_def list_all_iff)
  with at st show "slot < 2 ^ 31 - 1" "r_n st \<le> length ds" by (auto simp: inst_ok_def)
qed

text \<open>Recovery over replicas that hold the instance, if at all, with the same value.\<close>

lemma recover_finds_commit:
  assumes len: "length rs = n" "n < 2 ^ 31" and order: "peer_order n i order" "i < n" and at: "r < n" "0 \<le> slot" "slot < 2 ^ 31 - 1"
    and j: "j < n" "j \<noteq> i" "committed_with (rs ! j) (r, slot) (cmds, sq, ds)"
    and agree: "\<And>l w. l < n \<Longrightarrow> committed_with (rs ! l) (r, slot) w \<Longrightarrow> w = (cmds, sq, ds)"
  shows "recover_analyze n (map (\<lambda>l. handle_prepare_inner (recover_start r slot (rs ! i)) (rs ! l)) order) = Some (Commit_Now cmds sq ds)"
proof (rule analyze_committed)
  define prep where "prep = recover_start r slot (rs ! i)"
  have order: "set order = {0..<n} - {i}" using order by (auto simp: peer_order_def)
  have rep: "prr_status (handle_prepare_inner prep (rs ! l)) = COMMITTED \<longleftrightarrow> (\<exists>w. committed_with (rs ! l) (r, slot) w)"
    "prr_status (handle_prepare_inner prep (rs ! l)) = COMMITTED \<Longrightarrow> committed_with (rs ! l) (r, slot)
      (prr_cmds (handle_prepare_inner prep (rs ! l)), prr_seq (handle_prepare_inner prep (rs ! l)), prr_deps (handle_prepare_inner prep (rs ! l)))" for l
    using prepare_reports [of r slot] at len unfolding prep_def recover_start_def by auto
  let ?replies = "map (\<lambda>l. handle_prepare_inner (recover_start r slot (rs ! i)) (rs ! l)) order"
  show "handle_prepare_inner prep (rs ! j) \<in> set ?replies" using j order by (auto simp: prep_def)
  show "prr_status (handle_prepare_inner prep (rs ! j)) = COMMITTED" using rep(1) [of j] j(3) by blast
  fix p assume p: "p \<in> set ?replies" "prr_status p = COMMITTED"
  then obtain l where l: "l \<in> set order" "p = handle_prepare_inner prep (rs ! l)" by (auto simp: prep_def)
  then have "l < n" using order by simp
  then show "(prr_cmds p, prr_seq p, prr_deps p) = (cmds, sq, ds)" using rep(2) [of l] agree p(2) l(2) by blast
qed

lemma commits_agreed:
  assumes n: "n < 2 ^ 31" and ok: "replica_ok st" "r_n st = n" and lib: "library_ok iter scc"
    and at: "r < n" "0 \<le> slot" "slot < 2 ^ 31 - 1" "n \<le> length ds"
    and agree: "\<And>w. committed_with st (r, slot) w \<Longrightarrow> w = (cmds, sq, ds)"
  shows "\<exists>st'. commit_local iter scc r slot cmds sq ds st = Some st' \<and> committed_with st' (r, slot) (cmds, sq, ds)"
    and "\<exists>st'. handle_commit_inner iter scc \<lparr>cm_leader_id = l, cm_replica = as_i32 r, cm_slot = slot, cm_cmds = cmds, cm_seq = sq, cm_deps = ds\<rparr> st
        = Some st' \<and> committed_with st' (r, slot) (cmds, sq, ds)"
proof -
  have "as_usize (as_i32 r) = r" "on_table st (as_i32 r) slot" using at n ok by (simp_all add: on_table_def as_i32_def)
  with commit_agreed [of st iter scc "as_i32 r" slot ds cmds sq] ok lib at(4) agree
  show "\<exists>st'. commit_local iter scc r slot cmds sq ds st = Some st' \<and> committed_with st' (r, slot) (cmds, sq, ds)"
    "\<exists>st'. handle_commit_inner iter scc \<lparr>cm_leader_id = l, cm_replica = as_i32 r, cm_slot = slot, cm_cmds = cmds, cm_seq = sq, cm_deps = ds\<rparr> st
        = Some st' \<and> committed_with st' (r, slot) (cmds, sq, ds)"
    by auto
qed

text \<open>The last phase: every replica ends with the value committed, if those that hold one committed hold this one.\<close>

lemma recover_finish:
  assumes g: "group_config cfg" "config_size cfg = n" and len: "length rs = n"
    and ok: "\<forall>l < n. replica_ok (rs ! l) \<and> r_n (rs ! l) = n" and lib: "\<forall>l < n. library_ok (iter l) scc"
    and i: "i < n" and at: "r < n" "0 \<le> slot" "slot < 2 ^ 31 - 1" "n \<le> length ds"
    and agree: "\<forall>l < n. \<forall>w. committed_with (rs ! l) (r, slot) w \<longrightarrow> w = (cmds, sq, ds)"
  shows "\<exists>creq st' us rs'. recover_commit (iter i) scc r slot cmds sq ds fast (rs ! i)
      = Some (creq, \<lparr>inf_replica = r, inf_slot = slot, inf_seq = sq, inf_deps = ds, inf_fast_path = fast\<rparr>, st')
    \<and> fan_out (\<lambda>l st. map_option (Pair ()) (handle_commit_inner (iter l) scc creq st)) (indices (peers_of cfg i)) (rs[i := st']) = Some (us, rs')
    \<and> length rs' = n \<and> (\<forall>l < n. committed_with (rs' ! l) (r, slot) (cmds, sq, ds))"
proof -
  note ok = ok [rule_format] and lib = lib [rule_format] and agree = agree [rule_format]
  have n: "n < 2 ^ 31" using g by (simp add: group_config_def)
  have agreed: "\<exists>st'. commit_local (iter l) scc r slot cmds sq ds (rs ! l) = Some st' \<and> committed_with st' (r, slot) (cmds, sq, ds)"
    "\<exists>st'. handle_commit_inner (iter l) scc \<lparr>cm_leader_id = m, cm_replica = as_i32 r, cm_slot = slot, cm_cmds = cmds, cm_seq = sq, cm_deps = ds\<rparr> (rs ! l)
        = Some st' \<and> committed_with st' (r, slot) (cmds, sq, ds)" if "l < n" for l m
    using commits_agreed [of n "rs ! l" "iter l" scc r slot ds cmds sq] n ok lib at agree that by blast+
  obtain st' where lead: "commit_local (iter i) scc r slot cmds sq ds (rs ! i) = Some st'" "committed_with st' (r, slot) (cmds, sq, ds)"
    using agreed(1) [OF i(1)] by blast
  define creq where "creq = \<lparr>cm_leader_id = as_i32 (r_id (rs ! i)), cm_replica = as_i32 r, cm_slot = slot, cm_cmds = cmds, cm_seq = sq, cm_deps = ds\<rparr>"
  have "\<forall>l. l < n \<longrightarrow> (\<exists>st. handle_commit_inner (iter l) scc creq (rs ! l) = Some st \<and> committed_with st (r, slot) (cmds, sq, ds))"
    using agreed(2) unfolding creq_def by blast
  then obtain sts where sts: "\<And>l. l < n \<Longrightarrow> handle_commit_inner (iter l) scc creq (rs ! l) = Some (sts l) \<and> committed_with (sts l) (r, slot) (cmds, sq, ds)"
    by metis
  let ?js = "filter (\<lambda>l. l \<noteq> i) [0..<n]"
  let ?rs' = "map (\<lambda>l. if l \<in> set ?js then sts l else rs[i := st'] ! l) [0..<n]"
  have "fan_out (\<lambda>l st. map_option (Pair ()) (handle_commit_inner (iter l) scc creq st)) ?js (rs[i := st'])
      = Some (map (\<lambda>l. (l, ())) ?js, ?rs')"
    by (subst fan_out_all [where reply = "\<lambda>_. ()" and st = sts]) (use sts len in auto)
  moreover have "indices (peers_of cfg i) = ?js" using indices_peers [OF g(1)] g(2) i(1) by simp
  moreover have "recover_commit (iter i) scc r slot cmds sq ds fast (rs ! i)
      = Some (creq, \<lparr>inf_replica = r, inf_slot = slot, inf_seq = sq, inf_deps = ds, inf_fast_path = fast\<rparr>, st')"
    by (simp add: recover_commit_def lead(1) creq_def)
  moreover have "length ?rs' = n \<and> (\<forall>l < n. committed_with (?rs' ! l) (r, slot) (cmds, sq, ds))"
    using sts lead(2) i(1) len by auto
  ultimately show ?thesis by (simp only:) blast
qed

lemma recover_agreed:
  assumes g: "group_config cfg" "config_size cfg = n" and len: "length rs = n"
    and ok: "\<forall>l < n. replica_ok (rs ! l) \<and> r_n (rs ! l) = n" and lib: "\<forall>l < n. library_ok (iter l) scc"
    and i: "i < n" "peer_order n i order" and j: "j < n" "j \<noteq> i" "committed_with (rs ! j) (r, slot) (cmds, sq, ds)"
    and agree: "\<forall>l < n. \<forall>w. committed_with (rs ! l) (r, slot) w \<longrightarrow> w = (cmds, sq, ds)"
  shows "\<exists>rs'. run_recover iter scc order i r slot (peers_of cfg i) rs
      = Some (\<lparr>inf_replica = r, inf_slot = slot, inf_seq = sq, inf_deps = ds, inf_fast_path = False\<rparr>, rs')
    \<and> length rs' = n \<and> (\<forall>l < n. committed_with (rs' ! l) (r, slot) (cmds, sq, ds))"
proof -
  have n: "n < 2 ^ 31" "1 < n" using g i(1) j(1,2) by (auto simp: group_config_def)
  have "tables_ok (rs ! j)" "r_n (rs ! j) = n" using ok j(1) by (auto simp: replica_ok_def)
  with committed_in_table [OF _ j(3)] have at: "r < n" "0 \<le> slot" "slot < 2 ^ 31 - 1" "n \<le> length ds" by auto
  note round = prepare_round [OF len i n(2), where r = r and slot = slot]
  note choice = recover_finds_commit [OF len n(1) i(2,1) at(1-3) j agree [rule_format]]
  have peers: "config_size (peers_of cfg i) = n - 1" using peers_size [OF g(1)] g(2) i(1) by simp
  from recover_finish [OF g len ok lib i(1) at agree, of False] obtain creq st' us rs' where
    fin: "recover_commit (iter i) scc r slot cmds sq ds False (rs ! i)
      = Some (creq, \<lparr>inf_replica = r, inf_slot = slot, inf_seq = sq, inf_deps = ds, inf_fast_path = False\<rparr>, st')"
    "fan_out (\<lambda>l st. map_option (Pair ()) (handle_commit_inner (iter l) scc creq st)) (indices (peers_of cfg i)) (rs[i := st']) = Some (us, rs')"
    "length rs' = n" "\<forall>l < n. committed_with (rs' ! l) (r, slot) (cmds, sq, ds)" by blast
  have "run_recover iter scc order i r slot (peers_of cfg i) rs
      = Some (\<lparr>inf_replica = r, inf_slot = slot, inf_seq = sq, inf_deps = ds, inf_fast_path = False\<rparr>, rs')"
    using ok [rule_format, OF i(1)] choice by (simp add: run_recover_def round(1) round(2) [simplified] comp_def peers fin)
  with fin(3,4) show ?thesis by blast
qed

section \<open>The TryPreAccept round\<close>

text \<open>
  The replica objects when it knows a slot of some replica \<open>l\<close> for one of the keys that the dependencies
  leave out and that is not the instance itself.
\<close>

definition slot_covered :: "i32 list \<Rightarrow> key \<Rightarrow> nat \<Rightarrow> i32 \<Rightarrow> bool" where
  "slot_covered ds k l s \<longleftrightarrow> s < 0 \<or> s \<le> ds ! l \<or> (l, s) = k"

definition no_objection :: "replica_inner \<Rightarrow> key \<Rightarrow> command list \<Rightarrow> i32 list \<Rightarrow> bool" where
  "no_objection st k cmds ds \<longleftrightarrow> (\<forall>cmd \<in> set cmds. \<forall>e. c_key cmd \<noteq> [] \<and> r_conflicts st (c_key cmd) = Some e \<longrightarrow>
     (\<forall>l < r_n st. slot_covered ds k l (ce_deps e ! l)))"

lemma conflict_in_total:
  assumes "\<forall>l \<in> set ls. l < length kn \<and> l < length (tp_deps req)"
  shows "\<exists>found. conflict_in req kn ls = Some found \<and> (\<forall>c. found = Some c \<longrightarrow> fst c \<in> as_i32 ` set ls)
    \<and> (found = None \<longleftrightarrow> (\<forall>l \<in> set ls. slot_covered (tp_deps req) (as_usize (tp_replica req), tp_slot req) l (kn ! l)))"
  using assms by (induction ls) (auto simp: Let_def not_less slot_covered_def)

lemma find_conflict_total:
  assumes "entries_ok n conflicts" "n \<le> length (tp_deps req)"
  shows "\<exists>found. find_conflict req n conflicts cmds = Some found \<and> (\<forall>c. found = Some c \<longrightarrow> fst c \<in> as_i32 ` {0..<n})
    \<and> (found = None \<longleftrightarrow> (\<forall>cmd \<in> set cmds. \<forall>e. c_key cmd \<noteq> [] \<and> conflicts (c_key cmd) = Some e \<longrightarrow>
        (\<forall>l < n. slot_covered (tp_deps req) (as_usize (tp_replica req), tp_slot req) l (ce_deps e ! l))))"
proof (induction cmds)
  case (Cons cmd cmds)
  show ?case
  proof (cases "c_key cmd = [] \<or> conflicts (c_key cmd) = None")
    case True
    with Cons.IH show ?thesis by (auto split: option.splits)
  next
    case False
    then obtain e where e: "c_key cmd \<noteq> []" "conflicts (c_key cmd) = Some e" by auto
    then have "length (ce_deps e) = n" using assms(1) by (simp add: entries_ok_def)
    then have "\<forall>l \<in> set [0..<n]. l < length (ce_deps e) \<and> l < length (tp_deps req)" using assms(2) by auto
    from conflict_in_total [OF this, unfolded set_upt] obtain found where
      f: "conflict_in req (ce_deps e) [0..<n] = Some found" "\<forall>c. found = Some c \<longrightarrow> fst c \<in> as_i32 ` {0..<n}"
      "found = None \<longleftrightarrow> (\<forall>l \<in> {0..<n}. slot_covered (tp_deps req) (as_usize (tp_replica req), tp_slot req) l (ce_deps e ! l))"
      by (elim exE conjE)
    show ?thesis
    proof (cases found)
      case None
      with e f Cons.IH show ?thesis by (simp add: Ball_def [of "{0..<n}"])
    next
      case (Some c)
      with e f show ?thesis by (intro exI [of _ found]) (auto simp: Ball_def [of "{0..<n}"])
    qed
  qed
qed simp

lemma try_pre_accept_reply:
  assumes ok: "replica_ok st" "r_n st = n" and n: "n < 2 ^ 31" "n \<le> length ds" and at: "r < n" "0 \<le> slot" "slot < 2 ^ 31"
    and pre: "\<forall>inst. instance_at st (r, slot) = Some inst \<longrightarrow> i_status inst < ACCEPTED"
  shows "\<exists>reply. handle_try_pre_accept_inner (recover_try_request my r slot cmds sq ds) st = Some reply
    \<and> (tpr_ok reply \<longleftrightarrow> no_objection st (r, slot) cmds ds)"
proof -
  let ?req = "recover_try_request my r slot cmds sq ds"
  have ids: "as_usize (as_i32 r) = r" "as_usize slot = nat slot" using at n by (simp_all add: as_usize_def as_i32_def)
  have req: "as_usize (tp_replica ?req) = r" "tp_slot ?req = slot" "tp_deps ?req = ds" "tp_cmds ?req = cmds"
    by (simp_all add: recover_try_request_def ids)
  have "entries_ok n (r_conflicts st)" using ok by (simp add: replica_ok_def)
  from find_conflict_total [OF this, of ?req cmds] n(2) obtain found where
    f: "find_conflict ?req n (r_conflicts st) cmds = Some found" "\<forall>c. found = Some c \<longrightarrow> fst c \<in> as_i32 ` {0..<n}"
    "found = None \<longleftrightarrow> no_objection st (r, slot) cmds ds"
    unfolding req no_objection_def ok(2) by blast
  have "fst c \<noteq> - 1" if found: "found = Some c" for c
  proof -
    obtain l where "l < n" "fst c = as_i32 l" using f(2) [rule_format, OF found] by auto
    then show ?thesis using n(1) by (simp add: as_i32_def)
  qed
  moreover have "\<not> (case lookup (r_instances st) r (nat slot) of Some inst \<Rightarrow> ACCEPTED \<le> i_status inst | None \<Rightarrow> False)"
    using pre at by (auto simp: instance_at_def split: option.splits)
  ultimately show ?thesis
    using f(1,3) by (cases found) (auto simp: handle_try_pre_accept_inner_def req ids ok(2) Let_def)
qed

lemma try_decides:
  assumes "length (acc @ vs) = n" "vs \<noteq> []"
  shows "decide (try_quorum n) c acc vs = (Some (last vs), c \<and> list_all tpr_ok (acc @ vs))"
  using assms
proof (induction vs arbitrary: c acc)
  case (Cons v vs)
  show ?case
  proof (cases "vs = []")
    case True
    with Cons.prems show ?thesis by (simp add: try_quorum_def last_reply_def)
  next
    case False
    then have "0 < length vs" by simp
    then have "try_quorum n c (acc @ [v]) = (None, c \<and> list_all tpr_ok (acc @ [v]))"
      using Cons.prems(1) by (auto simp: try_quorum_def)
    with Cons.IH [of "acc @ [v]" "c \<and> list_all tpr_ok (acc @ [v])"] Cons.prems(1) False show ?thesis by auto
  qed
qed simp

lemma try_all:
  assumes "length replies = n" "replies \<noteq> []"
  shows "\<exists>v. snd (quorum (try_quorum n) True h (arrivals replies)) = Finished (Inr v, list_all tpr_ok (map snd replies))"
proof -
  have "list_all quiet (arrivals replies)" by (auto simp: arrivals_def list_all_iff)
  with try_decides [of "[]" "map snd replies" n True] assms show ?thesis
    by (simp add: quorum_def quorum_select.loop_quiet_only feed_quorum oks_arrivals)
qed

section \<open>Instances that are known and not committed\<close>

definition held_as :: "replica_inner \<Rightarrow> key \<Rightarrow> i32 \<Rightarrow> decided \<Rightarrow> bool" where
  "held_as st k s v \<longleftrightarrow> (\<exists>inst. instance_at st k = Some inst \<and> i_status inst = s \<and> v = (i_cmds inst, i_seq inst, i_deps inst))"

abbreviation pre_accepted_at :: "replica_inner \<Rightarrow> key \<Rightarrow> decided \<Rightarrow> bool" where
  "pre_accepted_at st k v \<equiv> held_as st k PREACCEPTED v \<or> held_as st k PREACCEPTED_EQ v"

lemma held_as_status: "held_as st k s v \<Longrightarrow> held_as st k s' w \<Longrightarrow> s = s'"
  by (auto simp: held_as_def)

lemma prepare_report:
  fixes l b :: i32 and st :: replica_inner
  assumes "r < 2 ^ 31" "0 \<le> slot" "slot < 2 ^ 31" "s \<noteq> NONE"
  defines "p \<equiv> handle_prepare_inner \<lparr>pr_leader_id = l, pr_replica = as_i32 r, pr_slot = slot, pr_ballot = b\<rparr> st"
  shows "held_as st (r, slot) s v \<longleftrightarrow> prr_status p = s \<and> report_of p = v"
proof -
  have "as_usize slot = nat slot" using assms by (simp add: as_usize_def)
  with assms show ?thesis
    by (auto simp: handle_prepare_inner_def Let_def held_as_def instance_at_def report_of_def split: option.splits)
qed

lemma accept_shape: "handle_accept_inner req st = Some (ack, st') \<Longrightarrow> r_n st' = r_n st"
  by (auto simp: handle_accept_inner_def ensure_slot_def set_instance_def Let_def split: bind_splits if_splits)

lemma threshold_all:
  assumes "max 1 k \<le> length replies"
  shows "snd (threshold k h (arrivals replies)) = Finished (Inr (hd (map snd replies)))"
proof -
  have "list_all quiet (arrivals replies)" by (auto simp: arrivals_def list_all_iff)
  then show ?thesis
    using assms by (simp add: threshold_def threshold_select.loop_quiet_only feed_threshold oks_arrivals)
qed

lemma recover_accept_round:
  assumes n: "n < 2 ^ 31" "1 < n" and len: "length rs = n" and ok: "\<forall>l < n. replica_ok (rs ! l) \<and> r_n (rs ! l) = n"
    and at: "r < n" "0 \<le> slot" "slot < 2 ^ 31 - 1" and i: "i < n" "peer_order n i order"
  shows "\<exists>acks rs1 ack. fan_out (\<lambda>_. handle_accept_inner (recover_accept_request my r slot cmds sq ds)) order rs = Some (acks, rs1)
    \<and> recover_accept n h (arrivals acks) = Finished (Inr ack) \<and> length rs1 = n
    \<and> (\<forall>l < n. replica_ok (rs1 ! l) \<and> r_n (rs1 ! l) = n \<and> (\<forall>k w. committed_with (rs1 ! l) k w \<longrightarrow> committed_with (rs ! l) k w))"
proof -
  note ok = ok [rule_format]
  let ?req = "recover_accept_request my r slot cmds sq ds"
  have order: "distinct order" "set order = {0..<n} - {i}" using i by (auto simp: peer_order_def)
  have "\<forall>l. l < n \<longrightarrow> (\<exists>p. handle_accept_inner ?req (rs ! l) = Some p \<and> replica_ok (snd p))"
  proof (intro allI impI)
    fix l assume l: "l < n"
    then have "on_table (rs ! l) (ac_replica ?req) (ac_slot ?req)"
      using ok [OF l] at n by (simp add: on_table_def recover_accept_request_def as_i32_def)
    from accept_ok [OF _ this] ok [OF l] show "\<exists>p. handle_accept_inner ?req (rs ! l) = Some p \<and> replica_ok (snd p)" by fastforce
  qed
  then obtain p where p: "\<And>l. l < n \<Longrightarrow> handle_accept_inner ?req (rs ! l) = Some (p l) \<and> replica_ok (snd (p l))" by metis
  let ?acks = "map (\<lambda>l. (l, fst (p l))) order" and ?rs1 = "map (\<lambda>l. if l \<in> set order then snd (p l) else rs ! l) [0..<n]"
  have fan: "fan_out (\<lambda>_. handle_accept_inner ?req) order rs = Some (?acks, ?rs1)"
    using fan_out_all [where h = "\<lambda>_. handle_accept_inner ?req" and reply = "\<lambda>l. fst (p l)" and st = "\<lambda>l. snd (p l)", OF order(1), of rs] order(2) len p by simp
  have "length order = n - 1" using distinct_card [OF order(1)] order(2) i by simp
  then have "recover_accept n h (arrivals ?acks) = Finished (Inr (hd (map snd ?acks)))"
    unfolding recover_accept_def by (intro threshold_all) (use n(2) in auto)
  moreover have "replica_ok (?rs1 ! l) \<and> r_n (?rs1 ! l) = n \<and> (\<forall>k w. committed_with (?rs1 ! l) k w \<longrightarrow> committed_with (rs ! l) k w)"
    if l: "l < n" for l
  proof (cases "l \<in> set order")
    case True
    obtain ack st where a: "p l = (ack, st)" by (cases "p l")
    with p [OF l] have "handle_accept_inner ?req (rs ! l) = Some (ack, st)" "replica_ok st" by simp_all
    with accept_shape accept_committed ok [OF l] True l a show ?thesis by (simp; blast)
  qed (use ok [OF l] l in simp)
  ultimately show ?thesis using fan by (intro exI conjI) auto
qed

text \<open>Fast recovery over peers that all hold the instance pre-accepted.\<close>

lemma try_round:
  assumes n: "n < 2 ^ 31" "1 < n" "n \<le> length ds" and len: "length rs = n" and ok: "\<forall>l < n. replica_ok (rs ! l) \<and> r_n (rs ! l) = n"
    and at: "r < n" "0 \<le> slot" "slot < 2 ^ 31 - 1" and i: "i < n" "peer_order n i order"
    and pre: "\<forall>l < n. l \<noteq> i \<longrightarrow> pre_accepted_at (rs ! l) (r, slot) (cmds, sq, ds)"
  shows "\<exists>tries v. fan_out (\<lambda>_ st. map_option (\<lambda>t. (t, st)) (handle_try_pre_accept_inner (recover_try_request i r slot cmds sq ds) st)) order rs
      = Some (tries, rs)
    \<and> snd (quorum (try_quorum (n - 1)) True h (arrivals tries)) = Finished (Inr v, \<forall>l < n. l \<noteq> i \<longrightarrow> no_objection (rs ! l) (r, slot) cmds ds)"
proof -
  note ok = ok [rule_format] and pre = pre [rule_format]
  let ?h = "\<lambda>st. handle_try_pre_accept_inner (recover_try_request i r slot cmds sq ds) st"
  have order: "distinct order" "set order = {0..<n} - {i}" using i by (auto simp: peer_order_def)
  have "\<exists>reply. ?h (rs ! l) = Some reply \<and> (tpr_ok reply \<longleftrightarrow> no_objection (rs ! l) (r, slot) cmds ds)" if "l < n" "l \<noteq> i" for l
    using pre [OF that] ok [OF that(1)] n at
    by (intro try_pre_accept_reply) (auto simp: held_as_def status_defs)
  then obtain reply where reply: "\<And>l. l < n \<Longrightarrow> l \<noteq> i \<Longrightarrow> ?h (rs ! l) = Some (reply l) \<and> (tpr_ok (reply l) \<longleftrightarrow> no_objection (rs ! l) (r, slot) cmds ds)"
    by metis
  let ?tries = "map (\<lambda>l. (l, reply l)) order"
  have fan: "fan_out (\<lambda>_ st. map_option (\<lambda>t. (t, st)) (?h st)) order rs = Some (?tries, rs)"
    by (subst fan_out_all [where reply = reply and st = "\<lambda>l. rs ! l", OF order(1)])
      (use order(2) len reply map_nth [of rs] in simp_all)
  have "length ?tries = n - 1" using distinct_card [OF order(1)] order(2) i by simp
  moreover from this have "?tries \<noteq> []" using n(2) by auto
  ultimately obtain v where "snd (quorum (try_quorum (n - 1)) True h (arrivals ?tries)) = Finished (Inr v, list_all tpr_ok (map snd ?tries))"
    using try_all by blast
  moreover have "list_all tpr_ok (map snd ?tries) \<longleftrightarrow> (\<forall>l < n. l \<noteq> i \<longrightarrow> no_objection (rs ! l) (r, slot) cmds ds)"
    using reply order(2) by (auto simp: list_all_iff)
  ultimately show ?thesis using fan by auto
qed

text \<open>
  What the replies decide when no replica has the instance committed and the peers that know it agree
  on its value.
\<close>

lemma recover_decides:
  assumes n: "n < 2 ^ 31" and len: "length rs = n" and i: "i < n" "peer_order n i order" and at: "r < n" "0 \<le> slot" "slot < 2 ^ 31"
    and undecided: "\<forall>l < n. \<forall>w. \<not> committed_with (rs ! l) (r, slot) w"
    and held: "\<exists>l < n. l \<noteq> i \<and> (\<exists>s \<in> {PREACCEPTED, PREACCEPTED_EQ, ACCEPTED}. held_as (rs ! l) (r, slot) s (cmds, sq, ds))"
    and agree: "\<forall>l < n. l \<noteq> i \<longrightarrow> (\<forall>s \<in> {PREACCEPTED, PREACCEPTED_EQ, ACCEPTED}. \<forall>w. held_as (rs ! l) (r, slot) s w \<longrightarrow> w = (cmds, sq, ds))"
  shows "recover_analyze n (map (\<lambda>l. handle_prepare_inner (recover_start r slot (rs ! i)) (rs ! l)) order)
    = Some (if \<forall>l < n. l \<noteq> i \<longrightarrow> pre_accepted_at (rs ! l) (r, slot) (cmds, sq, ds) then Try_Fast cmds sq ds else Accept_First cmds sq ds)"
proof -
  define prep where "prep = (\<lambda>l. handle_prepare_inner (recover_start r slot (rs ! i)) (rs ! l))"
  have order: "distinct order" "set order = {0..<n} - {i}" using i by (auto simp: peer_order_def)
  have prep: "held_as (rs ! l) (r, slot) s v \<longleftrightarrow> prr_status (prep l) = s \<and> report_of (prep l) = v" if "s \<noteq> NONE" for l s v
    unfolding prep_def recover_start_def by (rule prepare_report) (use at n that in auto)
  have nc: "prr_status (prep l) \<noteq> COMMITTED" if "l < n" for l
  proof -
    have "\<not> held_as (rs ! l) (r, slot) COMMITTED (report_of (prep l))"
      using undecided that by (auto simp: held_as_def committed_with_def)
    then show ?thesis using prep [of COMMITTED l "report_of (prep l)"] by (simp add: status_defs)
  qed
  have ag: "report_of (prep l) = (cmds, sq, ds)" if "l < n" "l \<noteq> i" "reports_some (prep l)" for l
    using agree that nc [of l] by (auto simp: prep status_defs reports_some_def simp del: split_paired_All)
  have "recover_analyze n (map prep order)
      = Some (if list_all is_preaccepted (map prep order) then Try_Fast cmds sq ds else Accept_First cmds sq ds)"
  proof (rule analyze_agreed)
    show "length (map prep order) = n - 1" using distinct_card [OF order(1)] order(2) i by simp
    show "\<exists>p \<in> set (map prep order). reports_some p" using held order by (auto simp: prep status_defs reports_some_def)
  qed (use order nc ag in auto)
  moreover have "is_preaccepted (prep l) \<longleftrightarrow> pre_accepted_at (rs ! l) (r, slot) (cmds, sq, ds)" if "l < n" "l \<noteq> i" for l
    using ag [OF that] by (auto simp: prep status_defs is_preaccepted_def reports_some_def)
  then have "list_all is_preaccepted (map prep order) \<longleftrightarrow> (\<forall>l < n. l \<noteq> i \<longrightarrow> pre_accepted_at (rs ! l) (r, slot) (cmds, sq, ds))"
    using order(2) by (auto simp: list_all_iff)
  ultimately show ?thesis by (simp only: prep_def)
qed

text \<open>The Accept round and the last phase after it.\<close>

lemma recover_slow:
  assumes g: "group_config cfg" "config_size cfg = n" "1 < n" and len: "length rs = n"
    and ok: "\<forall>l < n. replica_ok (rs ! l) \<and> r_n (rs ! l) = n" and lib: "\<forall>l < n. library_ok (iter l) scc"
    and i: "i < n" "peer_order n i order" and at: "r < n" "0 \<le> slot" "slot < 2 ^ 31 - 1" "n \<le> length ds"
    and undecided: "\<forall>l < n. \<forall>w. \<not> committed_with (rs ! l) (r, slot) w"
  shows "\<exists>acks rs1 ack creq st' us rs'.
      fan_out (\<lambda>_. handle_accept_inner (recover_accept_request i r slot cmds sq ds)) order rs = Some (acks, rs1)
    \<and> recover_accept n (call_of (peers_of cfg i)) (arrivals acks) = Finished (Inr ack)
    \<and> recover_commit (iter i) scc r slot cmds sq ds False (rs1 ! i)
      = Some (creq, \<lparr>inf_replica = r, inf_slot = slot, inf_seq = sq, inf_deps = ds, inf_fast_path = False\<rparr>, st')
    \<and> fan_out (\<lambda>l st. map_option (Pair ()) (handle_commit_inner (iter l) scc creq st)) (indices (peers_of cfg i)) (rs1[i := st']) = Some (us, rs')
    \<and> length rs' = n \<and> (\<forall>l < n. committed_with (rs' ! l) (r, slot) (cmds, sq, ds))"
proof -
  have n: "n < 2 ^ 31" using g by (simp add: group_config_def)
  obtain acks rs1 ack where acc: "fan_out (\<lambda>_. handle_accept_inner (recover_accept_request i r slot cmds sq ds)) order rs = Some (acks, rs1)"
    "recover_accept n (call_of (peers_of cfg i)) (arrivals acks) = Finished (Inr ack)" "length rs1 = n"
    "\<forall>l < n. replica_ok (rs1 ! l) \<and> r_n (rs1 ! l) = n \<and> (\<forall>k w. committed_with (rs1 ! l) k w \<longrightarrow> committed_with (rs ! l) k w)"
    using recover_accept_round [OF n g(3) len ok at(1-3) i] by blast
  have ok1: "\<forall>l < n. replica_ok (rs1 ! l) \<and> r_n (rs1 ! l) = n"
    and agree: "\<forall>l < n. \<forall>w. committed_with (rs1 ! l) (r, slot) w \<longrightarrow> w = (cmds, sq, ds)"
    using acc(4) undecided by blast+
  from recover_finish [OF g(1,2) acc(3) ok1 lib i(1) at agree, of False] acc(1,2) show ?thesis by blast
qed

section \<open>Properties\<close>

text \<open>
  C22. Recovery of a committed instance. In every group that proposals can reach, if some peer of the
  recoverer holds an instance as committed, \<^verbatim>\<open>recover\<close> returns, on the slow path, with the decided
  attributes, and then every replica holds the instance as committed with the decided value.
\<close>

theorem recovery_spreads_commit:
  assumes g: "group_config cfg" "config_size cfg = n" and reach: "reachable_cluster cfg c" and v: "view n c rs"
    and ok: "\<forall>l < n. replica_ok (rs ! l)" and lib: "\<forall>l < n. library_ok (iter l) scc"
    and i: "i < n" "peer_order n i order" and j: "j < n" "j \<noteq> i"
    and com: "committed_with (rs ! j) (r, slot) (cmds, sq, ds)"
  shows "\<exists>rs'. run_recover iter scc order i r slot (peers_of cfg i) rs
      = Some (\<lparr>inf_replica = r, inf_slot = slot, inf_seq = sq, inf_deps = ds, inf_fast_path = False\<rparr>, rs')
    \<and> length rs' = n \<and> (\<forall>l < n. committed_with (rs' ! l) (r, slot) (cmds, sq, ds))"
proof -
  have inv: "wf_replicas n c" "commit_inv n c"
    using reachable_cluster_inv [OF reach g(1)] g by (auto simp: cluster_inv_def assign_inv_def)
  have "w = (cmds, sq, ds)" if "l < n" "committed_with (rs ! l) (r, slot) w" for l w
  proof -
    have "decided c (r, slot) w" "decided c (r, slot) (cmds, sq, ds)"
      using inv(2) that com j(1) v unfolding commit_inv_def view_def by metis+
    then show ?thesis by (auto simp: decided_def)
  qed
  moreover have "replica_ok (rs ! l) \<and> r_n (rs ! l) = n" if "l < n" for l
    using inv(1) v ok that by (auto simp: wf_replicas_def view_def)
  moreover have "length rs = n" using v by (simp add: view_def)
  ultimately show ?thesis
    using lib by (intro recover_agreed [OF g _ _ _ i j com]) auto
qed


theorem recovery_spreads_commit_witness:
  "\<exists>rs sq ds rs'. committed_with (rs ! 0) (0, 0) ([put ''a'' ''1''], sq, ds)
    \<and> run_recover (\<lambda>_. key_iter) scc_ref [0] 1 0 0 (peers_of demo_group 1) rs
      = Some (\<lparr>inf_replica = 0, inf_slot = 0, inf_seq = sq, inf_deps = ds, inf_fast_path = False\<rparr>, rs')
    \<and> (\<forall>l < 2. committed_with (rs' ! l) (0, 0) ([put ''a'' ''1''], sq, ds))"
proof -
  let ?cmds = "[put ''a'' ''1'']" and ?init = "map (c_replicas (cluster_init demo_group)) [0..<2]"
  note g = demo_group_ok
  have init: "?init = map (settled 2 (replicate 2 []) Map.empty Map.empty) [0..<2]"
    using g by (simp add: cluster_init_def fresh_settled)
  obtain info insts cf where
    run: "run_propose (\<lambda>_. key_iter) scc_ref [1] 0 ?cmds (peers_of demo_group 0) False ?init
      = Some (info, map (settled 2 insts cf (apply_cmds ?cmds Map.empty)) [0..<2])"
    and h: "history_ok 2 (Suc 0) insts cf" and x: "insts = push_at 0 (proposed ?cmds (inf_seq info) (inf_deps info) COMMITTED) (replicate 2 [])"
    unfolding init
    by (rule one_proposal [where n = 2 and order = "[1]" and i = 0 and iter = "\<lambda>_. key_iter" and scc = scc_ref and cmds = ?cmds and kv = Map.empty,
        OF reference_library g _ fresh_history])
      (auto simp del: apply_cmds.simps)
  define rs where "rs = map (settled 2 insts cf (apply_cmds ?cmds Map.empty)) [0..<2]"
  have "view (config_size demo_group) (cluster_init demo_group) ?init" using g by (auto simp: view_def)
  from run_propose_steps [where lib = "\<lambda>_ _. True", OF run [folded rs_def] g(1) _ _ _ _ this]
  obtain c where c: "reachable_cluster demo_group c" "view 2 c rs" using g by (auto simp: cluster_init_def replica_inner_new_def)
  have com: "committed_with (rs ! 0) (0, 0) (?cmds, inf_seq info, inf_deps info)"
    by (simp add: committed_nth rs_def settled_def x proposed_def)
  have "\<forall>l < 2. replica_ok (rs ! l)" using settled_ok [OF h] by (simp add: rs_def)
  moreover have "peer_order 2 1 [0]" by (auto simp: peer_order_def)
  ultimately have "\<exists>rs'. run_recover (\<lambda>_. key_iter) scc_ref [0] 1 0 0 (peers_of demo_group 1) rs
      = Some (\<lparr>inf_replica = 0, inf_slot = 0, inf_seq = inf_seq info, inf_deps = inf_deps info, inf_fast_path = False\<rparr>, rs')
    \<and> length rs' = 2 \<and> (\<forall>l < 2. committed_with (rs' ! l) (0, 0) (?cmds, inf_seq info, inf_deps info))"
    by (intro recovery_spreads_commit [OF g c _ _ _ _ _ _ com]) (simp_all add: reference_library)
  with com show ?thesis by blast
qed

text \<open>Recovery when all peers hold the instance pre-accepted: fast exactly if none objects.\<close>

lemma recover_tries:
  assumes g: "group_config cfg" "config_size cfg = n" "1 < n" and len: "length rs = n"
    and ok: "\<forall>l < n. replica_ok (rs ! l) \<and> r_n (rs ! l) = n" and lib: "\<forall>l < n. library_ok (iter l) scc"
    and i: "i < n" "peer_order n i order" and at: "r < n" "0 \<le> slot" "slot < 2 ^ 31 - 1" "n \<le> length ds"
    and undecided: "\<forall>l < n. \<forall>w. \<not> committed_with (rs ! l) (r, slot) w"
    and pre: "\<forall>l < n. l \<noteq> i \<longrightarrow> pre_accepted_at (rs ! l) (r, slot) (cmds, sq, ds)"
    and choice: "recover_analyze n (map (\<lambda>l. handle_prepare_inner (recover_start r slot (rs ! i)) (rs ! l)) order) = Some (Try_Fast cmds sq ds)"
  shows "\<exists>rs'. run_recover iter scc order i r slot (peers_of cfg i) rs
      = Some (\<lparr>inf_replica = r, inf_slot = slot, inf_seq = sq, inf_deps = ds,
          inf_fast_path = (\<forall>l < n. l \<noteq> i \<longrightarrow> no_objection (rs ! l) (r, slot) cmds ds)\<rparr>, rs')
    \<and> length rs' = n \<and> (\<forall>l < n. committed_with (rs' ! l) (r, slot) (cmds, sq, ds))"
proof -
  have n: "n < 2 ^ 31" "r_n (rs ! i) = n" using g i(1) ok by (auto simp: group_config_def)
  have peers: "config_size (peers_of cfg i) = n - 1" using peers_size [OF g(1)] g(2) i(1) by simp
  define fast where "fast \<longleftrightarrow> (\<forall>l < n. l \<noteq> i \<longrightarrow> no_objection (rs ! l) (r, slot) cmds ds)"
  let ?info = "\<lparr>inf_replica = r, inf_slot = slot, inf_seq = sq, inf_deps = ds, inf_fast_path = fast\<rparr>"
  note round = prepare_round [OF len i g(3), where r = r and slot = slot]
  obtain tries v where tried: "fan_out (\<lambda>_ st. map_option (\<lambda>t. (t, st)) (handle_try_pre_accept_inner (recover_try_request i r slot cmds sq ds) st)) order rs = Some (tries, rs)"
    "snd (quorum (try_quorum (n - 1)) True (call_of (peers_of cfg i)) (arrivals tries)) = Finished (Inr v, fast)"
    using try_round [OF n(1) g(3) at(4) len ok at(1-3) i pre] unfolding fast_def by blast
  note rounds = run_recover_def round(1) round(2) [simplified] comp_def peers n(2) recover_after_try_def tried(1) tried(2) [simplified]
  have "\<exists>rs'. run_recover iter scc order i r slot (peers_of cfg i) rs = Some (?info, rs')
    \<and> length rs' = n \<and> (\<forall>l < n. committed_with (rs' ! l) (r, slot) (cmds, sq, ds))"
  proof (cases fast)
    case True
    have agree: "\<forall>l < n. \<forall>w. committed_with (rs ! l) (r, slot) w \<longrightarrow> w = (cmds, sq, ds)" using undecided by blast
    from recover_finish [OF g(1,2) len ok lib i(1) at agree, of fast]
    obtain creq st' us rs' where quick: "recover_commit (iter i) scc r slot cmds sq ds fast (rs ! i) = Some (creq, ?info, st')"
      "fan_out (\<lambda>l st. map_option (Pair ()) (handle_commit_inner (iter l) scc creq st)) (indices (peers_of cfg i)) (rs[i := st']) = Some (us, rs')"
      "length rs' = n" "\<forall>l < n. committed_with (rs' ! l) (r, slot) (cmds, sq, ds)" by blast
    have "run_recover iter scc order i r slot (peers_of cfg i) rs = Some (?info, rs')"
      using choice True quick(1,2) by (simp add: rounds)
    with quick(3,4) show ?thesis by blast
  next
    case False
    with recover_slow [OF g len ok lib i at undecided, of cmds sq] choice show ?thesis by (auto simp: rounds)
  qed
  then show ?thesis unfolding fast_def .
qed



text \<open>
  Recovery is unsafe against a leader that is still running. Replica 0 proposes \<open>a := 1\<close> to replica 1,
  which agrees; before the reply arrives, replica 1 recovers the slot. It asks replica 0 only, which has
  no entry for its own proposal and is not told by any ballot to stop; replica 1 has the commands and
  does not ask itself. So a no-operation is accepted by replica 0 and committed by replica 1, and then
  the leader gets the reply, commits \<open>a := 1\<close> on the fast path and reports success. Each then ignores
  the other's Commit: the replicas hold different commands in the same slot for good.
\<close>

theorem recovery_disagrees:
  "(do {
      (req, st0) \<leftarrow> propose_start [put ''a'' ''1''] (replica_inner_new 0 2);
      (reply, st1) \<leftarrow> handle_pre_accept_inner req (replica_inner_new 1 2);
      choice \<leftarrow> recover_analyze 2 [handle_prepare_inner (recover_start 0 0 st1) st0];
      (cmds, sq, ds) \<leftarrow> (case choice of Accept_First cmds sq ds \<Rightarrow> Some (cmds, sq, ds) | _ \<Rightarrow> None);
      (ack, st0) \<leftarrow> handle_accept_inner (recover_accept_request 1 0 0 cmds sq ds) st0;
      _ \<leftarrow> (case recover_accept 2 (call_of (peers_of demo_group 1)) (arrivals [(0, ack)]) of Finished (Inr ack) \<Rightarrow> Some ack | _ \<Rightarrow> None);
      (creq1, info1, st1) \<leftarrow> recover_commit key_iter scc_ref 0 0 cmds sq ds False st1;
      a \<leftarrow> (case propose_pre_accept req (peers_of demo_group 0) (call_of (peers_of demo_group 0)) (arrivals [(1, reply)]) of
              Finished (Inr a) \<Rightarrow> Some a | _ \<Rightarrow> None);
      (creq0, info0, st0) \<leftarrow> propose_commit key_iter scc_ref req a st0;
      st0 \<leftarrow> handle_commit_inner key_iter scc_ref creq1 st0;
      st1 \<leftarrow> handle_commit_inner key_iter scc_ref creq0 st1;
      Some (inf_fast_path info0, map_option i_cmds (instance_at st0 (0, 0)), r_store st0 ''a'',
        map_option i_cmds (instance_at st1 (0, 0)), executed_at st1 (0, 0), r_store st1 ''a'')
    }) = Some (True, Some [put ''a'' ''1''], Some ''1'', Some [], True, None)"
  by code_simp

end
