(* ===== verification/Epaxos_Progress.thy ===== *)
theory Epaxos_Progress
  imports Epaxos_Dependencies Epaxos_Recovery
begin

text \<open>
  Execution in the group. With libraries that keep their contract, every replica of a reachable group is
  well formed and has executed everything it could; its store is the replay of the decided instances it
  executed, each once; and a replica that has learned every proposal has executed them all.
\<close>

section \<open>Readiness\<close>

declare split_paired_All [simp del] split_paired_Ex [simp del]

lemma committed_at_with: "committed_at st k \<longleftrightarrow> (\<exists>v. committed_with st k v)"
  by (auto simp: committed_at_def committed_with_def)

lemma needs_committed:
  "needs st a b \<longleftrightarrow> \<not> executed_at st a \<and> (\<exists>cmds sq ds keys. committed_with st a (cmds, sq, ds) \<and> dep_keys (r_n st) ds = Some keys \<and> b \<in> set keys)"
  by (auto simp: needs_def committed_at_def committed_with_def)

lemma committed_with_unique: "committed_with st k v \<Longrightarrow> committed_with st k w \<Longrightarrow> v = w"
  by (auto simp: committed_with_def)

text \<open>A step that executes nothing and commits nothing makes nothing ready.\<close>

lemma ready_keys_mono:
  assumes n: "r_n st' = r_n st" and ex: "\<And>k. executed_at st' k = executed_at st k"
    and com: "\<And>k v. committed_with st' k v \<Longrightarrow> committed_with st k v"
  shows "ready_keys st' \<subseteq> ready_keys st"
proof
  fix k assume k: "k \<in> ready_keys st'"
  then have run: "executed_at st' b \<or> committed_at st' b" if "(needs st')\<^sup>*\<^sup>* k b" for b
    using that by (simp add: ready_keys_def runnable_def)
  have "(needs st')\<^sup>*\<^sup>* k b" if "(needs st)\<^sup>*\<^sup>* k b" for b
    using that
  proof induction
    case (step a b)
    from step.hyps(2) obtain cmds sq ds keys where a: "\<not> executed_at st a" "committed_with st a (cmds, sq, ds)"
      "dep_keys (r_n st) ds = Some keys" "b \<in> set keys" by (auto simp: needs_committed)
    then have "committed_at st' a" using run [OF step.IH] ex by simp
    then have "committed_with st' a (cmds, sq, ds)" using a(2) com committed_with_unique unfolding committed_at_with by metis
    with a have "needs st' a b" unfolding needs_committed n ex by blast
    with step.IH show ?case by (rule rtranclp.rtrancl_into_rtrancl)
  qed simp
  then have "runnable st k" using run ex com unfolding runnable_def committed_at_with by metis
  moreover have "committed_at st k" "\<not> executed_at st k"
    using k com ex unfolding ready_keys_def waits_def committed_at_with by blast+
  ultimately show "k \<in> ready_keys st" by (simp add: ready_keys_def waits_def)
qed

section \<open>What a handler executes\<close>

text \<open>
  From a well-formed replica, a handler leads to a well-formed replica in which nothing is left ready if
  nothing was before, and it executes \<open>order\<close>, committed instances that were not executed.
\<close>

definition executes :: "replica_inner \<Rightarrow> key list \<Rightarrow> replica_inner \<Rightarrow> bool" where
  "executes st order st' \<longleftrightarrow> replica_ok st' \<and> (ready_keys st = {} \<longrightarrow> ready_keys st' = {}) \<and> distinct order
     \<and> (\<forall>k \<in> set order. \<not> executed_at st k \<and> committed_at st' k)
     \<and> (\<forall>k. executed_at st' k \<longleftrightarrow> executed_at st k \<or> k \<in> set order)
     \<and> r_store st' = run_keys st' order (r_store st)"

lemma executes_nothing:
  assumes "replica_ok st'" "r_n st' = r_n st" "\<And>k. executed_at st' k = executed_at st k" "r_store st' = r_store st"
    and "\<And>k v. committed_with st' k v \<Longrightarrow> committed_with st k v"
  shows "executes st [] st'"
  using assms(1,3,4) ready_keys_mono [OF assms(2,3,5)] by (auto simp: executes_def run_keys_def)

lemma ensure_slot_executed: "ensure_slot r slot st = Some st' \<Longrightarrow> length (r_executed st ! r) = length (r_instances st ! r) \<Longrightarrow> executed_at st' k = executed_at st k"
  by (auto simp: ensure_slot_def Let_def executed_at_def lookup_def nth_list_update nth_append split: if_splits)

lemma ensure_slot_store: "ensure_slot r slot st = Some st' \<Longrightarrow> r_store st' = r_store st"
  by (auto simp: ensure_slot_def Let_def split: if_splits)

lemma set_instance_executed [simp]: "executed_at (set_instance r slot f st) k = executed_at st k"
  "r_store (set_instance r slot f st) = r_store st"
  by (simp_all add: executed_at_def set_instance_def)

text \<open>The executor, on a state in which an instance was just committed.\<close>

lemma executor_executes:
  assumes run: "execute_all_ready iter scc st1 = Some st'" and lib: "library_ok iter scc" and ok: "replica_ok st1"
    and same: "\<And>k. executed_at st1 k = executed_at st k" "r_store st1 = r_store st"
  shows "\<exists>order. executes st order st'"
proof -
  have t: "tables_ok st1" using ok by (simp add: replica_ok_def)
  have p: "params_ok iter scc st1" by (rule graph_library.params [OF _ t]) (simp add: graph_library_def lib)
  obtain order where plan: "execute_plan iter scc st1 = Some order" "distinct order" "set order = ready_keys st1"
    by (rule execute_plan_order [OF t p]) (rule that)
  have waits: "waits st1 k" if "k \<in> set order" for k using that plan(3) by (simp add: ready_keys_def)
  obtain st2 where st2: "exec_keys st1 order = Some st2" "tables_ok st2" "r_instances st2 = r_instances st1"
    "r_store st2 = run_keys st1 order (r_store st1)" "\<forall>k. executed_at st2 k \<longleftrightarrow> executed_at st1 k \<or> k \<in> set order"
    using exec_keys_effect [OF t plan(2) waits] by blast
  have [simp]: "st' = st2" using run plan(1) st2(1) by (simp add: execute_all_ready_def)
  have inst: "instance_at st2 k = instance_at st1 k" for k using st2(3) by (simp add: instance_at_def)
  have "replica_ok st2" using ok st2(2) exec_keys_same [OF st2(1)] by (simp add: replica_ok_def)
  moreover have "ready_keys st2 = {}" using st2(3,5) exec_keys_n [OF st2(1)] plan(3) by (intro no_key_left) auto
  moreover have "\<not> executed_at st k \<and> committed_at st2 k" if "k \<in> set order" for k
    using waits [OF that] same(1) inst by (simp add: waits_def committed_at_def)
  moreover have "run_keys st2 order kv = run_keys st1 order kv" for kv by (simp add: run_keys_def inst)
  ultimately have "executes st order st'" using plan(2) st2(4,5) same by (simp add: executes_def)
  then show ?thesis by blast
qed

lemma executor_total:
  assumes "library_ok iter scc" "replica_ok st"
  shows "execute_all_ready iter scc st \<noteq> None"
proof -
  have "params_ok iter scc st"
    using assms by (intro graph_library.params) (simp_all add: graph_library_def replica_ok_def)
  then show ?thesis using execute_ok [OF assms(2)] by auto
qed

text \<open>A message for a proposed instance: its replica and slot are on the tables.\<close>

lemma ensured:
  assumes ok: "replica_ok st" and on: "on_table st rep slot" and ens: "ensure_slot (as_usize rep) slot st = Some st1"
  shows "replica_ok st1" "r_n st1 = r_n st" "r_conflicts st1 = r_conflicts st" "r_store st1 = r_store st"
    "\<And>k. executed_at st1 k = executed_at st k" "as_usize rep < r_n st" "nat slot < length (r_instances st1 ! as_usize rep)" "0 \<le> slot"
proof -
  obtain st' where st': "ensure_slot (as_usize rep) slot st = Some st'" "replica_ok st'" "r_n st' = r_n st" "r_conflicts st' = r_conflicts st"
    "r_store st' = r_store st" "nat slot < length (r_instances st' ! as_usize rep)" "as_usize rep < r_n st"
    using ensure_slot_ok [OF ok on] by blast
  with ens show "replica_ok st1" "r_n st1 = r_n st" "r_conflicts st1 = r_conflicts st" "r_store st1 = r_store st"
    "as_usize rep < r_n st" "nat slot < length (r_instances st1 ! as_usize rep)" by simp_all
  have "length (r_executed st ! as_usize rep) = length (r_instances st ! as_usize rep)"
    using ok st'(7) by (auto simp: replica_ok_def tables_ok_def)
  with ens show "executed_at st1 k = executed_at st k" for k by (rule ensure_slot_executed)
  show "0 \<le> slot" using on by (simp add: on_table_def)
qed

lemma start_executes:
  assumes "start_proposal cmds st = Some (a, st')" "replica_ok st"
  shows "executes st [] st'"
proof (rule executes_nothing)
  obtain cf nxt sq where st': "st' = st\<lparr>r_cur_slot := nxt, r_conflicts := cf\<rparr>"
    and rc: "record_conflicts (r_n st) (r_id st) (r_cur_slot st) sq cmds (r_conflicts st) = Some cf"
    using assms(1) by (auto simp: start_proposal_def Let_def split: bind_splits)
  have "entries_ok (r_n st) cf" using record_conflicts_spec [OF rc] assms(2) by (simp add: replica_ok_def)
  then show "replica_ok st'" using assms(2) by (simp add: st' replica_ok_def tables_ok_def)
  show "executed_at st' k = executed_at st k" "r_n st' = r_n st" "r_store st' = r_store st" for k
    by (simp_all add: st' executed_at_def)
qed (use start_proposal_committed [OF assms(1)] in simp)

lemma accept_executes:
  assumes "handle_accept_inner req st = Some (ack, st')" "replica_ok st" "on_table st (ac_replica req) (ac_slot req)"
  shows "executes st [] st'"
proof (rule executes_nothing)
  obtain st1 f where ens: "ensure_slot (as_usize (ac_replica req)) (ac_slot req) st = Some st1"
    and st': "st' = set_instance (as_usize (ac_replica req)) (ac_slot req) f st1"
    using assms(1) by (auto simp: handle_accept_inner_def Let_def split: bind_splits)
  note e = ensured [OF assms(2,3) ens]
  show "replica_ok st'" using accept_ok [OF assms(2,3)] assms(1) by auto
  show "executed_at st' k = executed_at st k" "r_n st' = r_n st" "r_store st' = r_store st" for k
    by (simp_all add: st' e)
qed (rule accept_committed [OF assms(1)])

lemma pre_accept_executes:
  assumes h: "handle_pre_accept_inner req st = Some (reply, st')" and ok: "replica_ok st" and on: "on_table st (pa_replica req) (pa_slot req)"
  shows "executes st [] st'"
proof (rule executes_nothing)
  let ?r = "as_usize (pa_replica req)" and ?s = "pa_slot req"
  obtain st1 q ds cf where ens: "ensure_slot ?r ?s st = Some st1"
    and rc: "record_conflicts (r_n st) ?r ?s q (pa_cmds req) (r_conflicts st1) = Some cf"
    and st': "st' = set_instance ?r ?s (\<lambda>inst. inst\<lparr>i_cmds := pa_cmds req, i_seq := q, i_deps := ds,
        i_status := PREACCEPTED, i_ballot := pa_ballot req\<rparr>) (st1\<lparr>r_conflicts := cf\<rparr>)"
    using h by (auto simp: handle_pre_accept_inner_def Let_def split: bind_splits)
  note e = ensured [OF ok on ens]
  have "entries_ok (r_n st) cf" using record_conflicts_spec [OF rc] e(3) ok by (simp add: replica_ok_def)
  then have "replica_ok (st1\<lparr>r_conflicts := cf\<rparr>)" using e(1,2) by (simp add: replica_ok_def tables_ok_def)
  then show "replica_ok st'"
    unfolding st' by (rule set_instance_ok) (use e in \<open>simp_all add: inst_ok_def status_defs\<close>)
  have "executed_at (st1\<lparr>r_conflicts := cf\<rparr>) k = executed_at st1 k" for k by (simp add: executed_at_def)
  then show "executed_at st' k = executed_at st k" "r_n st' = r_n st" "r_store st' = r_store st" for k
    by (simp_all add: st' e)
qed (rule pre_accept_committed [OF h])

text \<open>Both ways to commit: ensure the slot, perhaps record the instance, run the executor.\<close>

lemma committing_executes:
  assumes ens: "ensure_slot (as_usize rep) slot st = Some st1" and ok: "replica_ok st" and on: "on_table st rep slot"
    and run: "execute_all_ready iter scc st2 = Some st'" and st2: "st2 = st1 \<or> st2 = commit_instance (as_usize rep) slot cmds sq deps st1"
    and lib: "library_ok iter scc" and len: "r_n st \<le> length deps"
  shows "\<exists>order. executes st order st'"
proof (rule executor_executes [OF run lib])
  note e = ensured [OF ok on ens]
  have "replica_ok (commit_instance (as_usize rep) slot cmds sq deps st1)"
    by (rule commit_instance_ok) (use e len in simp_all)
  then show "replica_ok st2" using st2 e(1) by blast
  show "executed_at st2 k = executed_at st k" "r_store st2 = r_store st" for k
    using st2 by (auto simp: commit_instance_def e(4,5))
qed

lemma commit_executes:
  assumes h: "handle_commit_inner iter scc req st = Some st'" and ok: "replica_ok st" and on: "on_table st (cm_replica req) (cm_slot req)"
    and "library_ok iter scc" "r_n st \<le> length (cm_deps req)"
  shows "\<exists>order. executes st order st'"
proof -
  let ?r = "as_usize (cm_replica req)" and ?s = "cm_slot req"
  obtain st1 where ens: "ensure_slot ?r ?s st = Some st1"
    and "st' = st1 \<or> execute_all_ready iter scc (commit_instance ?r ?s (cm_cmds req) (cm_seq req) (cm_deps req) st1) = Some st'"
    using h by (auto simp: handle_commit_inner_def Let_def split: bind_splits if_splits)
  then show ?thesis
  proof (elim disjE)
    assume "st' = st1"
    then have "executes st [] st'"
      using ensured [OF ok on ens] ensure_slot_committed [OF ens] by (intro executes_nothing) auto
    then show ?thesis by blast
  qed (use committing_executes [OF ens ok on] assms(4,5) in blast)
qed

lemma commit_local_executes:
  assumes "commit_local iter scc (as_usize rep) slot cmds sq deps st = Some st'" "replica_ok st" "on_table st rep slot"
    and "library_ok iter scc" "r_n st \<le> length deps"
  shows "\<exists>order. executes st order st'"
proof -
  obtain st1 st2 where "ensure_slot (as_usize rep) slot st = Some st1" "execute_all_ready iter scc st2 = Some st'"
    "st2 = st1 \<or> st2 = commit_instance (as_usize rep) slot cmds sq deps st1"
    using assms(1) by (auto simp: commit_local_def split: bind_splits if_splits)
  then show ?thesis by (intro committing_executes [OF _ assms(2,3) _ _ assms(4,5)])
qed

section \<open>The group\<close>

text \<open>The steps of a group whose libraries keep their contract.\<close>

abbreviation library_step :: "configuration \<Rightarrow> cluster \<Rightarrow> cluster \<Rightarrow> bool" where
  "library_step \<equiv> group_step library_ok"

abbreviation library_reach :: "configuration \<Rightarrow> cluster \<Rightarrow> bool" where
  "library_reach cfg c \<equiv> (library_step cfg)\<^sup>*\<^sup>* (cluster_init cfg) c"

lemma library_step_any: "library_step cfg c c' \<Longrightarrow> cluster_step cfg c c'"
  by (induction rule: group_step.induct; rule group_step.intros; assumption?; simp)

lemma library_reach_any: "library_reach cfg c \<Longrightarrow> reachable_cluster cfg c"
  by (rule rtranclp_mono [THEN predicate2D]) (auto intro: library_step_any)

text \<open>The store that results from the commands of a sequence of proposed instances.\<close>

definition replay :: "cluster \<Rightarrow> key list \<Rightarrow> string \<Rightarrow> string option" where
  "replay c ks = fold (\<lambda>k. apply_cmds (cmds_of c k)) ks Map.empty"

definition replays :: "cluster \<Rightarrow> replica_inner \<Rightarrow> bool" where
  "replays c st \<longleftrightarrow> (\<exists>ks. distinct ks \<and> set ks = {k. executed_at st k} \<and> (\<forall>k \<in> set ks. \<exists>v. decided c k v) \<and> r_store st = replay c ks)"

definition progress_inv :: "nat \<Rightarrow> cluster \<Rightarrow> bool" where
  "progress_inv n c \<longleftrightarrow> (\<forall>j < n. replica_ok (c_replicas c j) \<and> ready_keys (c_replicas c j) = {} \<and> replays c (c_replicas c j))"

lemma proposal_on_table:
  assumes "assign_inv n c" "dep_inv n c" "n < 2 ^ 31" "c_proposals c k = Some p" "j < n"
  shows "on_table (c_replicas c j) (pa_replica (p_req p)) (pa_slot (p_req p))" and "r_n (c_replicas c j) = n"
proof -
  have "req_of c k = Some (p_req p)" using assms(4) by (simp add: req_of_def)
  then have k: "fst k < n" "pa_replica (p_req p) = as_i32 (fst k)" "pa_slot (p_req p) = snd k" "0 \<le> snd k" "snd k < slots c (fst k)"
    using assms(1) unfolding assign_inv_def wf_proposals_def by blast+
  show n: "r_n (c_replicas c j) = n" using assms(1,5) by (simp add: assign_inv_def wf_replicas_def)
  have "slots c (fst k) < 2 ^ 31" using assms(2) k(1) by (simp add: dep_inv_def)
  then show "on_table (c_replicas c j) (pa_replica (p_req p)) (pa_slot (p_req p))"
    using k assms(3) by (simp add: on_table_def n)
qed

lemma decision_length:
  assumes "dep_inv n c" "c_proposals c k = Some p" "p_decision p = Some (sq, ds, fast)"
  shows "length ds = n"
proof -
  have "decided c k (pa_cmds (p_req p), sq, ds)" using assms(2,3) by (simp add: decided_def)
  then show ?thesis using assms(1) unfolding dep_inv_def deps_below_def by blast
qed

lemma step_executes:
  assumes st: "library_step cfg c c'" and n: "config_size cfg < 2 ^ 31" and a: "assign_inv (config_size cfg) c" and d: "dep_inv (config_size cfg) c"
    and ok: "\<And>j. j < config_size cfg \<Longrightarrow> replica_ok (c_replicas c j)" and j: "j < config_size cfg"
  shows "\<exists>order. executes (c_replicas c j) order (c_replicas c' j)"
proof -
  let ?n = "config_size cfg"
  have "executes (c_replicas c j) [] (c_replicas c j)" by (rule executes_nothing) (use ok j in simp_all)
  then have idle: ?thesis if "c_replicas c' j = c_replicas c j" using that by auto
  note on = proposal_on_table [OF a d n]
  show ?thesis
    using st
  proof (cases rule: group_step.cases)
    case (start i cmds req st')
    then show ?thesis using idle start_executes [OF propose_start_parts(1) [OF start(3)] ok] by (cases "i = j") auto
  next
    case (pre_accept k p j0 reply st')
    then show ?thesis
      using idle pre_accept_executes [OF pre_accept(5) ok on(1) [OF pre_accept(2)]] by (cases "j0 = j") auto
  next
    case (accept k p at areq j0 ack st')
    have "ac_replica areq = pa_replica (p_req p)" "ac_slot areq = pa_slot (p_req p)"
      using accept(4) by (auto simp: propose_accept_request_def split: prod.splits if_splits)
    then show ?thesis
      using idle accept accept_executes [OF accept(7) ok] on(1) [OF accept(2)] by (cases "j0 = j") auto
  next
    case (commit k p at iter scc creq info st')
    obtain sq ds fast where at: "at = (sq, ds, fast)" by (cases at)
    with commit(6) have cl: "commit_local iter scc (as_usize (pa_replica (p_req p))) (pa_slot (p_req p)) (pa_cmds (p_req p)) sq ds (c_replicas c (fst k)) = Some st'"
      by (auto simp: propose_commit_def split: bind_splits)
    have "length ds = ?n" using decision_length [OF d commit(2)] commit(3) at by simp
    then show ?thesis
      using idle commit(1) commit_local_executes [OF cl ok _ commit(7)] on [OF commit(2)] j by (cases "fst k = j") auto
  next
    case (learn k p at j0 iter scc st')
    obtain sq ds fast where at: "at = (sq, ds, fast)" by (cases at)
    have "length ds = ?n" using decision_length [OF d learn(2)] learn(3) at by simp
    then show ?thesis
      using idle learn(1,5) commit_executes [OF learn(7) ok _ learn(8)] on [OF learn(2)]
      by (cases "j0 = j") (auto simp: propose_commit_request_def at)
  qed (use idle in auto)
qed

text \<open>Executing \<open>order\<close> extends the sequence that a store replays.\<close>

lemma replays_step:
  assumes st: "cluster_step cfg c c'" and inv: "cluster_inv (config_size cfg) c" "cluster_inv (config_size cfg) c'" and j: "j < config_size cfg"
    and old: "replays c (c_replicas c j)" and ex: "executes (c_replicas c j) order (c_replicas c' j)"
  shows "replays c' (c_replicas c' j)"
proof -
  let ?n = "config_size cfg" and ?st = "c_replicas c' j"
  have a: "assign_inv ?n c" using inv(1) by (simp add: cluster_inv_def)
  obtain ks where ks: "distinct ks" "set ks = {k. executed_at (c_replicas c j) k}" "\<forall>k \<in> set ks. \<exists>v. decided c k v"
    "r_store (c_replicas c j) = replay c ks" using old by (auto simp: replays_def)
  have "cmds_of c' k = cmds_of c k" if d: "decided c k v" for k v
  proof -
    obtain p where "c_proposals c k = Some p" using d by (auto simp: decided_def)
    then have "req_of c k = Some (p_req p)" by (simp add: req_of_def)
    then show ?thesis using step_persistent [OF st a] by (simp add: cmds_of_def)
  qed
  then have same: "replay c' ks = replay c ks"
    unfolding replay_def using ks(3) by (intro fold_cong) auto
  have new: "\<exists>v. decided c' k v \<and> (case instance_at ?st k of Some i \<Rightarrow> i_cmds i | None \<Rightarrow> []) = cmds_of c' k" if "k \<in> set order" for k
  proof -
    have "committed_at ?st k" using ex that by (simp add: executes_def)
    then obtain i where i: "instance_at ?st k = Some i" "i_status i = COMMITTED" by (auto simp: committed_at_def)
    then have "committed_with ?st k (i_cmds i, i_seq i, i_deps i)" by (simp add: committed_with_def)
    then have "decided c' k (i_cmds i, i_seq i, i_deps i)" using inv(2) j unfolding cluster_inv_def commit_inv_def by blast
    moreover from this have "cmds_of c' k = i_cmds i" using inv(2) unfolding cluster_inv_def decision_inv_def by blast
    ultimately show ?thesis using i(1) by auto
  qed
  have "run_keys ?st order kv = fold (\<lambda>k. apply_cmds (cmds_of c' k)) order kv" for kv
    unfolding run_keys_def using new by (intro fold_cong) auto
  then have "r_store ?st = replay c' (ks @ order)"
    using ex ks(4) same by (simp add: executes_def replay_def)
  moreover have "distinct (ks @ order)" "set (ks @ order) = {k. executed_at ?st k}"
    using ex ks(1,2) by (auto simp: executes_def)
  moreover have "\<exists>v. decided c' k v" if "k \<in> set (ks @ order)" for k
    using that unfolding set_append Un_iff using ks(3) new step_persistent [OF st a] by meson
  ultimately show ?thesis unfolding replays_def by blast
qed

lemma progress_init: "progress_inv (config_size cfg) (cluster_init cfg)"
proof -
  have "executed_at (replica_inner_new j n) k = False" "committed_at (replica_inner_new j n) k = False" for j n k
    by (auto simp: executed_at_def committed_at_def instance_at_def lookup_def replica_inner_new_def)
  then show ?thesis
    by (auto simp: progress_inv_def cluster_init_def replica_ok_def tables_ok_def entries_ok_def ready_keys_def waits_def replays_def replay_def)
      (simp_all add: replica_inner_new_def)
qed

lemma library_reach_inv:
  assumes "library_reach cfg c" "group_config cfg"
  shows "cluster_inv (config_size cfg) c \<and> dep_inv (config_size cfg) c \<and> progress_inv (config_size cfg) c"
proof -
  let ?n = "config_size cfg"
  have inv: "cluster_inv ?n c \<and> dep_inv ?n c" if "library_reach cfg c" for c
    using library_reach_any [OF that] reachable_cluster_inv reachable_dep_inv assms(2) by blast
  have n: "?n < 2 ^ 31" using assms(2) by (simp add: group_config_def)
  have "progress_inv ?n c"
    using assms(1)
  proof induction
    case (step c c')
    have st: "cluster_step cfg c c'" by (rule library_step_any [OF step.hyps(2)])
    have c: "cluster_inv ?n c" "dep_inv ?n c" "assign_inv ?n c" using inv [OF step.hyps(1)] by (auto simp: cluster_inv_def)
    have c': "cluster_inv ?n c'" using inv step.hyps by (meson rtranclp.rtrancl_into_rtrancl)
    have old: "replica_ok (c_replicas c j)" "ready_keys (c_replicas c j) = {}" "replays c (c_replicas c j)" if "j < ?n" for j
      using step.IH that by (auto simp: progress_inv_def)
    have "replica_ok (c_replicas c' j) \<and> ready_keys (c_replicas c' j) = {} \<and> replays c' (c_replicas c' j)" if j: "j < ?n" for j
    proof -
      obtain order where ex: "executes (c_replicas c j) order (c_replicas c' j)"
        using step_executes [OF step.hyps(2) n c(3,2) old(1) j] by blast
      then have "replica_ok (c_replicas c' j)" "ready_keys (c_replicas c' j) = {}" using old(2) [OF j] by (simp_all add: executes_def)
      with replays_step [OF st c(1) c' j old(3) [OF j] ex] show ?thesis by blast
    qed
    then show ?case by (simp add: progress_inv_def)
  qed (rule progress_init)
  with inv [OF assms(1)] show ?thesis by blast
qed

lemma learned_all_executed:
  assumes "group_config cfg" and "library_reach cfg c" and "j < config_size cfg"
    and all: "\<And>k. c_proposals c k \<noteq> None \<Longrightarrow> committed_at (c_replicas c j) k \<or> executed_at (c_replicas c j) k"
  shows "\<exists>ks. distinct ks \<and> set ks = dom (c_proposals c) \<and> (\<forall>k \<in> set ks. executed_at (c_replicas c j) k)
    \<and> r_store (c_replicas c j) = replay c ks"
proof -
  let ?st = "c_replicas c j" and ?n = "config_size cfg"
  have inv: "cluster_inv ?n c" "dep_inv ?n c" and "progress_inv ?n c" using library_reach_inv [OF assms(2,1)] by auto
  then have ready: "ready_keys ?st = {}" and "replays c ?st" using assms(3) by (auto simp: progress_inv_def)
  then obtain ks where ks: "distinct ks" "set ks = {k. executed_at ?st k}" "\<forall>k \<in> set ks. \<exists>v. decided c k v" "r_store ?st = replay c ks"
    by (auto simp: replays_def)
  have dep: "c_proposals c b \<noteq> None" if needs: "needs ?st a b" for a b
  proof -
    obtain cmds sq ds keys where a: "committed_with ?st a (cmds, sq, ds)" "dep_keys (r_n ?st) ds = Some keys" "b \<in> set keys"
      using needs by (auto simp: needs_committed)
    have "decided c a (cmds, sq, ds)" using inv(1) a(1) assms(3) unfolding cluster_inv_def commit_inv_def by blast
    then have "deps_below (slots c) ?n ds" using inv(2) unfolding dep_inv_def by blast
    moreover have "r_n ?st = ?n" using inv(1) assms(3) by (simp add: cluster_inv_def assign_inv_def wf_replicas_def)
    moreover from this have "fst b < ?n \<and> 0 \<le> snd b \<and> snd b = ds ! fst b"
      using a(2,3) by (auto simp: dep_keys_def split: if_splits)
    ultimately have "req_of c (fst b, snd b) \<noteq> None" using inv(2) unfolding dep_inv_def deps_below_def by metis
    then show ?thesis by (simp add: req_of_def)
  qed
  have "executed_at ?st k" if p: "c_proposals c k \<noteq> None" for k
  proof (rule ccontr)
    assume no: "\<not> executed_at ?st k"
    then have "waits ?st k" using all [OF p] by (simp add: waits_def)
    moreover have "runnable ?st k"
      unfolding runnable_def
    proof (intro allI impI)
      fix b assume "(needs ?st)\<^sup>*\<^sup>* k b"
      then have "c_proposals c b \<noteq> None" by (induction rule: rtranclp_induct) (use p dep in blast)+
      then show "executed_at ?st b \<or> committed_at ?st b" using all by blast
    qed
    ultimately show False using ready by (auto simp: ready_keys_def)
  qed
  moreover have "c_proposals c k \<noteq> None" if "k \<in> set ks" for k using ks(3) that by (auto simp: decided_def)
  ultimately have "set ks = dom (c_proposals c)" using ks(2) by (auto simp: dom_def)
  then show ?thesis
    using ks by blast
qed

section \<open>Properties\<close>

text \<open>
  C3. Every store is a replay of the protocol's decisions. In every group that concurrent proposals can
  reach, each replica is well formed, it has executed decided instances only, and its store is what the
  commands of the proposals give when the executed instances are applied one after the other, each
  exactly once, to an empty store.
\<close>

theorem stores_replay_decisions:
  assumes "group_config cfg" and "library_reach cfg c" and "j < config_size cfg"
  shows "replica_ok (c_replicas c j)
    \<and> (\<exists>ks. distinct ks \<and> set ks = {k. executed_at (c_replicas c j) k} \<and> (\<forall>k \<in> set ks. \<exists>v. decided c k v)
         \<and> r_store (c_replicas c j) = replay c ks)"
  using library_reach_inv [OF assms(2,1)] assms(3) by (simp add: progress_inv_def replays_def)

text \<open>
  C4. Execution does not fall behind. In every such group nothing that is ready is left unexecuted at any
  replica; and a replica that holds every proposal as committed, or has executed it, has executed them
  all, so its store contains the effect of each proposal exactly once.
\<close>

theorem all_learned_all_executed:
  assumes "group_config cfg" and "library_reach cfg c" and "j < config_size cfg"
  shows "ready_keys (c_replicas c j) = {}
    \<and> ((\<forall>k. c_proposals c k \<noteq> None \<longrightarrow> committed_at (c_replicas c j) k \<or> executed_at (c_replicas c j) k) \<longrightarrow>
        (\<exists>ks. distinct ks \<and> set ks = dom (c_proposals c) \<and> (\<forall>k \<in> set ks. executed_at (c_replicas c j) k)
           \<and> r_store (c_replicas c j) = replay c ks))"
  using library_reach_inv [OF assms(2,1)] assms(3) learned_all_executed [OF assms] by (auto simp: progress_inv_def)

text \<open>
  C6. No message of a proposal makes a replica panic. In every such group, PreAccept (while sequence
  numbers have room), Accept and Commit of every proposal return at every replica, and so does the local
  commit: the tables never overflow, every decision carries a dependency for each replica, and the
  executor finds what it looks up.
\<close>

theorem group_never_panics:
  assumes "group_config cfg" and "library_reach cfg c" and "c_proposals c k = Some p" and "j < config_size cfg" and "library_ok iter scc"
  shows "(seq_room (c_replicas c j) \<longrightarrow> handle_pre_accept_inner (p_req p) (c_replicas c j) \<noteq> None)
    \<and> (\<forall>a areq. p_decision p = Some a \<and> propose_accept_request (p_req p) a = Some areq \<longrightarrow> handle_accept_inner areq (c_replicas c j) \<noteq> None)
    \<and> (\<forall>a. p_decision p = Some a \<longrightarrow> handle_commit_inner iter scc (propose_commit_request (p_req p) a) (c_replicas c j) \<noteq> None
         \<and> propose_commit iter scc (p_req p) a (c_replicas c j) \<noteq> None)"
proof -
  let ?st = "c_replicas c j" and ?n = "config_size cfg" and ?rep = "pa_replica (p_req p)" and ?slot = "pa_slot (p_req p)"
  have inv: "assign_inv ?n c" "dep_inv ?n c" and ok: "replica_ok ?st"
    using library_reach_inv [OF assms(2,1)] assms(4) by (auto simp: cluster_inv_def progress_inv_def)
  have n: "?n < 2 ^ 31" using assms(1) by (simp add: group_config_def)
  note on = proposal_on_table [OF inv n assms(3,4)]
  have pre: "seq_room ?st \<longrightarrow> handle_pre_accept_inner (p_req p) ?st \<noteq> None"
    using pre_accept_ok [OF ok] on(1) by auto
  have acc: "handle_accept_inner areq ?st \<noteq> None" if "propose_accept_request (p_req p) a = Some areq" for a areq
  proof -
    have "ac_replica areq = ?rep" "ac_slot areq = ?slot" using that by (auto simp: propose_accept_request_def split: prod.splits if_splits)
    then show ?thesis using accept_ok [OF ok, of areq] on(1) by auto
  qed
  have com: "handle_commit_inner iter scc (propose_commit_request (p_req p) a) ?st \<noteq> None \<and> propose_commit iter scc (p_req p) a ?st \<noteq> None"
    if a: "p_decision p = Some a" for a
  proof -
    obtain sq ds fast where at: "a = (sq, ds, fast)" by (cases a)
    have len: "length ds = ?n" using decision_length [OF inv(2) assms(3)] a at by simp
    obtain st1 where ens: "ensure_slot (as_usize ?rep) ?slot ?st = Some st1" using ensure_slot_ok [OF ok on(1)] by blast
    note e = ensured [OF ok on(1) ens]
    have "replica_ok (commit_instance (as_usize ?rep) ?slot (pa_cmds (p_req p)) sq ds st1)"
      by (rule commit_instance_ok) (use e len on(2) in simp_all)
    then obtain st2 st3 where "execute_all_ready iter scc (commit_instance (as_usize ?rep) ?slot (pa_cmds (p_req p)) sq ds st1) = Some st2"
      "execute_all_ready iter scc st1 = Some st3"
      using e(1) executor_total [OF assms(5)] by (meson not_None_eq)
    then show ?thesis
      using ens by (auto simp: handle_commit_inner_def propose_commit_def commit_local_def propose_commit_request_def at Let_def)
  qed
  show ?thesis using pre acc com by blast
qed

section \<open>A run of two leaders\<close>

text \<open>Replica 0 and replica 1 propose to each other, and each learns the other's commit.\<close>

lemma two_leaders_run:
  obtains c insts cf where "library_reach demo_group c"
    and "view 2 c (map (settled 2 insts cf (apply_cmds cmds1 (apply_cmds cmds0 Map.empty))) [0..<2])"
    and "length insts = 2" "\<exists>x. insts ! 0 = [x] \<and> i_status x = COMMITTED \<and> i_cmds x = cmds0" "\<exists>y. insts ! 1 = [y] \<and> i_status y = COMMITTED \<and> i_cmds y = cmds1"
proof -
  let ?init = "map (c_replicas (cluster_init demo_group)) [0..<2]"
  note g = demo_group_ok
  have init: "?init = map (settled 2 (replicate 2 []) Map.empty Map.empty) [0..<2]"
    using g by (simp add: cluster_init_def fresh_settled)
  obtain info insts cf where
    run: "run_propose (\<lambda>_. key_iter) scc_ref [1] 0 cmds0 (peers_of demo_group 0) False ?init
      = Some (info, map (settled 2 insts cf (apply_cmds cmds0 Map.empty)) [0..<2])"
    and h: "history_ok 2 (Suc 0) insts cf" and x: "insts = push_at 0 (proposed cmds0 (inf_seq info) (inf_deps info) COMMITTED) (replicate 2 [])"
    unfolding init
    by (rule one_proposal [where n = 2 and order = "[1]" and i = 0 and iter = "\<lambda>_. key_iter" and scc = scc_ref and cmds = cmds0 and kv = Map.empty,
        OF reference_library g _ fresh_history]) auto
  obtain info' insts' cf' where
    run': "run_propose (\<lambda>_. key_iter) scc_ref [0] 1 cmds1 (peers_of demo_group 1) False (map (settled 2 insts cf (apply_cmds cmds0 Map.empty)) [0..<2])
      = Some (info', map (settled 2 insts' cf' (apply_cmds cmds1 (apply_cmds cmds0 Map.empty))) [0..<2])"
    and x': "insts' = push_at 1 (proposed cmds1 (inf_seq info') (inf_deps info') COMMITTED) insts"
    by (rule one_proposal [where n = 2 and order = "[0]" and i = 1 and iter = "\<lambda>_. key_iter" and scc = scc_ref and cmds = cmds1 and kv = "apply_cmds cmds0 Map.empty",
        OF reference_library g _ h]) auto
  have "view (config_size demo_group) (cluster_init demo_group) ?init" using g by (auto simp: view_def)
  from run_propose_steps [where lib = library_ok, OF run g(1) _ _ _ _ this]
  obtain c where c: "library_reach demo_group c" "view (config_size demo_group) c (map (settled 2 insts cf (apply_cmds cmds0 Map.empty)) [0..<2])"
    using g by (auto simp: cluster_init_def replica_inner_new_def reference_library)
  from run_propose_steps [where lib = library_ok, OF run' g(1) _ _ _ _ c(2)]
  obtain c' where "(library_step demo_group)\<^sup>*\<^sup>* c c'" "view 2 c' (map (settled 2 insts' cf' (apply_cmds cmds1 (apply_cmds cmds0 Map.empty))) [0..<2])"
    using g by (auto simp: settled_def reference_library)
  with c(1) show thesis
    by (intro that [of c' insts' cf']) (auto simp: x x' proposed_def intro: rtranclp_trans)
qed

lemma two_leaders_learned:
  "\<exists>c. library_reach demo_group c \<and> dom (c_proposals c) = {(0, 0), (1, 0)} \<and> cmds_of c (0, 0) = cmds0 \<and> cmds_of c (1, 0) = cmds1
     \<and> (\<forall>j < 2. \<forall>k \<in> {(0, 0), (1, 0)}. committed_at (c_replicas c j) k)"
proof -
  obtain c insts cf where c: "library_reach demo_group c"
    and v: "view 2 c (map (settled 2 insts cf (apply_cmds cmds1 (apply_cmds cmds0 Map.empty))) [0..<2])"
    and insts: "length insts = 2" "\<exists>x. insts ! 0 = [x] \<and> i_status x = COMMITTED \<and> i_cmds x = cmds0" "\<exists>y. insts ! 1 = [y] \<and> i_status y = COMMITTED \<and> i_cmds y = cmds1"
    by (rule two_leaders_run)
  note inv = library_reach_inv [OF c demo_group_ok(1), unfolded demo_group_ok(2)]
  obtain x y where xy: "insts ! 0 = [x]" "i_status x = COMMITTED" "i_cmds x = cmds0" "insts ! 1 = [y]" "i_status y = COMMITTED" "i_cmds y = cmds1"
    using insts by blast
  have st: "c_replicas c j = settled 2 insts cf (apply_cmds cmds1 (apply_cmds cmds0 Map.empty)) j" if "j < 2" for j
    using v that by (simp add: view_def)
  have com: "committed_with (c_replicas c j) (0, 0) (cmds0, i_seq x, i_deps x)" "committed_with (c_replicas c j) (1, 0) (cmds1, i_seq y, i_deps y)" if "j < 2" for j
    using xy insts(1) by (simp_all add: committed_nth st [OF that] settled_def)
  then have dec: "decided c (0, 0) (cmds0, i_seq x, i_deps x)" "decided c (1, 0) (cmds1, i_seq y, i_deps y)"
    using inv unfolding cluster_inv_def commit_inv_def by (meson zero_less_numeral)+
  then have cmds: "cmds_of c (0, 0) = cmds0" "cmds_of c (1, 0) = cmds1"
    using inv unfolding cluster_inv_def decision_inv_def by blast+
  have "slots c 0 = 1" "slots c 1 = 1" using xy by (simp_all add: st settled_def)
  then have "k \<in> {(0, 0), (1, 0)}" if "c_proposals c k = Some p" for k p
  proof -
    have "req_of c k = Some (p_req p)" using that by (simp add: req_of_def)
    then have k: "fst k < 2" "0 \<le> snd k" "snd k < slots c (fst k)"
      using inv unfolding cluster_inv_def assign_inv_def wf_proposals_def by blast+
    then show ?thesis using \<open>slots c 0 = 1\<close> \<open>slots c 1 = 1\<close> by (cases k) (auto simp: less_2_cases_iff)
  qed
  then have "dom (c_proposals c) = {(0, 0), (1, 0)}" using dec by (auto simp: decided_def)
  with c cmds com show ?thesis unfolding committed_at_with by blast
qed

theorem stores_replay_decisions_witness:
  "\<exists>c ks. library_reach demo_group c \<and> committed_at (c_replicas c 0) (1, 0) \<and> distinct ks
     \<and> set ks = {k. executed_at (c_replicas c 0) k} \<and> r_store (c_replicas c 0) = replay c ks"
proof -
  obtain c where c: "library_reach demo_group c" "\<forall>j < 2. \<forall>k \<in> {(0, 0), (1, 0)}. committed_at (c_replicas c j) k"
    using two_leaders_learned [of "[put ''a'' ''1'']" "[put ''b'' ''2'']"] by blast
  have "committed_at (c_replicas c 0) (1, 0)" using c(2) by simp
  with stores_replay_decisions [OF demo_group_ok(1) c(1), of 0] c(1) show ?thesis unfolding demo_group_ok(2) by auto
qed

theorem all_learned_all_executed_witness:
  "\<exists>c ks. library_reach demo_group c \<and> ready_keys (c_replicas c 1) = {} \<and> distinct ks \<and> set ks = {(0, 0), (1, 0)}
     \<and> (\<forall>k \<in> set ks. executed_at (c_replicas c 1) k) \<and> r_store (c_replicas c 1) = replay c ks"
proof -
  obtain c where c: "library_reach demo_group c" "dom (c_proposals c) = {(0, 0), (1, 0)}"
    "\<forall>j < 2. \<forall>k \<in> {(0, 0), (1, 0)}. committed_at (c_replicas c j) k"
    using two_leaders_learned [of "[put ''a'' ''1'']" "[put ''b'' ''2'']"] by blast
  have "committed_at (c_replicas c 1) k" if "c_proposals c k \<noteq> None" for k
    using c(2,3) that by (metis domI domIff one_less_numeral_iff semiring_norm(76))
  with all_learned_all_executed [OF demo_group_ok(1) c(1), of 1] c(1,2) show ?thesis
    unfolding demo_group_ok(2) by (metis one_less_numeral_iff semiring_norm(76))
qed

theorem group_never_panics_witness:
  "\<exists>c p a. library_reach demo_group c \<and> c_proposals c (0, 0) = Some p \<and> p_decision p = Some a
     \<and> handle_commit_inner key_iter scc_ref (propose_commit_request (p_req p) a) (c_replicas c 1) \<noteq> None"
proof -
  obtain c where c: "library_reach demo_group c" "\<forall>j < 2. \<forall>k \<in> {(0, 0), (1, 0)}. committed_at (c_replicas c j) k"
    using two_leaders_learned [of "[put ''a'' ''1'']" "[put ''b'' ''2'']"] by blast
  have "committed_at (c_replicas c 0) (0, 0)" using c(2) by simp
  then obtain v where "committed_with (c_replicas c 0) (0, 0) v" by (auto simp: committed_at_with)
  then have "decided c (0, 0) v"
    using library_reach_inv [OF c(1) demo_group_ok(1)] unfolding demo_group_ok(2) cluster_inv_def commit_inv_def by (meson zero_less_numeral)
  then obtain p a where p: "c_proposals c (0, 0) = Some p" "p_decision p = Some a" by (auto simp: decided_def)
  with group_never_panics [OF demo_group_ok(1) c(1) p(1) _ reference_library, of 1] c(1) show ?thesis
    unfolding demo_group_ok(2) by (metis one_less_numeral_iff semiring_norm(76))
qed

end
