(* ===== verification/Epaxos_Tests.thy ===== *)
theory Epaxos_Tests
  imports Epaxos_Progress
begin

text \<open>
  The tests of \<^verbatim>\<open>examples/epaxos/main.rs\<close> and the test helpers of \<^verbatim>\<open>replica.rs\<close>, over whole calls of
  \<^verbatim>\<open>propose\<close> and \<^verbatim>\<open>recover\<close>: that their assertions hold in the model, under both orders in which the two
  peers can answer. The replies and commits that a test waits for with a sleep are delivered. A test runs
  in the group that \<^verbatim>\<open>setup\<close> starts; since a run depends on a configuration only through its node IDs,
  it can be evaluated in a concrete group. \<^verbatim>\<open>test_multiple_leaders\<close>, two concurrent proposals, is about every
  interleaving of the steps of the group.
\<close>

section \<open>The helpers of the tests\<close>

definition get_store_value :: "string \<Rightarrow> replica_inner \<Rightarrow> string option" where
  "get_store_value key st = r_store st key"

definition store_snapshot :: "replica_inner \<Rightarrow> string \<Rightarrow> string option" where
  "store_snapshot st = r_store st"

definition commit_instance_raw ::
  "(key set \<Rightarrow> key list) \<Rightarrow> scc_fn \<Rightarrow> nat \<Rightarrow> i32 \<Rightarrow> command list \<Rightarrow> i32 \<Rightarrow> i32 list \<Rightarrow> replica_inner \<Rightarrow> replica_inner option" where
  "commit_instance_raw iter tarjan_scc r slot cmds sq deps st = do {
     st1 \<leftarrow> ensure_slot r slot st;
     let st2 = (if i_status (r_instances st1 ! r ! nat slot) < COMMITTED
       then set_instance r slot (\<lambda>inst. inst\<lparr>i_cmds := cmds, i_seq := sq, i_deps := deps, i_status := COMMITTED\<rparr>) st1
       else st1) in
     execute_all_ready iter tarjan_scc st2
   }"

definition inject_committed_instance :: "nat \<Rightarrow> i32 \<Rightarrow> i32 \<Rightarrow> replica_inner \<Rightarrow> replica_inner option" where
  "inject_committed_instance r slot sq st = do {
     st1 \<leftarrow> ensure_slot r slot st;
     let st2 = set_instance r slot
       (\<lambda>inst. inst\<lparr>i_cmds := [], i_seq := sq, i_deps := replicate (r_n st) (- 1), i_status := COMMITTED\<rparr>) st1 in
     Some (st2\<lparr>r_executed := (r_executed st2)[r := (r_executed st2 ! r)[nat slot := True]]\<rparr>)
   }"

definition inject_preaccepted_instance ::
  "nat \<Rightarrow> i32 \<Rightarrow> command list \<Rightarrow> i32 \<Rightarrow> i32 list \<Rightarrow> replica_inner \<Rightarrow> replica_inner option" where
  "inject_preaccepted_instance r slot cmds sq deps st = do {
     st1 \<leftarrow> ensure_slot r slot st;
     Some (set_instance r slot
       (\<lambda>inst. inst\<lparr>i_cmds := cmds, i_seq := sq, i_deps := deps, i_status := PREACCEPTED, i_ballot := 0\<rparr>) st1)
   }"

definition inject_accepted_instance ::
  "nat \<Rightarrow> i32 \<Rightarrow> command list \<Rightarrow> i32 \<Rightarrow> i32 list \<Rightarrow> replica_inner \<Rightarrow> replica_inner option" where
  "inject_accepted_instance r slot cmds sq deps st = do {
     st1 \<leftarrow> ensure_slot r slot st;
     Some (set_instance r slot
       (\<lambda>inst. inst\<lparr>i_cmds := cmds, i_seq := sq, i_deps := deps, i_status := ACCEPTED, i_ballot := 0\<rparr>) st1)
   }"

definition inject_conflict :: "string \<Rightarrow> i32 \<Rightarrow> nat \<Rightarrow> i32 \<Rightarrow> replica_inner \<Rightarrow> replica_inner option" where
  "inject_conflict key sq peer_replica peer_slot st =
     (let n = r_n st;
          entry = (case r_conflicts st key of Some e \<Rightarrow> e | None \<Rightarrow> \<lparr>ce_max_seq = 0, ce_deps = replicate n (- 1)\<rparr>);
          entry' = entry\<lparr>ce_max_seq := max (ce_max_seq entry) sq\<rparr>
      in if peer_replica < n
         then (if length (ce_deps entry) \<le> peer_replica then None
               else Some (st\<lparr>r_conflicts := (r_conflicts st)(key \<mapsto>
                 entry'\<lparr>ce_deps := (ce_deps entry)[peer_replica := max (ce_deps entry ! peer_replica) peer_slot]\<rparr>)\<rparr>))
         else Some (st\<lparr>r_conflicts := (r_conflicts st)(key \<mapsto> entry')\<rparr>))"

section \<open>The tests\<close>

text \<open>A failed assertion is a panic. A test starts with a group of three.\<close>

definition assert :: "bool \<Rightarrow> unit option" where
  "assert b = (if b then Some () else None)"

definition on_replica :: "nat \<Rightarrow> (replica_inner \<Rightarrow> replica_inner option) \<Rightarrow> replica_inner list \<Rightarrow> replica_inner list option" where
  "on_replica i f rs = (if i < length rs then map_option (\<lambda>st. rs[i := st]) (f (rs ! i)) else None)"

definition in_group :: "(string \<Rightarrow> string option) \<Rightarrow> u16 \<Rightarrow> (replica_inner list \<Rightarrow> configuration list \<Rightarrow> 'a option) \<Rightarrow> 'a option" where
  "in_group sock base body = do {
     (replicas, mgr :: unit mstate, all_cfg, peers_cfgs) \<leftarrow> setup_cluster sock 3 base;
     body replicas peers_cfgs
   }"

type_synonym iter_fn = "nat \<Rightarrow> key set \<Rightarrow> key list"

definition fast_path_in :: "iter_fn \<Rightarrow> scc_fn \<Rightarrow> nat list \<Rightarrow> replica_inner list \<Rightarrow> configuration list \<Rightarrow> unit option" where
  "fast_path_in iter scc order replicas peers_cfgs = do {
     (info, rs) \<leftarrow> run_propose iter scc order 0 [put ''hello'' ''world''] (peers_cfgs ! 0) False replicas;
     assert (inf_fast_path info);
     assert (list_all (\<lambda>r. get_store_value ''hello'' r = Some ''world'') rs)
   }"

definition test_fast_path :: "(string \<Rightarrow> string option) \<Rightarrow> iter_fn \<Rightarrow> scc_fn \<Rightarrow> nat list \<Rightarrow> unit option" where
  "test_fast_path sock iter scc order = in_group sock 19030 (fast_path_in iter scc order)"

definition sequential_commands_in :: "iter_fn \<Rightarrow> scc_fn \<Rightarrow> nat list \<Rightarrow> replica_inner list \<Rightarrow> configuration list \<Rightarrow> unit option" where
  "sequential_commands_in iter scc order replicas peers_cfgs = (let keys = map (\<lambda>i. ''k'' @ show_nat i) [0..<5] in do {
     (infos, rs) \<leftarrow> run_proposals iter scc (map (\<lambda>key. (0, order, [put key ''val''])) keys) peers_cfgs replicas;
     assert (list_all (\<lambda>info. 0 \<le> inf_slot info) infos);
     assert (list_all (\<lambda>key. store_snapshot (rs ! 0) key \<noteq> None) keys)
   })"

definition test_sequential_commands :: "(string \<Rightarrow> string option) \<Rightarrow> iter_fn \<Rightarrow> scc_fn \<Rightarrow> nat list \<Rightarrow> unit option" where
  "test_sequential_commands sock iter scc order = in_group sock 19033 (sequential_commands_in iter scc order)"

definition slow_path_in :: "iter_fn \<Rightarrow> scc_fn \<Rightarrow> nat list \<Rightarrow> replica_inner list \<Rightarrow> configuration list \<Rightarrow> unit option" where
  "slow_path_in iter scc order replicas peers_cfgs = do {
     rs \<leftarrow> those (map (inject_committed_instance 1 99 5) replicas);
     rs \<leftarrow> on_replica 1 (inject_conflict ''x'' 5 1 99) rs;
     (info, rs) \<leftarrow> run_propose iter scc order 0 [put ''x'' ''slow''] (peers_cfgs ! 0) False rs;
     assert (\<not> inf_fast_path info);
     assert (list_all (\<lambda>r. get_store_value ''x'' r = Some ''slow'') rs)
   }"

definition test_slow_path :: "(string \<Rightarrow> string option) \<Rightarrow> iter_fn \<Rightarrow> scc_fn \<Rightarrow> nat list \<Rightarrow> unit option" where
  "test_slow_path sock iter scc order = in_group sock 19036 (slow_path_in iter scc order)"

definition test_execution_ordering_out_of_order_delivery :: "(key set \<Rightarrow> key list) \<Rightarrow> scc_fn \<Rightarrow> unit option" where
  "test_execution_ordering_out_of_order_delivery iter scc = do {
     st \<leftarrow> commit_instance_raw iter scc 0 1 [put ''x'' ''B''] 2 [0, - 1, - 1] (replica_inner_new 0 3);
     assert (get_store_value ''x'' st = None);
     st \<leftarrow> commit_instance_raw iter scc 0 0 [put ''x'' ''A''] 1 [- 1, - 1, - 1] st;
     assert (get_store_value ''x'' st = Some ''B'')
   }"

definition test_scc_cycle_tie_broken_by_seq :: "(key set \<Rightarrow> key list) \<Rightarrow> scc_fn \<Rightarrow> unit option" where
  "test_scc_cycle_tie_broken_by_seq iter scc = do {
     st \<leftarrow> commit_instance_raw iter scc 0 0 [put ''x'' ''from_A''] 1 [- 1, 0, - 1] (replica_inner_new 0 3);
     assert (get_store_value ''x'' st = None);
     st \<leftarrow> commit_instance_raw iter scc 1 0 [put ''x'' ''from_B''] 2 [0, - 1, - 1] st;
     assert (get_store_value ''x'' st = Some ''from_B'')
   }"

definition recovery_accepted_in :: "iter_fn \<Rightarrow> scc_fn \<Rightarrow> nat list \<Rightarrow> replica_inner list \<Rightarrow> configuration list \<Rightarrow> unit option" where
  "recovery_accepted_in iter scc order replicas peers_cfgs = do {
     rs \<leftarrow> on_replica 1 (inject_accepted_instance 0 0 [put ''x'' ''recovered''] 1 [- 1, - 1, - 1]) replicas;
     (info, rs) \<leftarrow> run_recover iter scc order 2 0 0 (peers_cfgs ! 2) rs;
     assert (\<not> inf_fast_path info);
     assert (get_store_value ''x'' (rs ! 2) = Some ''recovered'')
   }"

definition test_recovery_accepted :: "(string \<Rightarrow> string option) \<Rightarrow> iter_fn \<Rightarrow> scc_fn \<Rightarrow> nat list \<Rightarrow> unit option" where
  "test_recovery_accepted sock iter scc order = in_group sock 19042 (recovery_accepted_in iter scc order)"

definition recovery_preaccepted_fast_path_in :: "iter_fn \<Rightarrow> scc_fn \<Rightarrow> nat list \<Rightarrow> replica_inner list \<Rightarrow> configuration list \<Rightarrow> unit option" where
  "recovery_preaccepted_fast_path_in iter scc order replicas peers_cfgs = do {
     rs \<leftarrow> on_replica 0 (inject_preaccepted_instance 0 0 [put ''x'' ''fast_recovered''] 1 [- 1, - 1, - 1]) replicas;
     rs \<leftarrow> on_replica 1 (inject_preaccepted_instance 0 0 [put ''x'' ''fast_recovered''] 1 [- 1, - 1, - 1]) rs;
     (info, rs) \<leftarrow> run_recover iter scc order 2 0 0 (peers_cfgs ! 2) rs;
     assert (inf_fast_path info);
     assert (get_store_value ''x'' (rs ! 2) = Some ''fast_recovered'')
   }"

definition test_recovery_preaccepted_fast_path :: "(string \<Rightarrow> string option) \<Rightarrow> iter_fn \<Rightarrow> scc_fn \<Rightarrow> nat list \<Rightarrow> unit option" where
  "test_recovery_preaccepted_fast_path sock iter scc order = in_group sock 19045 (recovery_preaccepted_fast_path_in iter scc order)"

definition thrifty_commit_in :: "iter_fn \<Rightarrow> scc_fn \<Rightarrow> nat list \<Rightarrow> replica_inner list \<Rightarrow> configuration list \<Rightarrow> unit option" where
  "thrifty_commit_in iter scc order replicas peers_cfgs = do {
     (info, rs) \<leftarrow> run_propose iter scc order 0 [put ''thrifty_key'' ''thrifty_val''] (peers_cfgs ! 0) True replicas;
     assert (inf_fast_path info);
     assert (get_store_value ''thrifty_key'' (rs ! 0) = Some ''thrifty_val'');
     let peer_vals = map (get_store_value ''thrifty_key'') (tl rs) in do {
     assert (length (filter (\<lambda>v. v \<noteq> None) peer_vals) = 1);
     assert (length (filter (\<lambda>v. v = None) peer_vals) = 1)
   }}"

definition test_thrifty_commit :: "(string \<Rightarrow> string option) \<Rightarrow> iter_fn \<Rightarrow> scc_fn \<Rightarrow> nat list \<Rightarrow> unit option" where
  "test_thrifty_commit sock iter scc order = in_group sock 19048 (thrifty_commit_in iter scc order)"

text \<open>
  \<^verbatim>\<open>test_multiple_leaders\<close>: the state after both proposals were joined and their commits, for which the
  test sleeps, were delivered; and the assertions.
\<close>

definition multiple_leaders_joined :: "nat \<Rightarrow> cluster \<Rightarrow> bool" where
  "multiple_leaders_joined n c \<longleftrightarrow> dom (c_proposals c) = {(0, 0), (1, 0)}
     \<and> cmds_of c (0, 0) = [put ''leader0_key'' ''v0''] \<and> cmds_of c (1, 0) = [put ''leader1_key'' ''v1'']
     \<and> (\<forall>j < n. \<forall>k \<in> {(0, 0), (1, 0)}. committed_at (c_replicas c j) k \<or> executed_at (c_replicas c j) k)"

definition multiple_leaders_asserts :: "cluster \<Rightarrow> bool" where
  "multiple_leaders_asserts c \<longleftrightarrow> store_snapshot (c_replicas c 0) ''leader0_key'' \<noteq> None
     \<and> store_snapshot (c_replicas c 1) ''leader1_key'' \<noteq> None"

section \<open>Only the IDs of a configuration matter\<close>

lemma indices_ids: "node_ids p = node_ids p' \<Longrightarrow> indices p = indices p'"
  by (simp add: indices_def)

lemma size_ids: "node_ids p = node_ids p' \<Longrightarrow> config_size p = config_size p'"
  unfolding node_ids_def config_size_def by (metis length_map)

lemma commit_peers_ids:
  assumes ids: "node_ids p = node_ids p'" and d: "distinct_ids p"
  shows "node_ids (commit_peers thrifty p) = node_ids (commit_peers thrifty p')"
proof -
  have "distinct_ids p'" using d ids by (simp add: distinct_ids_def)
  then have "node_ids (sub_config p xs) = node_ids (sub_config p' xs)" for xs
    using d ids by (simp add: sub_config_ids)
  moreover have "map nid (take k (cfg_nodes p)) = map nid (take k (cfg_nodes p'))" for k
    using ids by (simp add: node_ids_def take_map [symmetric])
  ultimately show ?thesis
    using ids size_ids [OF ids] by (simp add: commit_peers_def slow_quorum_peers_def total_replicas_def)
qed

lemma run_propose_ids:
  assumes ids: "node_ids p = node_ids p'" and d: "distinct_ids p"
  shows "run_propose iter scc order i cmds p thrifty rs = run_propose iter scc order i cmds p' thrifty rs"
proof -
  have size: "config_size p = config_size p'" by (rule size_ids [OF ids])
  then have slow: "slow_quorum_peers p = slow_quorum_peers p'" "total_replicas p = total_replicas p'" and call: "call_of p = call_of p'"
    by (simp_all add: slow_quorum_peers_def total_replicas_def call_of_def)
  have closure: "pre_accept_quorum req p = pre_accept_quorum req p'" for req
    by (intro ext) (unfold pre_accept_quorum_def slow, rule refl)
  have idx: "indices (commit_peers thrifty p) = indices (commit_peers thrifty p')"
    by (rule indices_ids [OF commit_peers_ids [OF assms]])
  show ?thesis
    unfolding run_propose_def run_accept_def propose_pre_accept_def propose_accept_def call closure slow idx ..
qed

lemma run_recover_ids:
  assumes ids: "node_ids p = node_ids p'"
  shows "run_recover iter scc order i r slot p rs = run_recover iter scc order i r slot p' rs"
  unfolding run_recover_def call_of_def size_ids [OF ids] indices_ids [OF ids] ..

text \<open>A group of three, as far as a run can tell.\<close>

definition test_peers :: "nat \<Rightarrow> configuration" where
  "test_peers i = \<lparr>cfg_nodes = map (\<lambda>j. \<lparr>nid = node_id_of j, naddr = [], nchan = j\<rparr>) (filter (\<lambda>j. j \<noteq> i) [0..<3])\<rparr>"

lemma test_peers_ids: "group_config cfg \<Longrightarrow> config_size cfg = 3 \<Longrightarrow> i < 3 \<Longrightarrow> node_ids (peers_of cfg i) = node_ids (test_peers i)"
  by (simp add: peers_node_ids) (simp add: test_peers_def node_ids_def)

text \<open>The addresses of the group parse to distinct socket addresses.\<close>

definition addresses_ok :: "(string \<Rightarrow> string option) \<Rightarrow> u16 \<Rightarrow> bool" where
  "addresses_ok sock base \<longleftrightarrow>
     (\<exists>norms. distinct norms \<and> map sock (map (\<lambda>i. local_addr (base + of_nat i)) [0..<3]) = map Some norms)"

lemma in_group_run:
  fixes base :: u16
  assumes ok: "addresses_ok sock base" and fit: "unat base + 3 \<le> 2 ^ 16"
    and body: "\<And>cfg. group_config cfg \<Longrightarrow> config_size cfg = 3 \<Longrightarrow>
      body (map (\<lambda>i. replica_inner_new i 3) [0..<3]) (map (peers_of cfg) [0..<3]) = x"
  shows "in_group sock base body = x"
proof -
  obtain norms where "map sock (map (\<lambda>i. local_addr (base + of_nat i)) [0..<3]) = map Some norms" "distinct norms"
    using ok by (auto simp: addresses_ok_def)
  from setup_returns [OF fit this] obtain replicas and mgr :: "unit mstate" and cfg peers_cfgs
    where run: "setup_cluster sock 3 base = Some (replicas, mgr, cfg, peers_cfgs)" by fastforce
  note parts = setup_parts [OF run]
  have "replicas = map (\<lambda>i. replica_inner_new i 3) [0..<3]"
    unfolding parts(3) using parts(2) by (simp add: cluster_init_def)
  with body [OF parts(1,2)] parts(4) run show ?thesis by (simp add: in_group_def)
qed


section \<open>Properties\<close>

lemma run_in_group:
  assumes "group_config cfg" "config_size cfg = 3" "i < 3"
  shows "run_propose iter scc order l cmds (map (peers_of cfg) [0..<3] ! i) thrifty = run_propose iter scc order l cmds (map test_peers [0..<3] ! i) thrifty"
    and "run_recover iter scc order l r slot (map (peers_of cfg) [0..<3] ! i) = run_recover iter scc order l r slot (map test_peers [0..<3] ! i)"
proof -
  have peers: "map (peers_of cfg) [0..<3] ! i = peers_of cfg i" "map test_peers [0..<3] ! i = test_peers i"
    using assms(3) by (simp_all only: nth_map length_upt nth_upt) simp_all
  have ids: "node_ids (peers_of cfg i) = node_ids (test_peers i)" "distinct_ids (peers_of cfg i)"
    using test_peers_ids [OF assms] peers_distinct [OF assms(1)] assms(2,3) by simp_all
  show "run_propose iter scc order l cmds (map (peers_of cfg) [0..<3] ! i) thrifty = run_propose iter scc order l cmds (map test_peers [0..<3] ! i) thrifty"
    "run_recover iter scc order l r slot (map (peers_of cfg) [0..<3] ! i) = run_recover iter scc order l r slot (map test_peers [0..<3] ! i)"
    unfolding peers by (rule ext, rule run_propose_ids [OF ids], rule ext, rule run_recover_ids [OF ids(1)])
qed

lemma proposals_in_group:
  assumes "group_config cfg" "config_size cfg = 3" "\<forall>(i, order, cmds) \<in> set ps. i < 3"
  shows "run_proposals iter scc ps (map (peers_of cfg) [0..<3]) rs = run_proposals iter scc ps (map test_peers [0..<3]) rs"
  using assms(3)
proof (induction ps arbitrary: rs)
  case (Cons p ps)
  obtain i order cmds where p: "p = (i, order, cmds)" by (cases p)
  have i: "i < 3" "\<forall>(i, order, cmds) \<in> set ps. i < 3" using Cons.prems by (auto simp: p)
  show ?case unfolding p run_proposals.simps run_in_group(1) [OF assms(1,2) i(1)] Cons.IH [OF i(2)] ..
qed simp


text \<open>The runs, evaluated.\<close>

abbreviation test_replicas :: "replica_inner list" where
  "test_replicas \<equiv> map (\<lambda>i. replica_inner_new i 3) [0..<3]"

abbreviation test_configs :: "configuration list" where
  "test_configs \<equiv> map test_peers [0..<3]"

lemma fast_path_evaluated: "fast_path_in (\<lambda>_. key_iter) scc_ref [1, 2] test_replicas test_configs = Some ()
  \<and> fast_path_in (\<lambda>_. key_iter) scc_ref [2, 1] test_replicas test_configs = Some ()"
  by code_simp

lemma sequential_evaluated: "sequential_commands_in (\<lambda>_. key_iter) scc_ref [1, 2] test_replicas test_configs = Some ()
  \<and> sequential_commands_in (\<lambda>_. key_iter) scc_ref [2, 1] test_replicas test_configs = Some ()"
  by code_simp

lemma slow_path_evaluated: "slow_path_in (\<lambda>_. key_iter) scc_ref [1, 2] test_replicas test_configs = Some ()
  \<and> slow_path_in (\<lambda>_. key_iter) scc_ref [2, 1] test_replicas test_configs = Some ()"
  by code_simp

lemma recovery_evaluated: "recovery_accepted_in (\<lambda>_. key_iter) scc_ref [0, 1] test_replicas test_configs = Some ()
  \<and> recovery_accepted_in (\<lambda>_. key_iter) scc_ref [1, 0] test_replicas test_configs = Some ()
  \<and> recovery_preaccepted_fast_path_in (\<lambda>_. key_iter) scc_ref [0, 1] test_replicas test_configs = Some ()
  \<and> recovery_preaccepted_fast_path_in (\<lambda>_. key_iter) scc_ref [1, 0] test_replicas test_configs = Some ()"
  by code_simp

lemma thrifty_evaluated: "thrifty_commit_in (\<lambda>_. key_iter) scc_ref [1, 2] test_replicas test_configs = Some ()
  \<and> thrifty_commit_in (\<lambda>_. key_iter) scc_ref [2, 1] test_replicas test_configs = Some ()"
  by code_simp

lemma executor_evaluated: "test_execution_ordering_out_of_order_delivery key_iter scc_ref = Some ()
  \<and> test_scc_cycle_tie_broken_by_seq key_iter scc_ref = Some ()"
  by code_simp


text \<open>What the scenarios do in any group of three.\<close>

lemma scenarios_in_group:
  assumes "group_config cfg" "config_size cfg = 3"
  shows "fast_path_in iter scc order rs (map (peers_of cfg) [0..<3]) = fast_path_in iter scc order rs test_configs"
    and "sequential_commands_in iter scc order rs (map (peers_of cfg) [0..<3]) = sequential_commands_in iter scc order rs test_configs"
    and "slow_path_in iter scc order rs (map (peers_of cfg) [0..<3]) = slow_path_in iter scc order rs test_configs"
    and "recovery_accepted_in iter scc order rs (map (peers_of cfg) [0..<3]) = recovery_accepted_in iter scc order rs test_configs"
    and "recovery_preaccepted_fast_path_in iter scc order rs (map (peers_of cfg) [0..<3]) = recovery_preaccepted_fast_path_in iter scc order rs test_configs"
    and "thrifty_commit_in iter scc order rs (map (peers_of cfg) [0..<3]) = thrifty_commit_in iter scc order rs test_configs"
proof -
  have i: "(0::nat) < 3" "(2::nat) < 3" by simp_all
  have "run_proposals iter scc (map (\<lambda>key. (0, order, [put key ''val''])) keys) (map (peers_of cfg) [0..<3]) rs
      = run_proposals iter scc (map (\<lambda>key. (0, order, [put key ''val''])) keys) test_configs rs" for keys
    by (rule proposals_in_group [OF assms]) auto
  note runs = this run_in_group [OF assms i(1)] run_in_group [OF assms i(2)]
  show "fast_path_in iter scc order rs (map (peers_of cfg) [0..<3]) = fast_path_in iter scc order rs test_configs"
    "sequential_commands_in iter scc order rs (map (peers_of cfg) [0..<3]) = sequential_commands_in iter scc order rs test_configs"
    "slow_path_in iter scc order rs (map (peers_of cfg) [0..<3]) = slow_path_in iter scc order rs test_configs"
    "recovery_accepted_in iter scc order rs (map (peers_of cfg) [0..<3]) = recovery_accepted_in iter scc order rs test_configs"
    "recovery_preaccepted_fast_path_in iter scc order rs (map (peers_of cfg) [0..<3]) = recovery_preaccepted_fast_path_in iter scc order rs test_configs"
    "thrifty_commit_in iter scc order rs (map (peers_of cfg) [0..<3]) = thrifty_commit_in iter scc order rs test_configs"
    by (unfold fast_path_in_def sequential_commands_in_def slow_path_in_def recovery_accepted_in_def
        recovery_preaccepted_fast_path_in_def thrifty_commit_in_def runs) (rule refl)+
qed

lemma ports_in_u16: "unat (b :: u16) + 3 \<le> 2 ^ 16" if "b \<in> {19030, 19033, 19036, 19042, 19045, 19048}" for b
  using that by auto

text \<open>
  The scenarios of the repository's tests hold in the model: with the group started by \<^verbatim>\<open>setup\<close>, the
  reference graph library and the replies arriving in either order, every assertion of the tests for the
  fast path, successive commands, the slow path, both recoveries and thrifty commits is true, and so are
  those of the two tests of the executor.
\<close>

theorem epaxos_tests_pass:
  assumes "\<forall>base \<in> {19030, 19033, 19036, 19042, 19045, 19048}. addresses_ok sock base"
    and "order \<in> {[1, 2], [2, 1]}" and "order' \<in> {[0, 1], [1, 0]}"
  shows "test_fast_path sock (\<lambda>_. key_iter) scc_ref order = Some ()
    \<and> test_sequential_commands sock (\<lambda>_. key_iter) scc_ref order = Some ()
    \<and> test_slow_path sock (\<lambda>_. key_iter) scc_ref order = Some ()
    \<and> test_execution_ordering_out_of_order_delivery key_iter scc_ref = Some ()
    \<and> test_scc_cycle_tie_broken_by_seq key_iter scc_ref = Some ()
    \<and> test_recovery_accepted sock (\<lambda>_. key_iter) scc_ref order' = Some ()
    \<and> test_recovery_preaccepted_fast_path sock (\<lambda>_. key_iter) scc_ref order' = Some ()
    \<and> test_thrifty_commit sock (\<lambda>_. key_iter) scc_ref order = Some ()"
proof (intro conjI)
  note order = assms(2,3) [unfolded insert_iff empty_iff]
  note defs = test_fast_path_def test_sequential_commands_def test_slow_path_def test_recovery_accepted_def
    test_recovery_preaccepted_fast_path_def test_thrifty_commit_def
  note run = in_group_run [OF bspec [OF assms(1)] ports_in_u16]
  show "test_fast_path sock (\<lambda>_. key_iter) scc_ref order = Some ()"
    unfolding defs by (rule run) (use order fast_path_evaluated in \<open>auto simp: scenarios_in_group\<close>)
  show "test_sequential_commands sock (\<lambda>_. key_iter) scc_ref order = Some ()"
    unfolding defs by (rule run) (use order sequential_evaluated in \<open>auto simp: scenarios_in_group\<close>)
  show "test_slow_path sock (\<lambda>_. key_iter) scc_ref order = Some ()"
    unfolding defs by (rule run) (use order slow_path_evaluated in \<open>auto simp: scenarios_in_group\<close>)
  show "test_recovery_accepted sock (\<lambda>_. key_iter) scc_ref order' = Some ()"
    "test_recovery_preaccepted_fast_path sock (\<lambda>_. key_iter) scc_ref order' = Some ()"
    unfolding defs by (rule run; use order recovery_evaluated in \<open>auto simp: scenarios_in_group\<close>)+
  show "test_thrifty_commit sock (\<lambda>_. key_iter) scc_ref order = Some ()"
    unfolding defs by (rule run) (use order thrifty_evaluated in \<open>auto simp: scenarios_in_group\<close>)
qed (simp_all add: executor_evaluated)


lemma addresses_ok_Some: "addresses_ok Some base"
proof -
  have "distinct (map (\<lambda>i. local_addr (base + of_nat i)) [0..<3])"
    by (simp add: upt_rec local_addr_inj)
  then show ?thesis
    unfolding addresses_ok_def by blast
qed

theorem epaxos_tests_pass_witness:
  "test_slow_path Some (\<lambda>_. key_iter) scc_ref [2, 1] = Some ()
   \<and> test_recovery_preaccepted_fast_path Some (\<lambda>_. key_iter) scc_ref [0, 1] = Some ()"
  using epaxos_tests_pass [of Some "[2, 1]" "[0, 1]"] addresses_ok_Some ports_in_u16 by blast

text \<open>
  C25. Two leaders at once. In any group, whatever the interleaving of the two proposals of the test and
  whatever messages were delayed or repeated: once both instances are learned, the stores of all replicas
  are equal and hold both keys, so the assertions of \<^verbatim>\<open>test_multiple_leaders\<close> hold.
\<close>

theorem multiple_leaders_pass:
  assumes "group_config cfg" and "2 \<le> config_size cfg" and "library_reach cfg c" and "multiple_leaders_joined (config_size cfg) c"
  shows "multiple_leaders_asserts c
    \<and> (\<forall>j < config_size cfg. r_store (c_replicas c j) = [''leader0_key'' \<mapsto> ''v0'', ''leader1_key'' \<mapsto> ''v1''])"
proof -
  let ?kv = "[''leader0_key'' \<mapsto> ''v0'', ''leader1_key'' \<mapsto> ''v1''] :: string \<Rightarrow> string option"
  have joined: "dom (c_proposals c) = {(0, 0), (1, 0)}" "cmds_of c (0, 0) = [put ''leader0_key'' ''v0'']" "cmds_of c (1, 0) = [put ''leader1_key'' ''v1'']"
    using assms(4) by (simp_all add: multiple_leaders_joined_def)
  have store: "r_store (c_replicas c j) = ?kv" if j: "j < config_size cfg" for j
  proof -
    have "committed_at (c_replicas c j) k \<or> executed_at (c_replicas c j) k" if "c_proposals c k \<noteq> None" for k
      using assms(4) j that unfolding multiple_leaders_joined_def by blast
    then have "\<exists>ks. distinct ks \<and> set ks = {(0, 0), (1, 0)} \<and> r_store (c_replicas c j) = replay c ks"
      using learned_all_executed [OF assms(1,3) j] joined(1) by metis
    then obtain ks where ks: "distinct ks" "set ks = {(0, 0), (1, 0)}" "r_store (c_replicas c j) = replay c ks" by blast
    have "length ks = Suc (Suc 0)" using distinct_card [OF ks(1)] by (simp add: ks(2))
    then obtain a b where "ks = [a, b]" unfolding length_Suc_conv by auto
    with ks(1,2) have "ks = [(0, 0), (1, 0)] \<or> ks = [(1, 0), (0, 0)]" by (auto simp: doubleton_eq_iff)
    then show ?thesis using ks(3) joined(2,3) by (auto simp: replay_def put_def fun_eq_iff)
  qed
  then have "r_store (c_replicas c 0) = ?kv" "r_store (c_replicas c 1) = ?kv" using assms(2) by simp_all
  with store show ?thesis by (simp add: multiple_leaders_asserts_def store_snapshot_def)
qed

theorem multiple_leaders_pass_witness:
  "\<exists>c. library_reach demo_group c \<and> multiple_leaders_joined 2 c \<and> multiple_leaders_asserts c"
proof -
  obtain c where c: "library_reach demo_group c" "multiple_leaders_joined 2 c"
    using two_leaders_learned [of "[put ''leader0_key'' ''v0'']" "[put ''leader1_key'' ''v1'']"] unfolding multiple_leaders_joined_def by blast
  with multiple_leaders_pass [OF demo_group_ok(1) _ c(1)] show ?thesis unfolding demo_group_ok(2) by blast
qed

end
