(* ===== verification/Spec2Isabelle.thy ===== *)
theory Spec2Isabelle
  imports Node_Manager Majorities Health_Probe Codegen Key_Value_Main Epaxos_Tests
begin

text \<open>
  A verification library for \<^bold>\<open>quorums\<close>, a Rust runtime for quorum calls in the style of gorums, with
  its build-time code generator and its two examples.

  \<^bold>\<open>The program.\<close> A client holds a \<^verbatim>\<open>Manager\<close> (\<^verbatim>\<open>src/manager.rs\<close>), a pool of \<^verbatim>\<open>Node\<close>s
  (\<^verbatim>\<open>src/node.rs\<close>), and makes \<^verbatim>\<open>Configuration\<close>s of them (\<^verbatim>\<open>src/config.rs\<close>). Each node owns a
  \<^verbatim>\<open>NodeChannel\<close> (\<^verbatim>\<open>src/channel.rs\<close>): a task that connects, sends queued requests over one stream and
  reconnects, with a \<^verbatim>\<open>Router\<close> (\<^verbatim>\<open>src/router.rs\<close>) that matches responses to callers by sequence
  number. The call types (\<^verbatim>\<open>src/call_types.rs\<close>, \<^verbatim>\<open>src/method.rs\<close>) send a request to one node or fan it
  out to a configuration, after running interceptors (\<^verbatim>\<open>src/interceptor.rs\<close>); the caller aggregates the
  replies with the terminal methods of \<^verbatim>\<open>Responses\<close>, \<^verbatim>\<open>OrderedResponses\<close> and \<^verbatim>\<open>Correctable\<close>. A
  \<^verbatim>\<open>Server\<close> (\<^verbatim>\<open>src/server.rs\<close>) reads a stream under an ordering lock and runs one task per request. A
  health checker (\<^verbatim>\<open>src/health.rs\<close>) probes a node periodically. \<^verbatim>\<open>quorums-build\<close> generates typed client
  handles and server traits. The examples are a replicated key-value store and EPaxos.

  \<^bold>\<open>The theories\<close>, and what they model.
  \<^item> \<^verbatim>\<open>Quorums_Prelude\<close>: machine integers with checked increment, decimal printing, hash maps as
    association lists without order; lemmas on lists and sorting.
  \<^item> \<^verbatim>\<open>Errors\<close>, \<^verbatim>\<open>Interceptors\<close>: \<^verbatim>\<open>error.rs\<close> and \<^verbatim>\<open>interceptor.rs\<close>. Locale \<open>interceptor_chain\<close> states
    what the client chain and the server chain share.
  \<^item> \<^verbatim>\<open>Node_Config\<close>, \<^verbatim>\<open>Node_Manager\<close>: nodes, configurations, contexts and the pool, every operation of
    the three files.
  \<^item> \<^verbatim>\<open>Collector\<close>, \<^verbatim>\<open>Responses\<close>, \<^verbatim>\<open>Ordered_Responses\<close>, \<^verbatim>\<open>Correctable\<close>: the terminal methods as functions
    of a finite sequence of observations (the token fired or not; nothing yet, an item, or the channel
    closed). Locale \<open>select_loop\<close> is the shape all their loops have; they interpret it.
  \<^item> \<^verbatim>\<open>Router\<close>, \<^verbatim>\<open>Channel\<close>: the registry with the reply channels it owns, and \<^verbatim>\<open>run_node\<close>,
    \<^verbatim>\<open>sender_loop\<close>, \<^verbatim>\<open>receive_loop\<close> as the step relation \<open>chan_step\<close>, interleaved with callers,
    subscribers and the transport.
  \<^item> \<^verbatim>\<open>Call_Types\<close>: the six call types, cut at their suspension points.
  \<^item> \<^verbatim>\<open>Majorities\<close>: locale \<open>quorum_system\<close> and its interpretation on the majorities of a configuration.
  \<^item> \<^verbatim>\<open>Server\<close>: registration, type-erased handlers, and \<^verbatim>\<open>node_stream\<close> as \<open>stream_step\<close>. A handler is the
    tree of what it does with its context (release the lock, send, return).
  \<^item> \<^verbatim>\<open>Health\<close>, \<^verbatim>\<open>Health_Probe\<close>: the checker and its task as \<open>checker_step\<close>; one probe through the client's
    call, the server's built-in handler and back.
  \<^item> \<^verbatim>\<open>Codegen\<close>: builder and generator, text for text, with readers of the generated text. Locale
    \<open>line_reader\<close> carries a reader over a whole generated file; three readers interpret it.
  \<^item> \<^verbatim>\<open>Local_Cluster\<close>: what both examples do first, the configuration a new manager makes of local addresses.
  \<^item> \<^verbatim>\<open>Key_Value\<close>, \<^verbatim>\<open>Key_Value_Main\<close>: the handlers and quorum reads of \<^verbatim>\<open>examples/key_value.rs\<close>; its
    \<^verbatim>\<open>spawn_node\<close> and \<^verbatim>\<open>main\<close>, call by call, through contexts, call types, channels, handlers and terminal
    methods. A node's answer is what a task of its server sends (lemma \<open>kv_handle_is_task\<close>).
  \<^item> \<^verbatim>\<open>Epaxos_State\<close>, \<^verbatim>\<open>Epaxos_Executor\<close>, \<^verbatim>\<open>Epaxos_Handlers\<close>, \<^verbatim>\<open>Epaxos_Propose\<close>: the replica of
    \<^verbatim>\<open>examples/epaxos/replica.rs\<close>: attributes and conflict map, the executor, the message handlers,
    \<^verbatim>\<open>propose\<close> and \<^verbatim>\<open>recover\<close>. \<open>None\<close> is a panic.
  \<^item> \<^verbatim>\<open>Epaxos_Cluster\<close>, \<^verbatim>\<open>Epaxos_Setup\<close>: the group of replicas as \<open>group_step\<close>, in which messages may
    be delayed, reordered, repeated and lost; the methods a replica serves; and \<^verbatim>\<open>setup\<close> of
    \<^verbatim>\<open>examples/epaxos/main.rs\<close>, which starts the group.
  \<^item> \<^verbatim>\<open>Epaxos_Graph\<close>: locale \<open>graph_library\<close>, what the executor needs of hash sets and of petgraph, with an
    executable reference implementation that interprets it.
  \<^item> \<^verbatim>\<open>Epaxos_Runs\<close>, \<^verbatim>\<open>Epaxos_Sequential\<close>, \<^verbatim>\<open>Epaxos_Recovery\<close>: whole calls of \<^verbatim>\<open>propose\<close> and \<^verbatim>\<open>recover\<close>
    over the list of replicas, and \<^verbatim>\<open>main\<close>; the states that successive proposals leave; recovery.
  \<^item> \<^verbatim>\<open>Epaxos_Dependencies\<close>, \<^verbatim>\<open>Epaxos_Progress\<close>: which slots the attributes can name, and what the replicas of
    a reachable group have executed.
  \<^item> \<^verbatim>\<open>Epaxos_Tests\<close>: the test helpers of the replica and the tests of \<^verbatim>\<open>main.rs\<close>.

  \<^bold>\<open>What is shown.\<close>
  \<^item> Terminal methods: the exact result of every threshold, quorum predicate and ordered or correctable
    variant on every sequence of observations; two majority calls on a configuration share a node.
  \<^item> Channel and router: each unanswered call has exactly one sender, answers are final, requests are
    handled in order, the published statuses tell where the task is and \<^verbatim>\<open>Closed\<close> is final, a dead stream
    cancels its callers, sequence numbers are fresh and have the high bit clear up to \<open>2 ^ 63\<close>.
  \<^item> Configurations and pool: the operations refine finite maps without repeated IDs; the invariant of the pool; every
    outcome of \<^verbatim>\<open>add_node\<close>.
  \<^item> Server: lock discipline and dispatch order, what a task sends, that a stream can always drain, and
    end-to-end round trips that run the client's message through the server and back through the router.
  \<^item> Health: the reported status is that of the last probe; the task stops after a drop; a
    probe that a server answers in time reports it healthy.
  \<^item> Generator: the generated text declares exactly the annotated methods, with matching paths on both
    sides; module names determine service names.
  \<^item> Examples: reads return the last write. For EPaxos, every handler is total on well-formed states;
    the executor's search is exact, terminates, respects dependencies and runs everything ready once;
    committed instances agree between replicas and conflicting ones are ordered, for every interleaving
    of proposals, in the group that \<^verbatim>\<open>setup\<close> starts. With graph libraries that keep their contract, no
    message makes a replica of such a group panic, dependencies name proposed instances only, every store
    is a replay of decided instances, each executed once, and nothing ready is left behind, so a replica
    that has learned every proposal has executed them all. Successive proposals all return and all replicas
    execute them in the order they were made; a whole call is a run of the group's steps; recovery of a
    committed instance returns and spreads the decided value, and recovery of an instance that the peers
    hold pre-accepted or accepted with one value commits that value everywhere. Both \<^verbatim>\<open>main\<close> functions run to their end and
    the values they print are determined; the repository's tests of the replica evaluate to success with
    the reference graph library (lemma \<open>epaxos_tests_pass\<close>), the one of two leaders for every interleaving.
    Counterexamples, evaluated by the kernel, show where the example departs from the protocol (lemmas \<open>equal_seq_diverges\<close>, \<open>batch_dependency_skipped\<close>,
    \<open>commit_overwritten\<close>, \<open>short_deps_panic\<close>, \<open>recover_ignores_self\<close>, \<open>recovery_disagrees\<close>).

  \<^bold>\<open>Bounds.\<close> No definition uses fuel. Loops over inputs are structural; the depth-first search of the
  executor terminates because it visits each instance of the table once, by the measure given with it.
  IDs, sequence numbers and ports are words of their width; the \<^verbatim>\<open>i32\<close> values of EPaxos are integers with
  the range checks of the source written out, since the code relies on negative slots. Arithmetic is that
  of builds with overflow checks: where such a build panics the model does, and a release build wraps.

  \<^bold>\<open>Parameters.\<close> Third-party code is an argument: the protobuf codec, the parsing of socket addresses, the
  numbering of status codes, the iteration order of hash maps, \<^verbatim>\<open>tarjan_scc\<close> of petgraph,
  prost-build. Where a theorem needs something of them, it says so in a hypothesis, and its witness
  instantiates it.

  \<^bold>\<open>Not modelled.\<close> The transport (tonic, tokio) beyond the events it produces; time, except that sleeps
  and timeouts are events; \<^verbatim>\<open>Server::serve\<close>, which hands the service to tonic; \<^verbatim>\<open>src/lib.rs\<close>, which
  re-exports; the texts the examples print around the values. In the
  whole calls every message is delivered; loss and reordering are the subject of the step relation.
  Recovery is modelled, and specified where code and documentation agree on it: pre-accepted replies that
  disagree are left open. The step relation of the group contains
  proposals only: agreement under concurrent recovery is not claimed, and \<open>recovery_disagrees\<close> refutes it.
\<close>

end
